(* ===== verification/Kernel_Prelude.thy ===== *)
theory Kernel_Prelude
  imports Main "HOL-Library.Word"
begin

text \<open>
  The shared vocabulary of the development: machine integers at their C widths, the result
  type of kernel code, little-endian encoding of integers, and reading and overwriting a run
  of bytes in a byte array (a disk block, a user buffer) and in the byte-addressed memory.
  Nothing in this theory is about a particular source file; the component theories rest on
  its lemmas through the collections \<open>word_simps\<close>, \<open>byte_simps\<close> and \<open>outcome_simps\<close>.
\<close>

unbundle bit_operations_syntax

named_theorems outcome_simps \<open>rewrite rules for sequencing kernel code\<close>
named_theorems byte_simps \<open>reading and writing runs of bytes\<close>
named_theorems word_simps \<open>masks, shifts and alignment on machine words\<close>

section \<open>Machine integers\<close>

type_synonym u8 = "8 word"
type_synonym u16 = "16 word"
type_synonym u32 = "32 word"
type_synonym u64 = "64 word"
type_synonym bytes = "u8 list"

section \<open>Results of kernel code\<close>

text \<open>
  Kernel code either returns a value and a new state, stops the machine in \<open>panic\<close>, gives the
  CPU away and is not resumed (\<open>Sleep\<close>, with the state it left behind), or spins for ever
  (\<open>Hang\<close>: on a lock that another CPU holds, or after \<open>panicked\<close> is set).
\<close>

datatype ('s, 'a) outcome = Ok 'a 's | Panic string | Sleep 's | Hang

primrec bnd :: "('s, 'a) outcome \<Rightarrow> ('a \<Rightarrow> 's \<Rightarrow> ('s, 'b) outcome) \<Rightarrow> ('s, 'b) outcome" where
  "bnd (Ok a s) f = f a s"
| "bnd (Panic m) f = Panic m"
| "bnd (Sleep s) f = Sleep s"
| "bnd Hang f = Hang"

lemma bnd_cong [fundef_cong]:
  assumes "m = m'" and "\<And>a s. m' = Ok a s \<Longrightarrow> f a s = g a s"
  shows "bnd m f = bnd m' g"
  using assms by (cases m') auto

lemma bnd_Ok_iff [outcome_simps]:
  "bnd m f = Ok b t \<longleftrightarrow> (\<exists>a s. m = Ok a s \<and> f a s = Ok b t)"
  by (cases m) auto

lemma bnd_assoc: "bnd (bnd m f) g = bnd m (\<lambda>a s. bnd (f a s) g)"
  by (cases m) auto

lemma bnd_Ok_right [simp]: "bnd m Ok = m"
  by (cases m) auto

lemma bnd_OkE:
  assumes "bnd m f = Ok b t"
  obtains a s where "m = Ok a s" and "f a s = Ok b t"
  using assms by (auto simp: outcome_simps)

lemma bnd_if [outcome_simps]:
  "bnd (if c then m else n) f = (if c then bnd m f else bnd n f)"
  by simp

text \<open>
  Total and partial correctness. \<open>wp m Q\<close>: the code returns, with a result and state that
  satisfy \<open>Q\<close>. \<open>wlp m Q\<close>: if it returns then \<open>Q\<close> holds.
\<close>

primrec wp :: "('s, 'a) outcome \<Rightarrow> ('a \<Rightarrow> 's \<Rightarrow> bool) \<Rightarrow> bool" where
  "wp (Ok a s) Q = Q a s"
| "wp (Panic m) Q = False"
| "wp (Sleep s) Q = False"
| "wp Hang Q = False"

primrec wlp :: "('s, 'a) outcome \<Rightarrow> ('a \<Rightarrow> 's \<Rightarrow> bool) \<Rightarrow> bool" where
  "wlp (Ok a s) Q = Q a s"
| "wlp (Panic m) Q = True"
| "wlp (Sleep s) Q = True"
| "wlp Hang Q = True"

lemma wp_bnd [outcome_simps]: "wp (bnd m f) Q = wp m (\<lambda>a s. wp (f a s) Q)"
  by (cases m) auto

lemma wlp_bnd [outcome_simps]: "wlp (bnd m f) Q = wlp m (\<lambda>a s. wlp (f a s) Q)"
  by (cases m) auto

lemma wp_iff: "wp m Q \<longleftrightarrow> (\<exists>a s. m = Ok a s \<and> Q a s)"
  by (cases m) auto

lemma wlp_iff: "wlp m Q \<longleftrightarrow> (\<forall>a s. m = Ok a s \<longrightarrow> Q a s)"
  by (cases m) auto

lemma wp_mono: "wp m P \<Longrightarrow> (\<And>a s. P a s \<Longrightarrow> Q a s) \<Longrightarrow> wp m Q"
  by (cases m) auto

lemma wlp_mono: "wlp m P \<Longrightarrow> (\<And>a s. P a s \<Longrightarrow> Q a s) \<Longrightarrow> wlp m Q"
  by (cases m) auto

lemma wp_conj: "wp m P \<Longrightarrow> wlp m Q \<Longrightarrow> wp m (\<lambda>a s. P a s \<and> Q a s)"
  by (cases m) auto

lemma wlp_D: "wlp m Q \<Longrightarrow> m = Ok a s \<Longrightarrow> Q a s"
  by simp

lemma wlp_I: "(\<And>a s. m = Ok a s \<Longrightarrow> Q a s) \<Longrightarrow> wlp m Q"
  by (simp add: wlp_iff)

text \<open>A \<open>for\<close> loop over a list of indices whose body only changes the state.\<close>

primrec for_each :: "'i list \<Rightarrow> ('i \<Rightarrow> 's \<Rightarrow> ('s, unit) outcome) \<Rightarrow> 's \<Rightarrow> ('s, unit) outcome" where
  "for_each [] f s = Ok () s"
| "for_each (i # is) f s = bnd (f i s) (\<lambda>_ t. for_each is f t)"

lemma for_each_append:
  "for_each (is @ js) f s = bnd (for_each is f s) (\<lambda>_ t. for_each js f t)"
  by (induction "is" arbitrary: s) (simp_all add: bnd_assoc)

lemma for_each_invariant:
  assumes "for_each is f s = Ok u t" and "P s"
    and "\<And>i s v t. i \<in> set is \<Longrightarrow> P s \<Longrightarrow> f i s = Ok v t \<Longrightarrow> P t"
  shows "P t"
  using assms
proof (induction "is" arbitrary: s)
  case Nil
  then show ?case by simp
next
  case (Cons i "is")
  from Cons.prems(1) obtain v s1 where 1: "f i s = Ok v s1" and 2: "for_each is f s1 = Ok u t"
    by (auto simp: outcome_simps)
  from Cons.prems(2,3) 1 have "P s1" by force
  with 2 Cons.prems(3) show ?case by (intro Cons.IH[of s1]) auto
qed

lemma for_each_wlp:
  assumes "P s" and "\<And>i s. i \<in> set is \<Longrightarrow> P s \<Longrightarrow> wlp (f i s) (\<lambda>_. P)"
  shows "wlp (for_each is f s) (\<lambda>_. P)"
  using for_each_invariant[of "is" f s _ _ P] assms by (auto simp: wlp_iff)

lemma for_each_wp:
  assumes "P s" and "\<And>i s. i \<in> set is \<Longrightarrow> P s \<Longrightarrow> wp (f i s) (\<lambda>_. P)"
  shows "wp (for_each is f s) (\<lambda>_. P)"
  using assms
proof (induction "is" arbitrary: s)
  case Nil
  then show ?case by simp
next
  case (Cons i "is")
  then have "wp (f i s) (\<lambda>_. P)" by simp
  then show ?case
    unfolding for_each.simps wp_bnd by (rule wp_mono) (intro Cons.IH, auto intro: Cons.prems)
qed

lemma for_each_upto:
  assumes "Q 0 s" and "\<And>i s. i < n \<Longrightarrow> Q i s \<Longrightarrow> wp (f i s) (\<lambda>_. Q (Suc i))"
  shows "wp (for_each [0..<n] f s) (\<lambda>_. Q n)"
  using assms
proof (induction n arbitrary: Q)
  case 0
  then show ?case by simp
next
  case (Suc n)
  have "wp (for_each [0..<n] f s) (\<lambda>_. Q n)" using Suc.prems by (intro Suc.IH) auto
  then show ?case using Suc.prems(2)[of n] by (auto simp: for_each_append wp_bnd elim!: wp_mono)
qed

lemma wp_bndI: "wp m P \<Longrightarrow> (\<And>a t. P a t \<Longrightarrow> wp (f a t) Q) \<Longrightarrow> wp (bnd m f) Q"
  by (cases m) auto

lemma wp_unitE: "wp (m :: ('s, unit) outcome) Q \<Longrightarrow> (\<And>t. m = Ok () t \<Longrightarrow> Q () t \<Longrightarrow> R) \<Longrightarrow> R"
  by (auto simp: wp_iff)

lemma wp_Ok: "wp m Q \<Longrightarrow> wp m (\<lambda>a t. m = Ok a t \<and> Q a t)"
  by (auto simp: wp_iff)

section \<open>Runs of bytes in a byte array\<close>

definition slice :: "'a list \<Rightarrow> nat \<Rightarrow> nat \<Rightarrow> 'a list" where
  "slice bs off n = take n (drop off bs)"

definition blit :: "'a list \<Rightarrow> nat \<Rightarrow> 'a list \<Rightarrow> 'a list" where
  "blit bs off xs = take off bs @ xs @ drop (off + length xs) bs"

lemma length_slice [byte_simps]: "off + n \<le> length bs \<Longrightarrow> length (slice bs off n) = n"
  by (simp add: slice_def)

lemma length_blit [byte_simps]: "off + length xs \<le> length bs \<Longrightarrow> length (blit bs off xs) = length bs"
  by (simp add: blit_def)

lemma slice_nth: "i < n \<Longrightarrow> off + n \<le> length bs \<Longrightarrow> slice bs off n ! i = bs ! (off + i)"
  by (simp add: slice_def)

lemma nth_blit:
  assumes "off + length xs \<le> length bs" and "i < length bs"
  shows "blit bs off xs ! i = (if off \<le> i \<and> i < off + length xs then xs ! (i - off) else bs ! i)"
  using assms by (auto simp: blit_def nth_append)

lemma slice_blit_same [byte_simps]:
  "off + length xs \<le> length bs \<Longrightarrow> n = length xs \<Longrightarrow> slice (blit bs off xs) off n = xs"
  by (simp add: slice_def blit_def)

lemma slice_blit_disjoint [byte_simps]:
  assumes "off + length xs \<le> length bs" and "o' + n \<le> length bs"
    and "o' + n \<le> off \<or> off + length xs \<le> o'"
  shows "slice (blit bs off xs) o' n = slice bs o' n"
  using assms by (intro nth_equalityI) (auto simp: byte_simps slice_nth nth_blit)

lemma slice_all [byte_simps]: "n = length bs \<Longrightarrow> slice bs 0 n = bs"
  by (simp add: slice_def)

lemma blit_all [byte_simps]: "length xs = length bs \<Longrightarrow> blit bs 0 xs = xs"
  by (simp add: blit_def)

lemma blit_Nil [byte_simps]: "off \<le> length bs \<Longrightarrow> blit bs off [] = bs"
  by (simp add: blit_def)

lemma blit_append:
  assumes "off + length xs + length ys \<le> length bs"
  shows "blit (blit bs off xs) (off + length xs) ys = blit bs off (xs @ ys)"
  using assms by (intro nth_equalityI) (auto simp: byte_simps nth_blit nth_append)

section \<open>Little-endian integers\<close>

primrec le_enc :: "nat \<Rightarrow> 'a::len word \<Rightarrow> bytes" where
  "le_enc 0 w = []"
| "le_enc (Suc n) w = ucast w # le_enc n (drop_bit 8 w)"

primrec le_dec :: "bytes \<Rightarrow> 'a::len word" where
  "le_dec [] = 0"
| "le_dec (b # bs) = ucast b OR push_bit 8 (le_dec bs)"

lemma length_le_enc [simp]: "length (le_enc n w) = n"
  by (induction n arbitrary: w) auto

lemma le_dec_enc_take_bit: "le_dec (le_enc n w) = take_bit (8 * n) (w :: 'a::len word)"
proof (induction n arbitrary: w)
  case 0
  then show ?case by simp
next
  case (Suc n)
  have "le_dec (le_enc (Suc n) w)
      = ucast (ucast w :: u8) OR push_bit 8 (take_bit (8 * n) (drop_bit 8 w))"
    by (simp add: Suc.IH)
  also have "\<dots> = take_bit (8 * Suc n) w"
    by (rule bit_eqI) (auto simp: bit_simps)
  finally show ?case .
qed

lemma le_dec_enc [simp]:
  "LENGTH('a) \<le> 8 * n \<Longrightarrow> le_dec (le_enc n (w :: 'a::len word)) = w"
  by (simp add: le_dec_enc_take_bit take_bit_word_eq_self)

lemma le_enc_dec [simp]:
  "8 * n \<le> LENGTH('a) \<Longrightarrow> length bs = n \<Longrightarrow> le_enc n (le_dec bs :: 'a::len word) = bs"
proof (induction bs arbitrary: n)
  case Nil
  then show ?case by simp
next
  case (Cons b bs)
  then obtain m where n: "n = Suc m" and m: "length bs = m" "8 * m \<le> LENGTH('a)" by (cases n) auto
  let ?v = "le_dec bs :: 'a word"
  have len: "8 + 8 * m \<le> LENGTH('a)" using Cons.prems n by simp
  have hd: "(ucast (ucast b OR push_bit 8 ?v) :: u8) = b"
    by (rule bit_eqI) (use len in \<open>auto simp: bit_simps\<close>)
  have "drop_bit 8 (ucast b OR push_bit 8 ?v) = take_bit (LENGTH('a) - 8) ?v"
    by (rule bit_eqI) (use len in \<open>auto simp: bit_simps dest: bit_imp_le_length\<close>)
  moreover have "le_enc m (take_bit k w) = le_enc m w" if "8 * m \<le> k" for k and w :: "'a word"
    using that
  proof (induction m arbitrary: k w)
    case 0
    then show ?case by simp
  next
    case (Suc m)
    have "(ucast (take_bit k w) :: u8) = ucast w"
      by (rule bit_eqI) (use Suc.prems in \<open>auto simp: bit_simps\<close>)
    moreover have "drop_bit 8 (take_bit k w) = take_bit (k - 8) (drop_bit 8 w)"
      by (simp add: drop_bit_take_bit)
    ultimately show ?case using Suc by simp
  qed
  ultimately have "le_enc m (drop_bit 8 (ucast b OR push_bit 8 ?v)) = bs"
    using Cons.IH[of m] m len by simp
  with hd show ?case by (simp add: n)
qed

section \<open>Integers stored in a byte array\<close>

definition rd16 :: "bytes \<Rightarrow> nat \<Rightarrow> u16" where "rd16 bs off = le_dec (slice bs off 2)"
definition rd32 :: "bytes \<Rightarrow> nat \<Rightarrow> u32" where "rd32 bs off = le_dec (slice bs off 4)"
definition rd64 :: "bytes \<Rightarrow> nat \<Rightarrow> u64" where "rd64 bs off = le_dec (slice bs off 8)"
definition wr16 :: "bytes \<Rightarrow> nat \<Rightarrow> u16 \<Rightarrow> bytes" where "wr16 bs off v = blit bs off (le_enc 2 v)"
definition wr32 :: "bytes \<Rightarrow> nat \<Rightarrow> u32 \<Rightarrow> bytes" where "wr32 bs off v = blit bs off (le_enc 4 v)"

lemmas rdwr_defs = rd16_def rd32_def rd64_def wr16_def wr32_def

lemma rd32_wr32 [byte_simps]: "off + 4 \<le> length bs \<Longrightarrow> rd32 (wr32 bs off v) off = v"
  by (simp add: rdwr_defs byte_simps)

lemma rd16_wr16 [byte_simps]: "off + 2 \<le> length bs \<Longrightarrow> rd16 (wr16 bs off v) off = v"
  by (simp add: rdwr_defs byte_simps)

lemma length_wr [byte_simps]:
  "off + 4 \<le> length bs \<Longrightarrow> length (wr32 bs off v) = length bs"
  "off + 2 \<le> length bs \<Longrightarrow> length (wr16 bs off w) = length bs"
  by (simp_all add: rdwr_defs byte_simps)

section \<open>The byte-addressed memory\<close>

type_synonym memory = "u64 \<Rightarrow> u8"

definition mslice :: "memory \<Rightarrow> u64 \<Rightarrow> nat \<Rightarrow> bytes" where
  "mslice m a n = map (\<lambda>i. m (a + of_nat i)) [0..<n]"

definition mblit :: "memory \<Rightarrow> u64 \<Rightarrow> bytes \<Rightarrow> memory" where
  "mblit m a xs = (\<lambda>x. if unat (x - a) < length xs then xs ! unat (x - a) else m x)"

definition mrd64 :: "memory \<Rightarrow> u64 \<Rightarrow> u64" where "mrd64 m a = le_dec (mslice m a 8)"
definition mwr64 :: "memory \<Rightarrow> u64 \<Rightarrow> u64 \<Rightarrow> memory" where "mwr64 m a v = mblit m a (le_enc 8 v)"

definition disjoint_run :: "u64 \<Rightarrow> nat \<Rightarrow> u64 \<Rightarrow> nat \<Rightarrow> bool" where
  "disjoint_run a n b k \<longleftrightarrow> (\<forall>i < n. \<not> unat (a + of_nat i - b) < k)"

lemma length_mslice [simp]: "length (mslice m a n) = n"
  by (simp add: mslice_def)

lemma unat_of_nat_lt64: "i < 2 ^ 64 \<Longrightarrow> unat (of_nat i :: u64) = i"
  by (simp add: unat_of_nat)

lemma unat_lt64: "unat (w :: u64) < 18446744073709551616"
  by (rule order_less_le_trans[OF unsigned_less]) simp

lemma u64_eq_of_nat: "n < 2 ^ 64 \<Longrightarrow> (w :: u64) = of_nat n \<longleftrightarrow> unat w = n"
  using unat_of_nat_lt64[of n] of_nat_unat[of w] by auto

lemma unat_add_of_nat [word_simps]:
  "unat (a :: u64) + i < 2 ^ 64 \<Longrightarrow> unat (a + of_nat i) = unat a + i"
  by (simp add: unat_word_ariths unat_of_nat)

lemma unat_max64: "unat (- 1 :: u64) = 18446744073709551615"
  by (simp add: unsigned_minus_1_eq_mask mask_eq_exp_minus_1)

lemma unat_diff_Suc:
  fixes x d :: u64
  assumes "x \<noteq> d"
  shows "unat (x - d) = Suc (unat (x - (d + 1)))"
proof -
  have nz: "x - d \<noteq> 0" using assms by simp
  have "unat (x - (d + 1)) = unat (x - d) - 1"
    using unat_minus_one[OF nz] by (simp only: diff_diff_eq)
  moreover have "0 < unat (x - d)" using nz by (simp only: unat_gt_0 not_False_eq_True)
  ultimately show ?thesis by linarith
qed

lemma mslice_Cons: "mslice m s (Suc n) = m s # mslice m (s + 1) n"
  by (simp add: mslice_def upt_conv_Cons map_Suc_upt[symmetric] add.assoc del: upt_Suc)

lemma mslice_snoc: "mslice m s (Suc n) = mslice m s n @ [m (s + of_nat n)]"
  by (simp add: mslice_def)

lemma mslice_upd_outside:
  "(\<And>i. i < n \<Longrightarrow> s + of_nat i \<noteq> d) \<Longrightarrow> mslice (m(d := v)) s n = mslice m s n"
  by (auto simp: mslice_def)

lemma mblit_Cons:
  assumes "length xs + 1 < 2 ^ 64"
  shows "mblit (m(d := v)) (d + 1) xs = mblit m d (v # xs)"
proof
  fix x
  show "mblit (m(d := v)) (d + 1) xs x = mblit m d (v # xs) x"
  proof (cases "x = d")
    case True
    have "unat (d - (d + 1)) = 2 ^ 64 - 1" by (simp add: unat_max64)
    with True assms show ?thesis by (simp add: mblit_def)
  next
    case False
    then show ?thesis by (simp add: mblit_def unat_diff_Suc)
  qed
qed

lemma mblit_snoc:
  assumes "length xs < 2 ^ 64"
  shows "mblit (m(d + of_nat (length xs) := v)) d xs = mblit m d (xs @ [v])"
proof
  fix x
  have "x = d + of_nat (length xs) \<longleftrightarrow> unat (x - d) = length xs"
    using u64_eq_of_nat[OF assms, of "x - d"] by (simp add: diff_eq_eq add.commute)
  then show "mblit (m(d + of_nat (length xs) := v)) d xs x = mblit m d (xs @ [v]) x"
    by (auto simp: mblit_def nth_append less_Suc_eq)
qed

lemma mblit_at:
  "j < 2 ^ 64 \<Longrightarrow> mblit m a xs (a + of_nat j) = (if j < length xs then xs ! j else m (a + of_nat j))"
  by (simp add: mblit_def unat_of_nat_lt64)

lemma mslice_mblit_same [byte_simps]:
  "length xs < 2 ^ 64 \<Longrightarrow> n = length xs \<Longrightarrow> mslice (mblit m a xs) a n = xs"
  by (intro nth_equalityI) (auto simp: mslice_def mblit_def unat_of_nat_lt64)

lemma mslice_mblit_disjoint [byte_simps]:
  "disjoint_run b n a (length xs) \<Longrightarrow> mslice (mblit m a xs) b n = mslice m b n"
  by (auto simp: mslice_def mblit_def disjoint_run_def)

lemma mrd64_mwr64 [byte_simps]: "mrd64 (mwr64 m a v) a = v"
  by (simp add: mrd64_def mwr64_def byte_simps)

lemma mrd64_mblit_disjoint [byte_simps]:
  "disjoint_run b 8 a (length xs) \<Longrightarrow> mrd64 (mblit m a xs) b = mrd64 m b"
  by (simp add: mrd64_def byte_simps)

lemma mrd64_mwr64_disjoint [byte_simps]:
  "disjoint_run b 8 a 8 \<Longrightarrow> mrd64 (mwr64 m a v) b = mrd64 m b"
  by (simp add: mwr64_def byte_simps)

end
