(* ===== verification/Kernel_State.thy ===== *)
theory Kernel_State
  imports Kernel_Prelude
begin

text \<open>
  The data of the kernel: the constants of \<open>param.h\<close>, \<open>memlayout.h\<close>, \<open>riscv.h\<close>, \<open>fs.h\<close>,
  \<open>stat.h\<close> and \<open>fcntl.h\<close>, one record per C struct, and the record of the kernel's global
  variables.

  Conventions. A pointer into a static array (\<open>proc\<close>, \<open>bcache.buf\<close>, \<open>itable.inode\<close>,
  \<open>ftable.file\<close>) is the index of the element, and a pointer that may be null is an option.
  A pointer to a page handed out by \<open>kalloc\<close> is its address. The spinlocks embedded in the
  structs are kept in one store indexed by a name for the lock (\<open>lockid\<close>), because code
  passes pointers to them; likewise the sleep locks. A sleep channel is a pointer in C, here a
  value of \<open>chan\<close> with one constructor per object the source sleeps on. A C array of fixed
  length is a function on \<open>nat\<close>; the code indexes it within its bounds.
  The memory is indexed by kernel virtual address; the kernel maps RAM at its physical
  address, so page-table pages, user pages and allocator links are reached by physical
  address as in the source. Objects that the kernel accesses only as a struct in a page of
  their own (trap frames, pipes) are kept in typed stores indexed by the page address.
\<close>

section \<open>Constants\<close>

abbreviation (input) NPROC :: nat where "NPROC \<equiv> 64"
abbreviation (input) NCPU :: nat where "NCPU \<equiv> 8"
abbreviation (input) NOFILE :: nat where "NOFILE \<equiv> 16"
abbreviation (input) NFILE :: nat where "NFILE \<equiv> 100"
abbreviation (input) NINODE :: nat where "NINODE \<equiv> 50"
abbreviation (input) NDEV :: nat where "NDEV \<equiv> 10"
abbreviation (input) ROOTDEV :: nat where "ROOTDEV \<equiv> 1"
abbreviation (input) MAXARG :: nat where "MAXARG \<equiv> 32"
abbreviation (input) MAXOPBLOCKS :: nat where "MAXOPBLOCKS \<equiv> 10"
abbreviation (input) LOGSIZE :: nat where "LOGSIZE \<equiv> 30"
abbreviation (input) NBUF :: nat where "NBUF \<equiv> 30"
abbreviation (input) FSSIZE :: nat where "FSSIZE \<equiv> 1000"
abbreviation (input) MAXPATH :: nat where "MAXPATH \<equiv> 128"

abbreviation (input) ROOTINO :: nat where "ROOTINO \<equiv> 1"
abbreviation (input) BSIZE :: nat where "BSIZE \<equiv> 1024"
abbreviation (input) NDIRECT :: nat where "NDIRECT \<equiv> 12"
abbreviation (input) NINDIRECT :: nat where "NINDIRECT \<equiv> 256"
abbreviation (input) MAXFILE :: nat where "MAXFILE \<equiv> 268"
abbreviation (input) IPB :: nat where "IPB \<equiv> 16"
abbreviation (input) BPB :: nat where "BPB \<equiv> 8192"
abbreviation (input) DIRSIZ :: nat where "DIRSIZ \<equiv> 14"
abbreviation (input) FSMAGIC :: u32 where "FSMAGIC \<equiv> 0x10203040"

abbreviation (input) T_DIR :: int where "T_DIR \<equiv> 1"
abbreviation (input) T_FILE :: int where "T_FILE \<equiv> 2"
abbreviation (input) T_DEVICE :: int where "T_DEVICE \<equiv> 3"

abbreviation (input) O_RDONLY :: u32 where "O_RDONLY \<equiv> 0x000"
abbreviation (input) O_WRONLY :: u32 where "O_WRONLY \<equiv> 0x001"
abbreviation (input) O_RDWR :: u32 where "O_RDWR \<equiv> 0x002"
abbreviation (input) O_CREATE :: u32 where "O_CREATE \<equiv> 0x200"
abbreviation (input) O_TRUNC :: u32 where "O_TRUNC \<equiv> 0x400"

abbreviation (input) PGSIZE :: u64 where "PGSIZE \<equiv> 4096"
abbreviation (input) KERNBASE :: u64 where "KERNBASE \<equiv> 0x80000000"
abbreviation (input) PHYSTOP :: u64 where "PHYSTOP \<equiv> 0x88000000"
abbreviation (input) MAXVA :: u64 where "MAXVA \<equiv> 0x4000000000"
abbreviation (input) TRAMPOLINE :: u64 where "TRAMPOLINE \<equiv> 0x3ffffff000"
abbreviation (input) TRAPFRAME :: u64 where "TRAPFRAME \<equiv> 0x3fffffe000"
abbreviation (input) UART0 :: u64 where "UART0 \<equiv> 0x10000000"
abbreviation (input) VIRTIO0 :: u64 where "VIRTIO0 \<equiv> 0x10001000"
abbreviation (input) PLIC :: u64 where "PLIC \<equiv> 0x0c000000"

abbreviation (input) PTE_V :: u64 where "PTE_V \<equiv> 1"
abbreviation (input) PTE_R :: u64 where "PTE_R \<equiv> 2"
abbreviation (input) PTE_W :: u64 where "PTE_W \<equiv> 4"
abbreviation (input) PTE_X :: u64 where "PTE_X \<equiv> 8"
abbreviation (input) PTE_U :: u64 where "PTE_U \<equiv> 16"

text \<open>Macros of \<open>memlayout.h\<close> and \<open>riscv.h\<close> with an argument.\<close>

definition KSTACK :: "nat \<Rightarrow> u64" where
  "KSTACK p = TRAMPOLINE - (of_nat p + 1) * 2 * PGSIZE"

definition PGROUNDUP :: "u64 \<Rightarrow> u64" where
  "PGROUNDUP sz = (sz + PGSIZE - 1) AND NOT (PGSIZE - 1)"

definition PGROUNDDOWN :: "u64 \<Rightarrow> u64" where
  "PGROUNDDOWN a = a AND NOT (PGSIZE - 1)"

definition PA2PTE :: "u64 \<Rightarrow> u64" where
  "PA2PTE pa = push_bit 10 (drop_bit 12 pa)"

definition PTE2PA :: "u64 \<Rightarrow> u64" where
  "PTE2PA pte = push_bit 12 (drop_bit 10 pte)"

definition PTE_FLAGS :: "u64 \<Rightarrow> u64" where
  "PTE_FLAGS pte = pte AND 0x3FF"

definition PX :: "nat \<Rightarrow> u64 \<Rightarrow> u64" where
  "PX level va = drop_bit (12 + 9 * level) va AND 0x1FF"

definition MAKE_SATP :: "u64 \<Rightarrow> u64" where
  "MAKE_SATP pagetable = push_bit 60 8 OR drop_bit 12 pagetable"

section \<open>Locks and sleep channels\<close>

datatype slockid = SLbuf nat | SLinode nat

datatype lockid =
    Lkmem | Lpid | Lwait | Lproc nat | Lticks | Lbcache | Lsleep slockid | Llog
  | Litable | Lftable | Lpipe u64 | Lcons | Luart_tx | Lpr | Lvdisk

datatype chan =
    Cproc nat | Csleeplock slockid | Clog | Cpipe_nread u64 | Cpipe_nwrite u64
  | Cticks | Ccons_r | Cuart_tx_r | Cdisk_free | Cbuf nat

record spinlock =
  lk_locked :: bool
  lk_name :: string
  lk_cpu :: "nat option"

record sleeplock =
  sl_locked :: bool
  sl_name :: string
  sl_pid :: int

section \<open>Processes and CPUs\<close>

record ctxt =
  ctx_ra :: u64
  ctx_sp :: u64
  ctx_s :: "nat \<Rightarrow> u64"

text \<open>
  \<open>noff\<close> is an \<open>int\<close> that \<open>push_off\<close> counts up from 0 and \<open>pop_off\<close> does not count below 0; a
  natural number is its value as long as the calls nest less than \<open>2 ^ 31\<close> deep.
\<close>

record cpu =
  c_proc :: "nat option"
  c_noff :: nat
  c_intena :: bool

record trapframe =
  tf_kernel_satp :: u64
  tf_kernel_sp :: u64
  tf_kernel_trap :: u64
  tf_epc :: u64
  tf_kernel_hartid :: u64
  tf_ra :: u64
  tf_sp :: u64
  tf_gp :: u64
  tf_tp :: u64
  tf_t :: "nat \<Rightarrow> u64"
  tf_s :: "nat \<Rightarrow> u64"
  tf_a0 :: u64
  tf_a1 :: u64
  tf_a2 :: u64
  tf_a3 :: u64
  tf_a4 :: u64
  tf_a5 :: u64
  tf_a6 :: u64
  tf_a7 :: u64

datatype procstate = UNUSED | USED | SLEEPING | RUNNABLE | RUNNING | ZOMBIE

record proc =
  p_state :: procstate
  p_chan :: "chan option"
  p_killed :: bool
  p_xstate :: int
  p_pid :: int
  p_parent :: "nat option"
  p_kstack :: u64
  p_sz :: u64
  p_pagetable :: u64
  p_trapframe :: u64
  p_context :: ctxt
  p_ofile :: "nat \<Rightarrow> nat option"
  p_cwd :: "nat option"
  p_name :: bytes

section \<open>Disk driver, buffer cache, log\<close>

text \<open>
  The address a descriptor points to: the request header of a chain, the data of a buffer, or
  the status byte of a chain.
\<close>

datatype dma_ptr = DNull | DOps nat | DData nat | DStatus nat

record virtq_desc =
  dsc_addr :: dma_ptr
  dsc_len :: u32
  dsc_flags :: u16
  dsc_next :: u16

record virtio_blk_req =
  rq_type :: u32
  rq_reserved :: u32
  rq_sector :: u64

text \<open>
  \<open>d_notify\<close> and \<open>d_isr\<close> are the two registers of the device the driver uses for a request: whether
  queue 0 has been notified (\<open>QUEUE_NOTIFY\<close>), and \<open>INTERRUPT_STATUS\<close>.
\<close>

record vdisk =
  d_desc :: "nat \<Rightarrow> virtq_desc"
  d_avail_idx :: u16
  d_avail_ring :: "nat \<Rightarrow> u16"
  d_used_idx_dev :: u16
  d_used_ring :: "nat \<Rightarrow> u32"
  d_free :: "nat \<Rightarrow> bool"
  d_used_idx :: u16
  d_info_b :: "nat \<Rightarrow> nat option"
  d_info_status :: "nat \<Rightarrow> u8"
  d_ops :: "nat \<Rightarrow> virtio_blk_req"
  d_notify :: bool
  d_isr :: u32

record buf =
  b_valid :: bool
  b_disk :: bool
  b_dev :: nat
  b_blockno :: nat
  b_refcnt :: u32
  b_prev :: nat
  b_next :: nat
  b_data :: bytes

record logheader =
  lh_n :: int
  lh_block :: "nat \<Rightarrow> nat"

record log =
  l_start :: nat
  l_size :: nat
  l_outstanding :: int
  l_committing :: bool
  l_dev :: nat
  l_lh :: logheader

section \<open>File system, files, pipes\<close>

record superblock =
  sb_magic :: u32
  sb_size :: nat
  sb_nblocks :: nat
  sb_ninodes :: nat
  sb_nlog :: nat
  sb_logstart :: nat
  sb_inodestart :: nat
  sb_bmapstart :: nat

record inode =
  i_dev :: nat
  i_inum :: nat
  i_ref :: int
  i_valid :: bool
  i_type :: int
  i_major :: int
  i_minor :: int
  i_nlink :: u16
  i_size :: u32
  i_addrs :: "nat \<Rightarrow> nat"

datatype ftype = FD_NONE | FD_PIPE | FD_INODE | FD_DEVICE

record kfile =
  f_type :: ftype
  f_ref :: int
  f_readable :: bool
  f_writable :: bool
  f_pipe :: u64
  f_ip :: nat
  f_off :: u32
  f_major :: int

record pipe =
  pi_data :: "nat \<Rightarrow> u8"
  pi_nread :: u32
  pi_nwrite :: u32
  pi_readopen :: bool
  pi_writeopen :: bool

text \<open>The function pointers of \<open>devsw\<close>: the only device functions of the source are the console's.\<close>

datatype devfun = Consoleread | Consolewrite

record devsw =
  dv_read :: "devfun option"
  dv_write :: "devfun option"

section \<open>Console and UART\<close>

record cons =
  cons_buf :: "nat \<Rightarrow> u8"
  cons_r :: u32
  cons_w :: u32
  cons_e :: u32

text \<open>
  The UART driver's transmit buffer, and the device itself: the bytes it has accepted, the
  bytes waiting in the receive register, and the sequence of answers the line status register
  gives to the question whether the transmit register is free.
\<close>

record uart =
  tx_buf :: "nat \<Rightarrow> u8"
  tx_w :: u64
  tx_r :: u64
  tx_sent :: bytes
  rx_fifo :: bytes
  tx_idle :: "bool list"

section \<open>The machine\<close>

text \<open>Addresses fixed by the linker (\<open>kernel.ld\<close>) and by the assembly files.\<close>

record symtab =
  sym_end :: u64
  sym_etext :: u64
  sym_trampoline :: u64
  sym_uservec :: u64
  sym_userret :: u64
  sym_usertrap :: u64
  sym_kernelvec :: u64
  sym_forkret :: u64
  sym_stack0 :: u64

text \<open>
  The block device. What it does with a request is not code of the repository, so it is a
  function that is part of the machine: from the request header, the bytes of the data buffer
  and the contents of the drive to the status byte, the new bytes of the data buffer and the new
  contents of the drive. What the driver relies on is \<open>blk_conforms\<close> below. How the device reads
  the descriptors and the rings is the protocol of the virtio specification (\<open>Sched\<close>).
\<close>

type_synonym drive = "nat \<Rightarrow> u8"
type_synonym blkdev = "virtio_blk_req \<Rightarrow> bytes \<Rightarrow> drive \<Rightarrow> u8 \<times> bytes \<times> drive"

record core =
  hart :: nat
  sstatus :: u64
  stvec :: u64
  sepc :: u64
  scause :: u64
  stval :: u64
  satp :: u64
  sip :: u64
  plic_claim_reg :: "u32 list"
  plic_writes :: "(u64 \<times> u32) list"
  syms :: symtab
  cpus :: "nat \<Rightarrow> cpu"
  locks :: "lockid \<Rightarrow> spinlock"
  slocks :: "slockid \<Rightarrow> sleeplock"
  procs :: "nat \<Rightarrow> proc"
  initproc :: "nat option"
  nextpid :: int
  forkret_first :: bool
  mem :: memory
  freelist :: u64
  kernel_pagetable :: u64
  tfs :: "u64 \<Rightarrow> trapframe"
  pipes :: "u64 \<Rightarrow> pipe"
  ticks :: u32
  bufs :: "nat \<Rightarrow> buf"
  vdisk :: vdisk
  drv :: drive
  blk :: blkdev
  wtrace :: "(nat \<times> bytes) list"
  klog :: log
  sb :: superblock
  inodes :: "nat \<Rightarrow> inode"
  ftable :: "nat \<Rightarrow> kfile"
  devsw :: "nat \<Rightarrow> devsw"
  kcons :: cons
  kuart :: uart
  pr_locking :: bool
  panicked :: bool

text \<open>
  What happens the next times the running process gives up the CPU. \<open>None\<close>: until it runs
  again only the block device and its interrupt handler do anything. \<open>Some c\<close>: other
  processes and CPUs run as well, and when the scheduler comes back to the process the machine
  looks like \<open>c\<close>. Beyond the end of the list only the device acts.
\<close>

record kst = core +
  future :: "core option list"

type_synonym 'a k = "(kst, 'a) outcome"

text \<open>Updating one element of a table.\<close>

definition upd_proc :: "nat \<Rightarrow> (proc \<Rightarrow> proc) \<Rightarrow> kst \<Rightarrow> kst" where
  "upd_proc i f s = s\<lparr>procs := (procs s)(i := f (procs s i))\<rparr>"

definition upd_buf :: "nat \<Rightarrow> (buf \<Rightarrow> buf) \<Rightarrow> kst \<Rightarrow> kst" where
  "upd_buf i f s = s\<lparr>bufs := (bufs s)(i := f (bufs s i))\<rparr>"

definition upd_inode :: "nat \<Rightarrow> (inode \<Rightarrow> inode) \<Rightarrow> kst \<Rightarrow> kst" where
  "upd_inode i f s = s\<lparr>inodes := (inodes s)(i := f (inodes s i))\<rparr>"

definition upd_file :: "nat \<Rightarrow> (kfile \<Rightarrow> kfile) \<Rightarrow> kst \<Rightarrow> kst" where
  "upd_file i f s = s\<lparr>ftable := (ftable s)(i := f (ftable s i))\<rparr>"

definition upd_pipe :: "u64 \<Rightarrow> (pipe \<Rightarrow> pipe) \<Rightarrow> kst \<Rightarrow> kst" where
  "upd_pipe a f s = s\<lparr>pipes := (pipes s)(a := f (pipes s a))\<rparr>"

definition upd_tf :: "u64 \<Rightarrow> (trapframe \<Rightarrow> trapframe) \<Rightarrow> kst \<Rightarrow> kst" where
  "upd_tf a f s = s\<lparr>tfs := (tfs s)(a := f (tfs s a))\<rparr>"

lemmas upd_defs = upd_proc_def upd_buf_def upd_inode_def upd_file_def upd_pipe_def upd_tf_def

text \<open>
  The documented behaviour of a legacy virtio block device for the requests the driver makes:
  a read (\<open>VIRTIO_BLK_T_IN\<close>) fills the data buffer from the drive at the 512-byte sector, a
  write (\<open>VIRTIO_BLK_T_OUT\<close>) stores it there, and both answer with status 0.
\<close>

definition blk_conforms :: "blkdev \<Rightarrow> bool" where
  "blk_conforms f \<longleftrightarrow>
     (\<forall>rq bs d. rq_type rq = 0 \<longrightarrow>
        f rq bs d = (0, map (\<lambda>i. d (512 * unat (rq_sector rq) + i)) [0..<length bs], d)) \<and>
     (\<forall>rq bs d. rq_type rq = 1 \<longrightarrow>
        f rq bs d = (0, bs, \<lambda>j. if 512 * unat (rq_sector rq) \<le> j \<and>
                                   j < 512 * unat (rq_sector rq) + length bs
                                then bs ! (j - 512 * unat (rq_sector rq)) else d j))"

section \<open>A concrete machine\<close>

text \<open>
  The zero-initialised globals of the kernel on a machine with a conforming block device: the
  state in which \<open>main\<close> starts, up to the values the linker and the firmware choose. It is used
  to show that hypotheses can be met.
\<close>

definition ref_blk :: blkdev where
  "ref_blk rq bs d =
     (if rq_type rq = 0 then (0, map (\<lambda>i. d (512 * unat (rq_sector rq) + i)) [0..<length bs], d)
      else (0, bs, \<lambda>j. if 512 * unat (rq_sector rq) \<le> j \<and> j < 512 * unat (rq_sector rq) + length bs
                       then bs ! (j - 512 * unat (rq_sector rq)) else d j))"

lemma ref_blk_conforms: "blk_conforms ref_blk"
  by (simp add: blk_conforms_def ref_blk_def)

definition zero_proc :: proc where
  "zero_proc = \<lparr>p_state = UNUSED, p_chan = None, p_killed = False, p_xstate = 0, p_pid = 0,
     p_parent = None, p_kstack = 0, p_sz = 0, p_pagetable = 0, p_trapframe = 0,
     p_context = \<lparr>ctx_ra = 0, ctx_sp = 0, ctx_s = (\<lambda>_. 0)\<rparr>, p_ofile = (\<lambda>_. None), p_cwd = None,
     p_name = replicate 16 0\<rparr>"

definition zero_buf :: buf where
  "zero_buf = \<lparr>b_valid = False, b_disk = False, b_dev = 0, b_blockno = 0, b_refcnt = 0,
     b_prev = 0, b_next = 0, b_data = replicate BSIZE 0\<rparr>"

definition zero_inode :: inode where
  "zero_inode = \<lparr>i_dev = 0, i_inum = 0, i_ref = 0, i_valid = False, i_type = 0, i_major = 0,
     i_minor = 0, i_nlink = 0, i_size = 0, i_addrs = (\<lambda>_. 0)\<rparr>"

definition zero_file :: kfile where
  "zero_file = \<lparr>f_type = FD_NONE, f_ref = 0, f_readable = False, f_writable = False, f_pipe = 0,
     f_ip = 0, f_off = 0, f_major = 0\<rparr>"

definition zero_tf :: trapframe where
  "zero_tf = \<lparr>tf_kernel_satp = 0, tf_kernel_sp = 0, tf_kernel_trap = 0, tf_epc = 0,
     tf_kernel_hartid = 0, tf_ra = 0, tf_sp = 0, tf_gp = 0, tf_tp = 0, tf_t = (\<lambda>_. 0),
     tf_s = (\<lambda>_. 0), tf_a0 = 0, tf_a1 = 0, tf_a2 = 0, tf_a3 = 0, tf_a4 = 0, tf_a5 = 0,
     tf_a6 = 0, tf_a7 = 0\<rparr>"

definition zero_vdisk :: vdisk where
  "zero_vdisk = \<lparr>d_desc = (\<lambda>_. \<lparr>dsc_addr = DNull, dsc_len = 0, dsc_flags = 0, dsc_next = 0\<rparr>),
     d_avail_idx = 0, d_avail_ring = (\<lambda>_. 0), d_used_idx_dev = 0, d_used_ring = (\<lambda>_. 0),
     d_free = (\<lambda>_. False), d_used_idx = 0, d_info_b = (\<lambda>_. None), d_info_status = (\<lambda>_. 0),
     d_ops = (\<lambda>_. \<lparr>rq_type = 0, rq_reserved = 0, rq_sector = 0\<rparr>), d_notify = False, d_isr = 0\<rparr>"

definition zero_kst :: kst where
  "zero_kst = \<lparr>hart = 0, sstatus = 0, stvec = 0, sepc = 0, scause = 0, stval = 0, satp = 0, sip = 0,
     plic_claim_reg = [],
     plic_writes = [],
     syms = \<lparr>sym_end = 0x80022000, sym_etext = 0x80008000, sym_trampoline = 0x80007000,
             sym_uservec = 0x80007000, sym_userret = 0x80007090, sym_usertrap = 0x80002000,
             sym_kernelvec = 0x80005000, sym_forkret = 0x80001800, sym_stack0 = 0x80009000\<rparr>,
     cpus = (\<lambda>_. \<lparr>c_proc = None, c_noff = 0, c_intena = False\<rparr>),
     locks = (\<lambda>_. \<lparr>lk_locked = False, lk_name = [], lk_cpu = None\<rparr>),
     slocks = (\<lambda>_. \<lparr>sl_locked = False, sl_name = [], sl_pid = 0\<rparr>),
     procs = (\<lambda>_. zero_proc), initproc = None, nextpid = 1, forkret_first = True,
     mem = (\<lambda>_. 0), freelist = 0, kernel_pagetable = 0, tfs = (\<lambda>_. zero_tf),
     pipes = (\<lambda>_. \<lparr>pi_data = (\<lambda>_. 0), pi_nread = 0, pi_nwrite = 0, pi_readopen = False,
                     pi_writeopen = False\<rparr>),
     ticks = 0, bufs = (\<lambda>_. zero_buf), vdisk = zero_vdisk, drv = (\<lambda>_. 0), blk = ref_blk,
     wtrace = [],
     klog = \<lparr>l_start = 0, l_size = 0, l_outstanding = 0, l_committing = False, l_dev = 0,
             l_lh = \<lparr>lh_n = 0, lh_block = (\<lambda>_. 0)\<rparr>\<rparr>,
     sb = \<lparr>sb_magic = 0, sb_size = 0, sb_nblocks = 0, sb_ninodes = 0, sb_nlog = 0, sb_logstart = 0,
           sb_inodestart = 0, sb_bmapstart = 0\<rparr>,
     inodes = (\<lambda>_. zero_inode), ftable = (\<lambda>_. zero_file),
     devsw = (\<lambda>_. \<lparr>dv_read = None, dv_write = None\<rparr>),
     kcons = \<lparr>cons_buf = (\<lambda>_. 0), cons_r = 0, cons_w = 0, cons_e = 0\<rparr>,
     kuart = \<lparr>tx_buf = (\<lambda>_. 0), tx_w = 0, tx_r = 0, tx_sent = [], rx_fifo = [], tx_idle = []\<rparr>,
     pr_locking = False, panicked = False, future = []\<rparr>"

lemmas zero_defs = zero_kst_def zero_proc_def zero_buf_def zero_inode_def zero_file_def zero_tf_def
  zero_vdisk_def

end
