(* ===== verification/Spinlock.thy ===== *)
theory Spinlock
  imports Kernel_State
begin

text \<open>
  \<open>kernel/spinlock.c\<close>, with the interrupt-enable helpers of \<open>riscv.h\<close> and \<open>cpuid\<close>, \<open>mycpu\<close>
  and \<open>myproc\<close> of \<open>proc.c\<close>. The lemmas give the closed form of a successful \<open>acquire\<close>
  (\<open>acq\<close>) and \<open>release\<close> (\<open>rel\<close>), show that a critical section leaves the interrupt state as
  it found it (\<open>rel_acq\<close>), and carry every other field of the state through both, so that
  the clients of the lock reason about their own fields only (collection \<open>lock_simps\<close>).
  Several CPUs in these functions at once are the subject of the theory \<open>Spinlock_Smp\<close>.
\<close>

named_theorems lock_simps \<open>carrying state through critical sections\<close>

section \<open>Interrupts\<close>

abbreviation (input) SSTATUS_SPP :: u64 where "SSTATUS_SPP \<equiv> 0x100"
abbreviation (input) SSTATUS_SPIE :: u64 where "SSTATUS_SPIE \<equiv> 0x20"
abbreviation (input) SSTATUS_SIE :: u64 where "SSTATUS_SIE \<equiv> 0x2"

definition intr_on :: "kst \<Rightarrow> kst" where
  "intr_on s = s\<lparr>sstatus := sstatus s OR SSTATUS_SIE\<rparr>"

definition intr_off :: "kst \<Rightarrow> kst" where
  "intr_off s = s\<lparr>sstatus := sstatus s AND NOT SSTATUS_SIE\<rparr>"

definition intr_get :: "kst \<Rightarrow> bool" where
  "intr_get s \<longleftrightarrow> sstatus s AND SSTATUS_SIE \<noteq> 0"

definition cpuid :: "kst \<Rightarrow> nat" where
  "cpuid s = hart s"

text \<open>\<open>mycpu()\<close> is a pointer to \<open>cpus[cpuid()]\<close>; reading and writing through it.\<close>

definition mycpu :: "kst \<Rightarrow> cpu" where
  "mycpu s = cpus s (cpuid s)"

definition upd_cpu :: "(cpu \<Rightarrow> cpu) \<Rightarrow> kst \<Rightarrow> kst" where
  "upd_cpu f s = s\<lparr>cpus := (cpus s)(hart s := f (cpus s (hart s)))\<rparr>"

definition push_off :: "kst \<Rightarrow> unit k" where
  "push_off s =
     (let old = intr_get s;
          s = intr_off s;
          s = (if c_noff (mycpu s) = 0 then upd_cpu (\<lambda>c. c\<lparr>c_intena := old\<rparr>) s else s)
      in Ok () (upd_cpu (\<lambda>c. c\<lparr>c_noff := c_noff c + 1\<rparr>) s))"

definition pop_off :: "kst \<Rightarrow> unit k" where
  "pop_off s =
     (if intr_get s then Panic ''pop_off - interruptible''
      else if c_noff (mycpu s) < 1 then Panic ''pop_off''
      else
        let s = upd_cpu (\<lambda>c. c\<lparr>c_noff := c_noff c - 1\<rparr>) s in
        if c_noff (mycpu s) = 0 \<and> c_intena (mycpu s) then Ok () (intr_on s) else Ok () s)"

definition myproc :: "kst \<Rightarrow> nat option k" where
  "myproc s =
     bnd (push_off s) (\<lambda>_ s.
     let p = c_proc (mycpu s) in
     bnd (pop_off s) (\<lambda>_ s. Ok p s))"

section \<open>Spin locks\<close>

definition initlock :: "lockid \<Rightarrow> string \<Rightarrow> kst \<Rightarrow> kst" where
  "initlock lk name s =
     s\<lparr>locks := (locks s)(lk := \<lparr>lk_locked = False, lk_name = name, lk_cpu = None\<rparr>)\<rparr>"

definition holding :: "lockid \<Rightarrow> kst \<Rightarrow> bool" where
  "holding lk s \<longleftrightarrow> lk_locked (locks s lk) \<and> lk_cpu (locks s lk) = Some (cpuid s)"

text \<open>
  The loop around \<open>__sync_lock_test_and_set\<close> ends at once when the word was 0; when another
  CPU holds the lock it spins.
\<close>

definition acquire :: "lockid \<Rightarrow> kst \<Rightarrow> unit k" where
  "acquire lk s =
     bnd (push_off s) (\<lambda>_ s.
     if holding lk s then Panic ''acquire''
     else if lk_locked (locks s lk) then Hang
     else Ok () (s\<lparr>locks := (locks s)(lk := (locks s lk)\<lparr>lk_locked := True,
                                                     lk_cpu := Some (cpuid s)\<rparr>)\<rparr>))"

definition release :: "lockid \<Rightarrow> kst \<Rightarrow> unit k" where
  "release lk s =
     (if \<not> holding lk s then Panic ''release''
      else
        pop_off (s\<lparr>locks := (locks s)(lk := (locks s lk)\<lparr>lk_cpu := None, lk_locked := False\<rparr>)\<rparr>))"

section \<open>Closed forms\<close>

definition acq :: "lockid \<Rightarrow> kst \<Rightarrow> kst" where
  "acq lk s =
     (let c = cpus s (hart s) in
      s\<lparr>sstatus := sstatus s AND NOT SSTATUS_SIE,
        cpus := (cpus s)(hart s := c\<lparr>c_intena := (if c_noff c = 0 then intr_get s else c_intena c),
                                      c_noff := c_noff c + 1\<rparr>),
        locks := (locks s)(lk := (locks s lk)\<lparr>lk_locked := True, lk_cpu := Some (hart s)\<rparr>)\<rparr>)"

definition rel :: "lockid \<Rightarrow> kst \<Rightarrow> kst" where
  "rel lk s =
     (let c = cpus s (hart s) in
      s\<lparr>locks := (locks s)(lk := (locks s lk)\<lparr>lk_cpu := None, lk_locked := False\<rparr>),
        cpus := (cpus s)(hart s := c\<lparr>c_noff := c_noff c - 1\<rparr>),
        sstatus := (if c_noff c = 1 \<and> c_intena c then sstatus s OR SSTATUS_SIE else sstatus s)\<rparr>)"

definition settle :: "kst \<Rightarrow> kst" where
  "settle s =
     (if c_noff (cpus s (hart s)) = 0
      then s\<lparr>cpus := (cpus s)(hart s := (cpus s (hart s))\<lparr>c_intena := intr_get s\<rparr>)\<rparr> else s)"

definition free_lock :: "lockid \<Rightarrow> kst \<Rightarrow> bool" where
  "free_lock lk s \<longleftrightarrow> \<not> lk_locked (locks s lk) \<and> lk_cpu (locks s lk) = None"

text \<open>The CPU is inside a critical section of the lock, with interrupts off.\<close>

definition ready :: "lockid \<Rightarrow> kst \<Rightarrow> bool" where
  "ready lk s \<longleftrightarrow> holding lk s \<and> \<not> intr_get s \<and> 1 \<le> c_noff (cpus s (hart s))"

definition cpu_ok :: "kst \<Rightarrow> bool" where
  "cpu_ok s \<longleftrightarrow> (c_noff (cpus s (hart s)) > 0 \<longrightarrow> \<not> intr_get s)"

lemma sie_off [word_simps]: "(x AND - 3) AND 2 = (0 :: u64)"
  by (simp add: and.assoc)

lemma minus_three: "- 3 = NOT (2 :: u64)"
  by simp

lemma sie_bit: "x AND 2 = 0 \<longleftrightarrow> \<not> bit (x :: u64) 1"
  by (metis and_exp_eq_0_iff_not_bit power_one_right)

lemma sie_on_off [word_simps]: "x AND 2 \<noteq> 0 \<Longrightarrow> (x AND - 3) OR 2 = (x :: u64)"
  unfolding sie_bit minus_three by (intro bit_eqI) (auto simp: bit_simps bit_2_iff)

lemma sie_still_off [word_simps]: "x AND 2 = 0 \<Longrightarrow> x AND - 3 = (x :: u64)"
  unfolding sie_bit minus_three by (intro bit_eqI) (auto simp: bit_simps bit_2_iff)

lemma acquire_free [lock_simps]:
  "\<not> lk_locked (locks s lk) \<Longrightarrow> acquire lk s = Ok () (acq lk s)"
  by (simp add: acquire_def push_off_def acq_def holding_def mycpu_def cpuid_def upd_cpu_def
      intr_off_def Let_def)

lemma release_ready [lock_simps]: "ready lk s \<Longrightarrow> release lk s = Ok () (rel lk s)"
  by (auto simp: release_def pop_off_def rel_def ready_def mycpu_def cpuid_def upd_cpu_def
      intr_on_def intr_get_def holding_def Let_def)

lemma acquire_held: "holding lk s \<Longrightarrow> acquire lk s = Panic ''acquire''"
  by (simp add: acquire_def push_off_def holding_def mycpu_def cpuid_def upd_cpu_def
      intr_off_def Let_def)

lemma acquire_other_cpu:
  "lk_locked (locks s lk) \<Longrightarrow> lk_cpu (locks s lk) \<noteq> Some (hart s) \<Longrightarrow> acquire lk s = Hang"
  by (simp add: acquire_def push_off_def holding_def mycpu_def cpuid_def upd_cpu_def
      intr_off_def Let_def)

lemma release_not_held: "\<not> holding lk s \<Longrightarrow> release lk s = Panic ''release''"
  by (simp add: release_def)

lemma ready_acq [lock_simps]: "ready lk (acq lk s)"
  by (simp add: ready_def acq_def holding_def cpuid_def intr_get_def word_simps Let_def)

lemma ready_rel_other [lock_simps]:
  "ready lk s \<Longrightarrow> lk \<noteq> lk' \<Longrightarrow> 2 \<le> c_noff (cpus s (hart s)) \<Longrightarrow> ready lk (rel lk' s)"
  by (auto simp: ready_def rel_def holding_def cpuid_def intr_get_def Let_def)

lemma ready_acq_other [lock_simps]: "ready lk s \<Longrightarrow> lk \<noteq> lk' \<Longrightarrow> ready lk (acq lk' s)"
  by (simp add: ready_def acq_def holding_def cpuid_def intr_get_def word_simps Let_def)

lemma free_lock_not_locked [lock_simps]: "free_lock lk s \<Longrightarrow> \<not> lk_locked (locks s lk)"
  by (simp add: free_lock_def)

lemma free_lock_acq_other [lock_simps]: "lk \<noteq> lk' \<Longrightarrow> free_lock lk (acq lk' s) = free_lock lk s"
  by (simp add: free_lock_def acq_def Let_def)

lemma free_lock_rel [lock_simps]:
  "free_lock lk (rel lk' s) \<longleftrightarrow> lk = lk' \<or> free_lock lk s"
  by (auto simp: free_lock_def rel_def Let_def)

lemma free_lock_settle [lock_simps]: "free_lock lk (settle s) = free_lock lk s"
  by (simp add: free_lock_def settle_def)

lemma locks_settle [lock_simps]: "locks (settle s) = locks s" "hart (settle s) = hart s"
  "sstatus (settle s) = sstatus s" "intr_get (settle s) = intr_get s"
  "cpu_ok (settle s) = cpu_ok s" "ready lk (settle s) = ready lk s"
  "c_noff (cpus (settle s) h) = c_noff (cpus s h)" "c_proc (cpus (settle s) h) = c_proc (cpus s h)"
  by (simp_all add: settle_def cpu_ok_def ready_def holding_def cpuid_def intr_get_def)

lemma settle_settle [lock_simps]: "settle (settle s) = settle s"
  by (simp add: settle_def intr_get_def)

lemma hart_acq [lock_simps]: "hart (acq lk s) = hart s" "hart (rel lk s) = hart s"
  by (simp_all add: acq_def rel_def Let_def)

lemma noff_acq [lock_simps]:
  "c_noff (cpus (acq lk s) (hart s)) = c_noff (cpus s (hart s)) + 1"
  "c_noff (cpus (rel lk s) (hart s)) = c_noff (cpus s (hart s)) - 1"
  "c_proc (cpus (acq lk s) h) = c_proc (cpus s h)"
  "c_proc (cpus (rel lk s) h) = c_proc (cpus s h)"
  by (simp_all add: acq_def rel_def Let_def)

lemma cpu_noff_same [lock_simps]:
  "c_noff c = n \<Longrightarrow> c\<lparr>c_intena := b, c_noff := n\<rparr> = c\<lparr>c_intena := b\<rparr>"
  "c_noff c = n \<Longrightarrow> c\<lparr>c_noff := n\<rparr> = c"
  "c_intena c = b \<Longrightarrow> c\<lparr>c_intena := b\<rparr> = c"
  by (cases c; simp)+

lemma noff_cases:
  "cpu_ok s \<Longrightarrow> c_noff (cpus s (hart s)) = 0 \<and> sstatus s AND 2 \<noteq> 0 \<or> sstatus s AND 2 = 0"
  by (auto simp: cpu_ok_def intr_get_def)

lemma rel_acq [lock_simps]:
  assumes "free_lock lk s" and "cpu_ok s"
  shows "rel lk (acq lk s) = settle s"
proof -
  have lk: "(locks s lk)\<lparr>lk_cpu := None, lk_locked := False\<rparr> = locks s lk"
    using assms(1) by (simp add: free_lock_def)
  from noff_cases[OF assms(2)] show ?thesis
  proof
    assume "c_noff (cpus s (hart s)) = 0 \<and> sstatus s AND 2 \<noteq> 0"
    then show ?thesis
      by (simp add: rel_def acq_def settle_def intr_get_def word_simps lock_simps Let_def lk)
  next
    assume "sstatus s AND 2 = 0"
    then show ?thesis
      by (simp add: rel_def acq_def settle_def intr_get_def word_simps lock_simps Let_def lk)
  qed
qed

lemma cpu_ok_acq [lock_simps]: "cpu_ok (acq lk s)"
  by (simp add: cpu_ok_def acq_def intr_get_def word_simps Let_def)

lemma myproc_eq [lock_simps]:
  assumes "cpu_ok s"
  shows "myproc s = Ok (c_proc (cpus s (hart s))) (settle s)"
  using noff_cases[OF assms]
  by (auto simp: myproc_def push_off_def pop_off_def settle_def mycpu_def cpuid_def upd_cpu_def
      intr_off_def intr_on_def intr_get_def word_simps lock_simps Let_def)

text \<open>Inversion: what is known of the state after each operation has returned.\<close>

lemma acquire_OkD: "acquire lk s = Ok u t \<Longrightarrow> t = acq lk s \<and> \<not> lk_locked (locks s lk)"
  by (auto simp: acquire_def push_off_def acq_def holding_def mycpu_def cpuid_def upd_cpu_def
      intr_off_def Let_def split: if_splits)

lemma release_OkD: "release lk s = Ok u t \<Longrightarrow> t = rel lk s \<and> ready lk s"
  by (auto simp: release_def pop_off_def rel_def ready_def mycpu_def cpuid_def upd_cpu_def
      intr_on_def intr_get_def holding_def Let_def split: if_splits)

lemma cpus_sstatus_comm: "(s :: kst)\<lparr>cpus := c, sstatus := w\<rparr> = s\<lparr>sstatus := w, cpus := c\<rparr>"
  by simp

text \<open>\<open>myproc\<close> always returns; the state it leaves differs in the interrupt bookkeeping only.\<close>

definition peek :: "kst \<Rightarrow> kst" where
  "peek s = (case myproc s of Ok p t \<Rightarrow> t | _ \<Rightarrow> s)"

lemma myproc_peek: "myproc s = Ok (c_proc (cpus s (hart s))) (peek s)"
  by (simp add: peek_def myproc_def push_off_def pop_off_def mycpu_def cpuid_def upd_cpu_def
      intr_off_def intr_on_def intr_get_def word_simps Let_def)

lemma peek_eq: "peek s = s\<lparr>sstatus := sstatus (peek s), cpus := cpus (peek s)\<rparr>"
  by (simp add: peek_def myproc_def push_off_def pop_off_def mycpu_def cpuid_def upd_cpu_def
      intr_off_def intr_on_def intr_get_def word_simps Let_def cpus_sstatus_comm)

lemma peek_cpus [lock_simps]: "c_proc (cpus (peek s) h) = c_proc (cpus s h)"
  by (simp add: peek_def myproc_def push_off_def pop_off_def mycpu_def cpuid_def upd_cpu_def
      intr_off_def intr_on_def intr_get_def word_simps Let_def)

lemma peek_settle [lock_simps]: "cpu_ok s \<Longrightarrow> peek s = settle s"
  by (simp add: peek_def myproc_eq)

lemma peek_select [lock_simps]:
  "hart (peek s) = hart s"
  "locks (peek s) = locks s"
  "stvec (peek s) = stvec s"
  "sepc (peek s) = sepc s"
  "scause (peek s) = scause s"
  "stval (peek s) = stval s"
  "satp (peek s) = satp s"
  "sip (peek s) = sip s"
  "plic_claim_reg (peek s) = plic_claim_reg s"
  "plic_writes (peek s) = plic_writes s"
  "syms (peek s) = syms s"
  "slocks (peek s) = slocks s"
  "procs (peek s) = procs s"
  "initproc (peek s) = initproc s"
  "nextpid (peek s) = nextpid s"
  "forkret_first (peek s) = forkret_first s"
  "mem (peek s) = mem s"
  "freelist (peek s) = freelist s"
  "kernel_pagetable (peek s) = kernel_pagetable s"
  "tfs (peek s) = tfs s"
  "pipes (peek s) = pipes s"
  "ticks (peek s) = ticks s"
  "bufs (peek s) = bufs s"
  "vdisk (peek s) = vdisk s"
  "drv (peek s) = drv s"
  "blk (peek s) = blk s"
  "wtrace (peek s) = wtrace s"
  "klog (peek s) = klog s"
  "sb (peek s) = sb s"
  "inodes (peek s) = inodes s"
  "ftable (peek s) = ftable s"
  "devsw (peek s) = devsw s"
  "kcons (peek s) = kcons s"
  "kuart (peek s) = kuart s"
  "pr_locking (peek s) = pr_locking s"
  "panicked (peek s) = panicked s"
  "future (peek s) = future s"
  by (subst peek_eq; simp)+

lemmas lock_OkD = acquire_OkD release_OkD

lemma zero_kst_ready [simp]: "free_lock l zero_kst" "cpu_ok zero_kst" "settle zero_kst = zero_kst"
  "hart zero_kst = 0" "syms zero_kst = \<lparr>sym_end = 0x80022000, sym_etext = 0x80008000,
     sym_trampoline = 0x80007000, sym_uservec = 0x80007000, sym_userret = 0x80007090,
     sym_usertrap = 0x80002000, sym_kernelvec = 0x80005000, sym_forkret = 0x80001800, sym_stack0 = 0x80009000\<rparr>"
  by (simp_all add: zero_kst_def free_lock_def cpu_ok_def settle_def intr_get_def fun_upd_idem)

section \<open>Fields that a critical section does not touch\<close>

lemma acq_select [lock_simps]:
  "stvec (acq l s) = stvec s"
  "sepc (acq l s) = sepc s"
  "scause (acq l s) = scause s"
  "stval (acq l s) = stval s"
  "satp (acq l s) = satp s"
  "sip (acq l s) = sip s"
  "plic_claim_reg (acq l s) = plic_claim_reg s"
  "plic_writes (acq l s) = plic_writes s"
  "syms (acq l s) = syms s"
  "slocks (acq l s) = slocks s"
  "procs (acq l s) = procs s"
  "initproc (acq l s) = initproc s"
  "nextpid (acq l s) = nextpid s"
  "forkret_first (acq l s) = forkret_first s"
  "mem (acq l s) = mem s"
  "freelist (acq l s) = freelist s"
  "kernel_pagetable (acq l s) = kernel_pagetable s"
  "tfs (acq l s) = tfs s"
  "pipes (acq l s) = pipes s"
  "ticks (acq l s) = ticks s"
  "bufs (acq l s) = bufs s"
  "vdisk (acq l s) = vdisk s"
  "drv (acq l s) = drv s"
  "blk (acq l s) = blk s"
  "wtrace (acq l s) = wtrace s"
  "klog (acq l s) = klog s"
  "sb (acq l s) = sb s"
  "inodes (acq l s) = inodes s"
  "ftable (acq l s) = ftable s"
  "devsw (acq l s) = devsw s"
  "kcons (acq l s) = kcons s"
  "kuart (acq l s) = kuart s"
  "pr_locking (acq l s) = pr_locking s"
  "panicked (acq l s) = panicked s"
  "future (acq l s) = future s"
  by (simp_all add: acq_def rel_def settle_def intr_get_def intr_on_def intr_off_def upd_cpu_def Let_def)

lemma rel_select [lock_simps]:
  "stvec (rel l s) = stvec s"
  "sepc (rel l s) = sepc s"
  "scause (rel l s) = scause s"
  "stval (rel l s) = stval s"
  "satp (rel l s) = satp s"
  "sip (rel l s) = sip s"
  "plic_claim_reg (rel l s) = plic_claim_reg s"
  "plic_writes (rel l s) = plic_writes s"
  "syms (rel l s) = syms s"
  "slocks (rel l s) = slocks s"
  "procs (rel l s) = procs s"
  "initproc (rel l s) = initproc s"
  "nextpid (rel l s) = nextpid s"
  "forkret_first (rel l s) = forkret_first s"
  "mem (rel l s) = mem s"
  "freelist (rel l s) = freelist s"
  "kernel_pagetable (rel l s) = kernel_pagetable s"
  "tfs (rel l s) = tfs s"
  "pipes (rel l s) = pipes s"
  "ticks (rel l s) = ticks s"
  "bufs (rel l s) = bufs s"
  "vdisk (rel l s) = vdisk s"
  "drv (rel l s) = drv s"
  "blk (rel l s) = blk s"
  "wtrace (rel l s) = wtrace s"
  "klog (rel l s) = klog s"
  "sb (rel l s) = sb s"
  "inodes (rel l s) = inodes s"
  "ftable (rel l s) = ftable s"
  "devsw (rel l s) = devsw s"
  "kcons (rel l s) = kcons s"
  "kuart (rel l s) = kuart s"
  "pr_locking (rel l s) = pr_locking s"
  "panicked (rel l s) = panicked s"
  "future (rel l s) = future s"
  by (simp_all add: acq_def rel_def settle_def intr_get_def intr_on_def intr_off_def upd_cpu_def Let_def)

lemma settle_select [lock_simps]:
  "stvec (settle s) = stvec s"
  "sepc (settle s) = sepc s"
  "scause (settle s) = scause s"
  "stval (settle s) = stval s"
  "satp (settle s) = satp s"
  "sip (settle s) = sip s"
  "plic_claim_reg (settle s) = plic_claim_reg s"
  "plic_writes (settle s) = plic_writes s"
  "syms (settle s) = syms s"
  "slocks (settle s) = slocks s"
  "procs (settle s) = procs s"
  "initproc (settle s) = initproc s"
  "nextpid (settle s) = nextpid s"
  "forkret_first (settle s) = forkret_first s"
  "mem (settle s) = mem s"
  "freelist (settle s) = freelist s"
  "kernel_pagetable (settle s) = kernel_pagetable s"
  "tfs (settle s) = tfs s"
  "pipes (settle s) = pipes s"
  "ticks (settle s) = ticks s"
  "bufs (settle s) = bufs s"
  "vdisk (settle s) = vdisk s"
  "drv (settle s) = drv s"
  "blk (settle s) = blk s"
  "wtrace (settle s) = wtrace s"
  "klog (settle s) = klog s"
  "sb (settle s) = sb s"
  "inodes (settle s) = inodes s"
  "ftable (settle s) = ftable s"
  "devsw (settle s) = devsw s"
  "kcons (settle s) = kcons s"
  "kuart (settle s) = kuart s"
  "pr_locking (settle s) = pr_locking s"
  "panicked (settle s) = panicked s"
  "future (settle s) = future s"
  by (simp_all add: acq_def rel_def settle_def intr_get_def intr_on_def intr_off_def upd_cpu_def Let_def)

lemma acq_update [lock_simps]:
  "acq l (s\<lparr>stvec := x_stvec\<rparr>) = (acq l s)\<lparr>stvec := x_stvec\<rparr>"
  "acq l (s\<lparr>sepc := x_sepc\<rparr>) = (acq l s)\<lparr>sepc := x_sepc\<rparr>"
  "acq l (s\<lparr>scause := x_scause\<rparr>) = (acq l s)\<lparr>scause := x_scause\<rparr>"
  "acq l (s\<lparr>stval := x_stval\<rparr>) = (acq l s)\<lparr>stval := x_stval\<rparr>"
  "acq l (s\<lparr>satp := x_satp\<rparr>) = (acq l s)\<lparr>satp := x_satp\<rparr>"
  "acq l (s\<lparr>sip := x_sip\<rparr>) = (acq l s)\<lparr>sip := x_sip\<rparr>"
  "acq l (s\<lparr>plic_claim_reg := x_plic_claim_reg\<rparr>) = (acq l s)\<lparr>plic_claim_reg := x_plic_claim_reg\<rparr>"
  "acq l (s\<lparr>plic_writes := x_plic_writes\<rparr>) = (acq l s)\<lparr>plic_writes := x_plic_writes\<rparr>"
  "acq l (s\<lparr>syms := x_syms\<rparr>) = (acq l s)\<lparr>syms := x_syms\<rparr>"
  "acq l (s\<lparr>slocks := x_slocks\<rparr>) = (acq l s)\<lparr>slocks := x_slocks\<rparr>"
  "acq l (s\<lparr>procs := x_procs\<rparr>) = (acq l s)\<lparr>procs := x_procs\<rparr>"
  "acq l (s\<lparr>initproc := x_initproc\<rparr>) = (acq l s)\<lparr>initproc := x_initproc\<rparr>"
  "acq l (s\<lparr>nextpid := x_nextpid\<rparr>) = (acq l s)\<lparr>nextpid := x_nextpid\<rparr>"
  "acq l (s\<lparr>forkret_first := x_forkret_first\<rparr>) = (acq l s)\<lparr>forkret_first := x_forkret_first\<rparr>"
  "acq l (s\<lparr>mem := x_mem\<rparr>) = (acq l s)\<lparr>mem := x_mem\<rparr>"
  "acq l (s\<lparr>freelist := x_freelist\<rparr>) = (acq l s)\<lparr>freelist := x_freelist\<rparr>"
  "acq l (s\<lparr>kernel_pagetable := x_kernel_pagetable\<rparr>) = (acq l s)\<lparr>kernel_pagetable := x_kernel_pagetable\<rparr>"
  "acq l (s\<lparr>tfs := x_tfs\<rparr>) = (acq l s)\<lparr>tfs := x_tfs\<rparr>"
  "acq l (s\<lparr>pipes := x_pipes\<rparr>) = (acq l s)\<lparr>pipes := x_pipes\<rparr>"
  "acq l (s\<lparr>ticks := x_ticks\<rparr>) = (acq l s)\<lparr>ticks := x_ticks\<rparr>"
  "acq l (s\<lparr>bufs := x_bufs\<rparr>) = (acq l s)\<lparr>bufs := x_bufs\<rparr>"
  "acq l (s\<lparr>vdisk := x_vdisk\<rparr>) = (acq l s)\<lparr>vdisk := x_vdisk\<rparr>"
  "acq l (s\<lparr>drv := x_drv\<rparr>) = (acq l s)\<lparr>drv := x_drv\<rparr>"
  "acq l (s\<lparr>blk := x_blk\<rparr>) = (acq l s)\<lparr>blk := x_blk\<rparr>"
  "acq l (s\<lparr>wtrace := x_wtrace\<rparr>) = (acq l s)\<lparr>wtrace := x_wtrace\<rparr>"
  "acq l (s\<lparr>klog := x_klog\<rparr>) = (acq l s)\<lparr>klog := x_klog\<rparr>"
  "acq l (s\<lparr>sb := x_sb\<rparr>) = (acq l s)\<lparr>sb := x_sb\<rparr>"
  "acq l (s\<lparr>inodes := x_inodes\<rparr>) = (acq l s)\<lparr>inodes := x_inodes\<rparr>"
  "acq l (s\<lparr>ftable := x_ftable\<rparr>) = (acq l s)\<lparr>ftable := x_ftable\<rparr>"
  "acq l (s\<lparr>devsw := x_devsw\<rparr>) = (acq l s)\<lparr>devsw := x_devsw\<rparr>"
  "acq l (s\<lparr>kcons := x_kcons\<rparr>) = (acq l s)\<lparr>kcons := x_kcons\<rparr>"
  "acq l (s\<lparr>kuart := x_kuart\<rparr>) = (acq l s)\<lparr>kuart := x_kuart\<rparr>"
  "acq l (s\<lparr>pr_locking := x_pr_locking\<rparr>) = (acq l s)\<lparr>pr_locking := x_pr_locking\<rparr>"
  "acq l (s\<lparr>panicked := x_panicked\<rparr>) = (acq l s)\<lparr>panicked := x_panicked\<rparr>"
  "acq l (s\<lparr>future := x_future\<rparr>) = (acq l s)\<lparr>future := x_future\<rparr>"
  by (simp_all add: acq_def rel_def settle_def intr_get_def intr_on_def intr_off_def upd_cpu_def Let_def)

lemma rel_update [lock_simps]:
  "rel l (s\<lparr>stvec := x_stvec\<rparr>) = (rel l s)\<lparr>stvec := x_stvec\<rparr>"
  "rel l (s\<lparr>sepc := x_sepc\<rparr>) = (rel l s)\<lparr>sepc := x_sepc\<rparr>"
  "rel l (s\<lparr>scause := x_scause\<rparr>) = (rel l s)\<lparr>scause := x_scause\<rparr>"
  "rel l (s\<lparr>stval := x_stval\<rparr>) = (rel l s)\<lparr>stval := x_stval\<rparr>"
  "rel l (s\<lparr>satp := x_satp\<rparr>) = (rel l s)\<lparr>satp := x_satp\<rparr>"
  "rel l (s\<lparr>sip := x_sip\<rparr>) = (rel l s)\<lparr>sip := x_sip\<rparr>"
  "rel l (s\<lparr>plic_claim_reg := x_plic_claim_reg\<rparr>) = (rel l s)\<lparr>plic_claim_reg := x_plic_claim_reg\<rparr>"
  "rel l (s\<lparr>plic_writes := x_plic_writes\<rparr>) = (rel l s)\<lparr>plic_writes := x_plic_writes\<rparr>"
  "rel l (s\<lparr>syms := x_syms\<rparr>) = (rel l s)\<lparr>syms := x_syms\<rparr>"
  "rel l (s\<lparr>slocks := x_slocks\<rparr>) = (rel l s)\<lparr>slocks := x_slocks\<rparr>"
  "rel l (s\<lparr>procs := x_procs\<rparr>) = (rel l s)\<lparr>procs := x_procs\<rparr>"
  "rel l (s\<lparr>initproc := x_initproc\<rparr>) = (rel l s)\<lparr>initproc := x_initproc\<rparr>"
  "rel l (s\<lparr>nextpid := x_nextpid\<rparr>) = (rel l s)\<lparr>nextpid := x_nextpid\<rparr>"
  "rel l (s\<lparr>forkret_first := x_forkret_first\<rparr>) = (rel l s)\<lparr>forkret_first := x_forkret_first\<rparr>"
  "rel l (s\<lparr>mem := x_mem\<rparr>) = (rel l s)\<lparr>mem := x_mem\<rparr>"
  "rel l (s\<lparr>freelist := x_freelist\<rparr>) = (rel l s)\<lparr>freelist := x_freelist\<rparr>"
  "rel l (s\<lparr>kernel_pagetable := x_kernel_pagetable\<rparr>) = (rel l s)\<lparr>kernel_pagetable := x_kernel_pagetable\<rparr>"
  "rel l (s\<lparr>tfs := x_tfs\<rparr>) = (rel l s)\<lparr>tfs := x_tfs\<rparr>"
  "rel l (s\<lparr>pipes := x_pipes\<rparr>) = (rel l s)\<lparr>pipes := x_pipes\<rparr>"
  "rel l (s\<lparr>ticks := x_ticks\<rparr>) = (rel l s)\<lparr>ticks := x_ticks\<rparr>"
  "rel l (s\<lparr>bufs := x_bufs\<rparr>) = (rel l s)\<lparr>bufs := x_bufs\<rparr>"
  "rel l (s\<lparr>vdisk := x_vdisk\<rparr>) = (rel l s)\<lparr>vdisk := x_vdisk\<rparr>"
  "rel l (s\<lparr>drv := x_drv\<rparr>) = (rel l s)\<lparr>drv := x_drv\<rparr>"
  "rel l (s\<lparr>blk := x_blk\<rparr>) = (rel l s)\<lparr>blk := x_blk\<rparr>"
  "rel l (s\<lparr>wtrace := x_wtrace\<rparr>) = (rel l s)\<lparr>wtrace := x_wtrace\<rparr>"
  "rel l (s\<lparr>klog := x_klog\<rparr>) = (rel l s)\<lparr>klog := x_klog\<rparr>"
  "rel l (s\<lparr>sb := x_sb\<rparr>) = (rel l s)\<lparr>sb := x_sb\<rparr>"
  "rel l (s\<lparr>inodes := x_inodes\<rparr>) = (rel l s)\<lparr>inodes := x_inodes\<rparr>"
  "rel l (s\<lparr>ftable := x_ftable\<rparr>) = (rel l s)\<lparr>ftable := x_ftable\<rparr>"
  "rel l (s\<lparr>devsw := x_devsw\<rparr>) = (rel l s)\<lparr>devsw := x_devsw\<rparr>"
  "rel l (s\<lparr>kcons := x_kcons\<rparr>) = (rel l s)\<lparr>kcons := x_kcons\<rparr>"
  "rel l (s\<lparr>kuart := x_kuart\<rparr>) = (rel l s)\<lparr>kuart := x_kuart\<rparr>"
  "rel l (s\<lparr>pr_locking := x_pr_locking\<rparr>) = (rel l s)\<lparr>pr_locking := x_pr_locking\<rparr>"
  "rel l (s\<lparr>panicked := x_panicked\<rparr>) = (rel l s)\<lparr>panicked := x_panicked\<rparr>"
  "rel l (s\<lparr>future := x_future\<rparr>) = (rel l s)\<lparr>future := x_future\<rparr>"
  by (simp_all add: acq_def rel_def settle_def intr_get_def intr_on_def intr_off_def upd_cpu_def Let_def)

lemma settle_update [lock_simps]:
  "settle (s\<lparr>stvec := x_stvec\<rparr>) = (settle s)\<lparr>stvec := x_stvec\<rparr>"
  "settle (s\<lparr>sepc := x_sepc\<rparr>) = (settle s)\<lparr>sepc := x_sepc\<rparr>"
  "settle (s\<lparr>scause := x_scause\<rparr>) = (settle s)\<lparr>scause := x_scause\<rparr>"
  "settle (s\<lparr>stval := x_stval\<rparr>) = (settle s)\<lparr>stval := x_stval\<rparr>"
  "settle (s\<lparr>satp := x_satp\<rparr>) = (settle s)\<lparr>satp := x_satp\<rparr>"
  "settle (s\<lparr>sip := x_sip\<rparr>) = (settle s)\<lparr>sip := x_sip\<rparr>"
  "settle (s\<lparr>plic_claim_reg := x_plic_claim_reg\<rparr>) = (settle s)\<lparr>plic_claim_reg := x_plic_claim_reg\<rparr>"
  "settle (s\<lparr>plic_writes := x_plic_writes\<rparr>) = (settle s)\<lparr>plic_writes := x_plic_writes\<rparr>"
  "settle (s\<lparr>syms := x_syms\<rparr>) = (settle s)\<lparr>syms := x_syms\<rparr>"
  "settle (s\<lparr>slocks := x_slocks\<rparr>) = (settle s)\<lparr>slocks := x_slocks\<rparr>"
  "settle (s\<lparr>procs := x_procs\<rparr>) = (settle s)\<lparr>procs := x_procs\<rparr>"
  "settle (s\<lparr>initproc := x_initproc\<rparr>) = (settle s)\<lparr>initproc := x_initproc\<rparr>"
  "settle (s\<lparr>nextpid := x_nextpid\<rparr>) = (settle s)\<lparr>nextpid := x_nextpid\<rparr>"
  "settle (s\<lparr>forkret_first := x_forkret_first\<rparr>) = (settle s)\<lparr>forkret_first := x_forkret_first\<rparr>"
  "settle (s\<lparr>mem := x_mem\<rparr>) = (settle s)\<lparr>mem := x_mem\<rparr>"
  "settle (s\<lparr>freelist := x_freelist\<rparr>) = (settle s)\<lparr>freelist := x_freelist\<rparr>"
  "settle (s\<lparr>kernel_pagetable := x_kernel_pagetable\<rparr>) = (settle s)\<lparr>kernel_pagetable := x_kernel_pagetable\<rparr>"
  "settle (s\<lparr>tfs := x_tfs\<rparr>) = (settle s)\<lparr>tfs := x_tfs\<rparr>"
  "settle (s\<lparr>pipes := x_pipes\<rparr>) = (settle s)\<lparr>pipes := x_pipes\<rparr>"
  "settle (s\<lparr>ticks := x_ticks\<rparr>) = (settle s)\<lparr>ticks := x_ticks\<rparr>"
  "settle (s\<lparr>bufs := x_bufs\<rparr>) = (settle s)\<lparr>bufs := x_bufs\<rparr>"
  "settle (s\<lparr>vdisk := x_vdisk\<rparr>) = (settle s)\<lparr>vdisk := x_vdisk\<rparr>"
  "settle (s\<lparr>drv := x_drv\<rparr>) = (settle s)\<lparr>drv := x_drv\<rparr>"
  "settle (s\<lparr>blk := x_blk\<rparr>) = (settle s)\<lparr>blk := x_blk\<rparr>"
  "settle (s\<lparr>wtrace := x_wtrace\<rparr>) = (settle s)\<lparr>wtrace := x_wtrace\<rparr>"
  "settle (s\<lparr>klog := x_klog\<rparr>) = (settle s)\<lparr>klog := x_klog\<rparr>"
  "settle (s\<lparr>sb := x_sb\<rparr>) = (settle s)\<lparr>sb := x_sb\<rparr>"
  "settle (s\<lparr>inodes := x_inodes\<rparr>) = (settle s)\<lparr>inodes := x_inodes\<rparr>"
  "settle (s\<lparr>ftable := x_ftable\<rparr>) = (settle s)\<lparr>ftable := x_ftable\<rparr>"
  "settle (s\<lparr>devsw := x_devsw\<rparr>) = (settle s)\<lparr>devsw := x_devsw\<rparr>"
  "settle (s\<lparr>kcons := x_kcons\<rparr>) = (settle s)\<lparr>kcons := x_kcons\<rparr>"
  "settle (s\<lparr>kuart := x_kuart\<rparr>) = (settle s)\<lparr>kuart := x_kuart\<rparr>"
  "settle (s\<lparr>pr_locking := x_pr_locking\<rparr>) = (settle s)\<lparr>pr_locking := x_pr_locking\<rparr>"
  "settle (s\<lparr>panicked := x_panicked\<rparr>) = (settle s)\<lparr>panicked := x_panicked\<rparr>"
  "settle (s\<lparr>future := x_future\<rparr>) = (settle s)\<lparr>future := x_future\<rparr>"
  by (simp_all add: acq_def rel_def settle_def intr_get_def intr_on_def intr_off_def upd_cpu_def Let_def)

lemma free_lock_update [lock_simps]:
  "free_lock l (s\<lparr>stvec := x_stvec\<rparr>) = free_lock l s"
  "free_lock l (s\<lparr>sepc := x_sepc\<rparr>) = free_lock l s"
  "free_lock l (s\<lparr>scause := x_scause\<rparr>) = free_lock l s"
  "free_lock l (s\<lparr>stval := x_stval\<rparr>) = free_lock l s"
  "free_lock l (s\<lparr>satp := x_satp\<rparr>) = free_lock l s"
  "free_lock l (s\<lparr>sip := x_sip\<rparr>) = free_lock l s"
  "free_lock l (s\<lparr>plic_claim_reg := x_plic_claim_reg\<rparr>) = free_lock l s"
  "free_lock l (s\<lparr>plic_writes := x_plic_writes\<rparr>) = free_lock l s"
  "free_lock l (s\<lparr>syms := x_syms\<rparr>) = free_lock l s"
  "free_lock l (s\<lparr>slocks := x_slocks\<rparr>) = free_lock l s"
  "free_lock l (s\<lparr>procs := x_procs\<rparr>) = free_lock l s"
  "free_lock l (s\<lparr>initproc := x_initproc\<rparr>) = free_lock l s"
  "free_lock l (s\<lparr>nextpid := x_nextpid\<rparr>) = free_lock l s"
  "free_lock l (s\<lparr>forkret_first := x_forkret_first\<rparr>) = free_lock l s"
  "free_lock l (s\<lparr>mem := x_mem\<rparr>) = free_lock l s"
  "free_lock l (s\<lparr>freelist := x_freelist\<rparr>) = free_lock l s"
  "free_lock l (s\<lparr>kernel_pagetable := x_kernel_pagetable\<rparr>) = free_lock l s"
  "free_lock l (s\<lparr>tfs := x_tfs\<rparr>) = free_lock l s"
  "free_lock l (s\<lparr>pipes := x_pipes\<rparr>) = free_lock l s"
  "free_lock l (s\<lparr>ticks := x_ticks\<rparr>) = free_lock l s"
  "free_lock l (s\<lparr>bufs := x_bufs\<rparr>) = free_lock l s"
  "free_lock l (s\<lparr>vdisk := x_vdisk\<rparr>) = free_lock l s"
  "free_lock l (s\<lparr>drv := x_drv\<rparr>) = free_lock l s"
  "free_lock l (s\<lparr>blk := x_blk\<rparr>) = free_lock l s"
  "free_lock l (s\<lparr>wtrace := x_wtrace\<rparr>) = free_lock l s"
  "free_lock l (s\<lparr>klog := x_klog\<rparr>) = free_lock l s"
  "free_lock l (s\<lparr>sb := x_sb\<rparr>) = free_lock l s"
  "free_lock l (s\<lparr>inodes := x_inodes\<rparr>) = free_lock l s"
  "free_lock l (s\<lparr>ftable := x_ftable\<rparr>) = free_lock l s"
  "free_lock l (s\<lparr>devsw := x_devsw\<rparr>) = free_lock l s"
  "free_lock l (s\<lparr>kcons := x_kcons\<rparr>) = free_lock l s"
  "free_lock l (s\<lparr>kuart := x_kuart\<rparr>) = free_lock l s"
  "free_lock l (s\<lparr>pr_locking := x_pr_locking\<rparr>) = free_lock l s"
  "free_lock l (s\<lparr>panicked := x_panicked\<rparr>) = free_lock l s"
  "free_lock l (s\<lparr>future := x_future\<rparr>) = free_lock l s"
  by (simp_all add: free_lock_def ready_def cpu_ok_def holding_def cpuid_def intr_get_def)

lemma ready_update [lock_simps]:
  "ready l (s\<lparr>stvec := x_stvec\<rparr>) = ready l s"
  "ready l (s\<lparr>sepc := x_sepc\<rparr>) = ready l s"
  "ready l (s\<lparr>scause := x_scause\<rparr>) = ready l s"
  "ready l (s\<lparr>stval := x_stval\<rparr>) = ready l s"
  "ready l (s\<lparr>satp := x_satp\<rparr>) = ready l s"
  "ready l (s\<lparr>sip := x_sip\<rparr>) = ready l s"
  "ready l (s\<lparr>plic_claim_reg := x_plic_claim_reg\<rparr>) = ready l s"
  "ready l (s\<lparr>plic_writes := x_plic_writes\<rparr>) = ready l s"
  "ready l (s\<lparr>syms := x_syms\<rparr>) = ready l s"
  "ready l (s\<lparr>slocks := x_slocks\<rparr>) = ready l s"
  "ready l (s\<lparr>procs := x_procs\<rparr>) = ready l s"
  "ready l (s\<lparr>initproc := x_initproc\<rparr>) = ready l s"
  "ready l (s\<lparr>nextpid := x_nextpid\<rparr>) = ready l s"
  "ready l (s\<lparr>forkret_first := x_forkret_first\<rparr>) = ready l s"
  "ready l (s\<lparr>mem := x_mem\<rparr>) = ready l s"
  "ready l (s\<lparr>freelist := x_freelist\<rparr>) = ready l s"
  "ready l (s\<lparr>kernel_pagetable := x_kernel_pagetable\<rparr>) = ready l s"
  "ready l (s\<lparr>tfs := x_tfs\<rparr>) = ready l s"
  "ready l (s\<lparr>pipes := x_pipes\<rparr>) = ready l s"
  "ready l (s\<lparr>ticks := x_ticks\<rparr>) = ready l s"
  "ready l (s\<lparr>bufs := x_bufs\<rparr>) = ready l s"
  "ready l (s\<lparr>vdisk := x_vdisk\<rparr>) = ready l s"
  "ready l (s\<lparr>drv := x_drv\<rparr>) = ready l s"
  "ready l (s\<lparr>blk := x_blk\<rparr>) = ready l s"
  "ready l (s\<lparr>wtrace := x_wtrace\<rparr>) = ready l s"
  "ready l (s\<lparr>klog := x_klog\<rparr>) = ready l s"
  "ready l (s\<lparr>sb := x_sb\<rparr>) = ready l s"
  "ready l (s\<lparr>inodes := x_inodes\<rparr>) = ready l s"
  "ready l (s\<lparr>ftable := x_ftable\<rparr>) = ready l s"
  "ready l (s\<lparr>devsw := x_devsw\<rparr>) = ready l s"
  "ready l (s\<lparr>kcons := x_kcons\<rparr>) = ready l s"
  "ready l (s\<lparr>kuart := x_kuart\<rparr>) = ready l s"
  "ready l (s\<lparr>pr_locking := x_pr_locking\<rparr>) = ready l s"
  "ready l (s\<lparr>panicked := x_panicked\<rparr>) = ready l s"
  "ready l (s\<lparr>future := x_future\<rparr>) = ready l s"
  by (simp_all add: free_lock_def ready_def cpu_ok_def holding_def cpuid_def intr_get_def)

lemma cpu_ok_update [lock_simps]:
  "cpu_ok (s\<lparr>stvec := x_stvec\<rparr>) = cpu_ok s"
  "cpu_ok (s\<lparr>sepc := x_sepc\<rparr>) = cpu_ok s"
  "cpu_ok (s\<lparr>scause := x_scause\<rparr>) = cpu_ok s"
  "cpu_ok (s\<lparr>stval := x_stval\<rparr>) = cpu_ok s"
  "cpu_ok (s\<lparr>satp := x_satp\<rparr>) = cpu_ok s"
  "cpu_ok (s\<lparr>sip := x_sip\<rparr>) = cpu_ok s"
  "cpu_ok (s\<lparr>plic_claim_reg := x_plic_claim_reg\<rparr>) = cpu_ok s"
  "cpu_ok (s\<lparr>plic_writes := x_plic_writes\<rparr>) = cpu_ok s"
  "cpu_ok (s\<lparr>syms := x_syms\<rparr>) = cpu_ok s"
  "cpu_ok (s\<lparr>slocks := x_slocks\<rparr>) = cpu_ok s"
  "cpu_ok (s\<lparr>procs := x_procs\<rparr>) = cpu_ok s"
  "cpu_ok (s\<lparr>initproc := x_initproc\<rparr>) = cpu_ok s"
  "cpu_ok (s\<lparr>nextpid := x_nextpid\<rparr>) = cpu_ok s"
  "cpu_ok (s\<lparr>forkret_first := x_forkret_first\<rparr>) = cpu_ok s"
  "cpu_ok (s\<lparr>mem := x_mem\<rparr>) = cpu_ok s"
  "cpu_ok (s\<lparr>freelist := x_freelist\<rparr>) = cpu_ok s"
  "cpu_ok (s\<lparr>kernel_pagetable := x_kernel_pagetable\<rparr>) = cpu_ok s"
  "cpu_ok (s\<lparr>tfs := x_tfs\<rparr>) = cpu_ok s"
  "cpu_ok (s\<lparr>pipes := x_pipes\<rparr>) = cpu_ok s"
  "cpu_ok (s\<lparr>ticks := x_ticks\<rparr>) = cpu_ok s"
  "cpu_ok (s\<lparr>bufs := x_bufs\<rparr>) = cpu_ok s"
  "cpu_ok (s\<lparr>vdisk := x_vdisk\<rparr>) = cpu_ok s"
  "cpu_ok (s\<lparr>drv := x_drv\<rparr>) = cpu_ok s"
  "cpu_ok (s\<lparr>blk := x_blk\<rparr>) = cpu_ok s"
  "cpu_ok (s\<lparr>wtrace := x_wtrace\<rparr>) = cpu_ok s"
  "cpu_ok (s\<lparr>klog := x_klog\<rparr>) = cpu_ok s"
  "cpu_ok (s\<lparr>sb := x_sb\<rparr>) = cpu_ok s"
  "cpu_ok (s\<lparr>inodes := x_inodes\<rparr>) = cpu_ok s"
  "cpu_ok (s\<lparr>ftable := x_ftable\<rparr>) = cpu_ok s"
  "cpu_ok (s\<lparr>devsw := x_devsw\<rparr>) = cpu_ok s"
  "cpu_ok (s\<lparr>kcons := x_kcons\<rparr>) = cpu_ok s"
  "cpu_ok (s\<lparr>kuart := x_kuart\<rparr>) = cpu_ok s"
  "cpu_ok (s\<lparr>pr_locking := x_pr_locking\<rparr>) = cpu_ok s"
  "cpu_ok (s\<lparr>panicked := x_panicked\<rparr>) = cpu_ok s"
  "cpu_ok (s\<lparr>future := x_future\<rparr>) = cpu_ok s"
  by (simp_all add: free_lock_def ready_def cpu_ok_def holding_def cpuid_def intr_get_def)

section \<open>Nesting\<close>

primrec push_offs :: "nat \<Rightarrow> kst \<Rightarrow> unit k" where
  "push_offs 0 s = Ok () s"
| "push_offs (Suc n) s = bnd (push_off s) (\<lambda>_ s. push_offs n s)"

primrec pop_offs :: "nat \<Rightarrow> kst \<Rightarrow> unit k" where
  "pop_offs 0 s = Ok () s"
| "pop_offs (Suc n) s = bnd (pop_off s) (\<lambda>_ s. pop_offs n s)"

text \<open>Closed form of \<open>n > 0\<close> nested \<open>push_off\<close> calls.\<close>

definition pushed :: "nat \<Rightarrow> kst \<Rightarrow> kst" where
  "pushed n s =
     (let c = cpus s (hart s) in
      s\<lparr>sstatus := sstatus s AND NOT SSTATUS_SIE,
        cpus := (cpus s)(hart s := c\<lparr>c_intena := (if c_noff c = 0 then intr_get s else c_intena c),
                                      c_noff := c_noff c + n\<rparr>)\<rparr>)"

lemma push_offs_pushed: "push_offs (Suc n) s = Ok () (pushed (Suc n) s)"
proof (induction n arbitrary: s)
  case 0
  show ?case
    by (simp add: pushed_def push_off_def mycpu_def cpuid_def upd_cpu_def intr_off_def Let_def)
next
  case (Suc n)
  have "push_offs (Suc (Suc n)) s = bnd (push_off s) (\<lambda>_ s. push_offs (Suc n) s)" by simp
  then show ?case
    unfolding Suc.IH
    by (simp add: pushed_def push_off_def mycpu_def cpuid_def upd_cpu_def intr_off_def Let_def
        intr_get_def and.assoc)
qed

lemma pop_off_pushed:
  assumes "cpu_ok s"
  shows "pop_off (pushed (Suc 0) s) = Ok () (settle s)"
    and "pop_off (pushed (Suc (Suc n)) s) = Ok () (pushed (Suc n) s)"
  using noff_cases[OF assms]
  by (auto simp: pushed_def pop_off_def settle_def mycpu_def cpuid_def upd_cpu_def
      intr_on_def intr_get_def word_simps lock_simps Let_def)

lemma pop_offs_pushed: "cpu_ok s \<Longrightarrow> pop_offs (Suc n) (pushed (Suc n) s) = Ok () (settle s)"
  by (induction n) (simp_all add: pop_off_pushed)

text \<open>C7: push_off and pop_off are matched. On a CPU whose interrupts are off whenever its nesting
  depth is positive (cpu_ok), after n nested push_off calls with n at least 1 and a depth that
  stays within the int noff, n pop_off calls succeed and leave the CPU with the nesting depth
  and the interrupt-enable bit it had before (only the saved copy in intena is refreshed, when
  the depth was 0); in between, interrupts are off.\<close>
theorem push_pop_matched:
  assumes "cpu_ok s" and "0 < n" and "c_noff (cpus s (hart s)) + n < 2 ^ 31"
  shows "\<exists>t. push_offs n s = Ok () t \<and> \<not> intr_get t \<and>
             c_noff (cpus t (hart t)) = c_noff (cpus s (hart s)) + n \<and>
             pop_offs n t = Ok () (settle s) \<and>
             sstatus (settle s) = sstatus s \<and>
             c_noff (cpus (settle s) (hart s)) = c_noff (cpus s (hart s))"
proof -
  obtain m where n: "n = Suc m" using assms(2) by (cases n) auto
  have "\<not> intr_get (pushed n s)" "c_noff (cpus (pushed n s) (hart (pushed n s))) = c_noff (cpus s (hart s)) + n"
    by (simp_all add: pushed_def intr_get_def word_simps Let_def)
  then show ?thesis
    using push_offs_pushed[of m s] pop_offs_pushed[OF assms(1), of m] n
    by (auto simp: locks_settle)
qed

theorem push_pop_matched_witness:
  "cpu_ok zero_kst \<and>
   (\<exists>t. push_offs 3 zero_kst = Ok () t \<and> \<not> intr_get t \<and> c_noff (cpus t (hart t)) = 3 \<and>
        pop_offs 3 t = Ok () (settle zero_kst))"
proof -
  have ok: "cpu_ok zero_kst" by (simp add: cpu_ok_def zero_kst_def)
  from push_pop_matched[OF ok, of 3] have "\<exists>t. push_offs 3 zero_kst = Ok () t \<and> \<not> intr_get t \<and>
      c_noff (cpus t (hart t)) = c_noff (cpus zero_kst (hart zero_kst)) + 3 \<and>
      pop_offs 3 t = Ok () (settle zero_kst)"
    by (auto simp: zero_kst_def)
  moreover have "c_noff (cpus zero_kst (hart zero_kst)) = 0" by (simp add: zero_kst_def)
  ultimately show ?thesis using ok by simp
qed

end
