(* ===== verification/Spinlock_Smp.thy ===== *)
theory Spinlock_Smp
  imports Spinlock
begin

text \<open>
  Several CPUs in \<open>acquire\<close> and \<open>release\<close> of \<open>kernel/spinlock.c\<close> at once. Each access to the
  lock is a step of its own: the load of \<open>lk->locked\<close> and the load of \<open>lk->cpu\<close> in \<open>holding\<close>,
  the atomic swap of the loop in \<open>acquire\<close>, the store to \<open>lk->cpu\<close>, and in \<open>release\<close> the store
  that clears \<open>lk->cpu\<close> and the swap that frees the lock word. \<open>push_off\<close> and \<open>pop_off\<close> touch the
  CPU's own entry of \<open>cpus\<close> and its own \<open>sstatus\<close> only, so each is one step, the function of the
  same name of the theory \<open>Spinlock\<close>. A CPU may call either function at any time, in the
  critical section or outside, so the two panics of the code are reached as well. The steps
  of different CPUs interleave in any order. The theorem shows mutual exclusion, that only the
  misuses the code means to catch panic, and that a CPU running on its own does what the
  functions \<open>acquire\<close> and \<open>release\<close> of the theory \<open>Spinlock\<close> say.
\<close>

section \<open>The instructions of acquire and release\<close>

datatype lockcall = ACQUIRE | RELEASE

text \<open>
  Where a CPU is: outside of any call (\<open>Idle\<close>), or about to execute an instruction. The flag of
  \<open>TestLocked\<close> and \<open>TestCpu\<close> (the two loads of \<open>holding\<close>) and of \<open>Panicked\<close> remembers whether
  the call was made from the critical section.
\<close>

datatype lockpc = Idle | TestLocked lockcall bool | TestCpu lockcall bool | Spin | SetCpu | Crit
  | ClearCpu | Unlock | PopOff | Panicked string bool

fun call_lock :: "lockcall \<Rightarrow> bool \<Rightarrow> kst \<Rightarrow> lockpc k" where
  "call_lock ACQUIRE own s = bnd (push_off s) (\<lambda>_ s. Ok (TestLocked ACQUIRE own) s)"
| "call_lock RELEASE own s = Ok (TestLocked RELEASE own) s"

text \<open>What the caller of \<open>holding\<close> does with its result.\<close>

fun held :: "lockcall \<Rightarrow> bool \<Rightarrow> kst \<Rightarrow> lockpc k" where
  "held ACQUIRE r s = (if r then Panic ''acquire'' else Ok Spin s)"
| "held RELEASE r s = (if \<not> r then Panic ''release'' else Ok ClearCpu s)"

definition store_lock :: "lockid \<Rightarrow> (spinlock \<Rightarrow> spinlock) \<Rightarrow> kst \<Rightarrow> kst" where
  "store_lock lk f s = s\<lparr>locks := (locks s)(lk := f (locks s lk))\<rparr>"

fun lock_instr :: "lockid \<Rightarrow> lockcall \<Rightarrow> lockpc \<Rightarrow> kst \<Rightarrow> lockpc k" where
  "lock_instr lk c Idle s = call_lock c False s"
| "lock_instr lk c Crit s = call_lock c True s"
| "lock_instr lk c (TestLocked f own) s =
     (if lk_locked (locks s lk) then Ok (TestCpu f own) s else held f False s)"
| "lock_instr lk c (TestCpu f own) s = held f (lk_cpu (locks s lk) = Some (cpuid s)) s"
| "lock_instr lk c Spin s =
     Ok (if lk_locked (locks s lk) then Spin else SetCpu) (store_lock lk (\<lambda>l. l\<lparr>lk_locked := True\<rparr>) s)"
| "lock_instr lk c SetCpu s = Ok Crit (store_lock lk (\<lambda>l. l\<lparr>lk_cpu := Some (cpuid s)\<rparr>) s)"
| "lock_instr lk c ClearCpu s = Ok Unlock (store_lock lk (\<lambda>l. l\<lparr>lk_cpu := None\<rparr>) s)"
| "lock_instr lk c Unlock s = Ok PopOff (store_lock lk (\<lambda>l. l\<lparr>lk_locked := False\<rparr>) s)"
| "lock_instr lk c PopOff s = bnd (pop_off s) (\<lambda>_ s. Ok Idle s)"
| "lock_instr lk c (Panicked msg own) s = Ok (Panicked msg own) s"

section \<open>The machine\<close>

text \<open>
  The memory is shared; \<open>sstatus\<close> and the hart number are registers of each CPU. \<open>smp_view m i\<close>
  is the machine as CPU \<open>i\<close> sees it.
\<close>

record smp =
  smp_st :: kst
  smp_sst :: "nat \<Rightarrow> u64"
  smp_pc :: "nat \<Rightarrow> lockpc"

definition smp_view :: "smp \<Rightarrow> nat \<Rightarrow> kst" where
  "smp_view m i = (smp_st m)\<lparr>hart := i, sstatus := smp_sst m i\<rparr>"

definition smp_put :: "smp \<Rightarrow> nat \<Rightarrow> kst \<Rightarrow> lockpc \<Rightarrow> smp" where
  "smp_put m i s pc = m\<lparr>smp_st := s, smp_sst := (smp_sst m)(i := sstatus s), smp_pc := (smp_pc m)(i := pc)\<rparr>"

text \<open>The CPU is between the successful swap of \<open>acquire\<close> and the swap of \<open>release\<close>.\<close>

fun owns_pc :: "lockpc \<Rightarrow> bool" where
  "owns_pc (TestLocked f own) = own"
| "owns_pc (TestCpu f own) = own"
| "owns_pc (Panicked msg own) = own"
| "owns_pc pc = (pc = SetCpu \<or> pc = Crit \<or> pc = ClearCpu \<or> pc = Unlock)"

definition smp_owns :: "smp \<Rightarrow> nat \<Rightarrow> bool" where
  "smp_owns m i = owns_pc (smp_pc m i)"

text \<open>One instruction of CPU \<open>i\<close>; \<open>c\<close> is the function it calls when it is not in a call yet.\<close>

definition cpu_step :: "lockid \<Rightarrow> lockcall \<Rightarrow> nat \<Rightarrow> smp \<Rightarrow> smp" where
  "cpu_step lk c i m =
     (case lock_instr lk c (smp_pc m i) (smp_view m i) of
        Ok pc s \<Rightarrow> smp_put m i s pc
      | Panic msg \<Rightarrow> m\<lparr>smp_pc := (smp_pc m)(i := Panicked msg (smp_owns m i))\<rparr>
      | _ \<Rightarrow> m)"

definition smp_start :: "lockid \<Rightarrow> smp \<Rightarrow> bool" where
  "smp_start lk m \<longleftrightarrow> free_lock lk (smp_st m) \<and> (\<forall>i. smp_pc m i = Idle \<and> cpu_ok (smp_view m i))"

inductive smp_reach :: "lockid \<Rightarrow> smp \<Rightarrow> smp \<Rightarrow> bool" for lk m0 where
  smp_none: "smp_reach lk m0 m0"
| smp_more: "smp_reach lk m0 m \<Longrightarrow> smp_reach lk m0 (cpu_step lk c i m)"

section \<open>The invariant\<close>

text \<open>The part of the invariant about the lock and the program counters.\<close>

definition cpu_set :: "lockpc \<Rightarrow> bool" where
  "cpu_set pc \<longleftrightarrow> owns_pc pc \<and> pc \<noteq> SetCpu \<and> pc \<noteq> Unlock"

fun pc_ok :: "lockpc \<Rightarrow> bool" where
  "pc_ok (Panicked msg own) = (msg = (if own then ''acquire'' else ''release''))"
| "pc_ok _ = True"

definition lock_inv :: "spinlock \<Rightarrow> (nat \<Rightarrow> lockpc) \<Rightarrow> bool" where
  "lock_inv l pc \<longleftrightarrow> (\<forall>i. pc_ok (pc i)) \<and>
     (if lk_locked l
      then \<exists>w. (\<forall>i. owns_pc (pc i) \<longleftrightarrow> i = w) \<and> lk_cpu l = (if cpu_set (pc w) then Some w else None)
      else (\<forall>i. \<not> owns_pc (pc i)) \<and> lk_cpu l = None)"

text \<open>The part about a CPU's own interrupt state: from \<open>push_off\<close> to \<open>pop_off\<close> interrupts are off.\<close>

fun in_section :: "lockpc \<Rightarrow> bool" where
  "in_section (TestLocked f own) = (own \<or> f = ACQUIRE)"
| "in_section (TestCpu f own) = (own \<or> f = ACQUIRE)"
| "in_section (Panicked msg own) = False"
| "in_section pc = (pc \<noteq> Idle)"

definition local_inv :: "lockpc \<Rightarrow> kst \<Rightarrow> bool" where
  "local_inv pc s \<longleftrightarrow> cpu_ok s \<and> (in_section pc \<longrightarrow> \<not> intr_get s \<and> 1 \<le> c_noff (cpus s (hart s)))"

definition smp_inv :: "lockid \<Rightarrow> smp \<Rightarrow> bool" where
  "smp_inv lk m \<longleftrightarrow> lock_inv (locks (smp_st m) lk) (smp_pc m) \<and> (\<forall>i. local_inv (smp_pc m i) (smp_view m i))"

lemma lock_inv_owner:
  assumes "lock_inv l pc" and "owns_pc (pc i)"
  shows "lk_locked l" and "owns_pc (pc j) \<longleftrightarrow> j = i" and "lk_cpu l = (if cpu_set (pc i) then Some i else None)"
  using assms by (auto simp: lock_inv_def split: if_splits)

lemma lock_inv_other:
  assumes "lock_inv l pc" and "\<not> owns_pc (pc i)"
  shows "lk_cpu l \<noteq> Some i"
  using assms by (auto simp: lock_inv_def split: if_splits)

text \<open>A step that changes neither the lock nor who owns it.\<close>

lemma lock_inv_same:
  assumes "lock_inv l pc" and "owns_pc q = owns_pc (pc i)" and "cpu_set q = cpu_set (pc i)" and "pc_ok q"
  shows "lock_inv l (pc(i := q))"
  using assms unfolding lock_inv_def by (auto split: if_splits)

text \<open>The steps of the owner, and the swap that makes a CPU the owner.\<close>

lemma lock_inv_owner_step:
  assumes "lock_inv l pc" and "owns_pc (pc i)" and "pc_ok q"
  shows "owns_pc q \<Longrightarrow> lock_inv (l\<lparr>lk_cpu := (if cpu_set q then Some i else None)\<rparr>) (pc(i := q))"
    and "\<not> owns_pc q \<Longrightarrow> \<not> cpu_set (pc i) \<Longrightarrow> lock_inv (l\<lparr>lk_locked := False\<rparr>) (pc(i := q))"
  using lock_inv_owner[OF assms(1,2)] assms by (auto simp: lock_inv_def)

lemma lock_set_again: "lk_locked l \<Longrightarrow> l\<lparr>lk_locked := True\<rparr> = l"
  by (cases l) simp

lemma lock_inv_take:
  assumes "lock_inv l pc" and "\<not> lk_locked l" and "owns_pc q" and "\<not> cpu_set q" and "pc_ok q"
  shows "lock_inv (l\<lparr>lk_locked := True\<rparr>) (pc(i := q))"
  using assms by (auto simp: lock_inv_def)

text \<open>What an instruction does to the CPU's own state.\<close>

lemma push_off_local:
  "\<exists>t. push_off s = Ok () t \<and> locks t = locks s \<and> hart t = hart s \<and>
       cpu_ok t \<and> \<not> intr_get t \<and> 1 \<le> c_noff (cpus t (hart t)) \<and> (\<forall>j. j \<noteq> hart s \<longrightarrow> cpus t j = cpus s j)"
  by (simp add: push_off_def mycpu_def cpuid_def upd_cpu_def intr_off_def intr_get_def cpu_ok_def
      word_simps Let_def)

lemma pop_off_local:
  assumes "\<not> intr_get s" and "1 \<le> c_noff (cpus s (hart s))"
  shows "\<exists>t. pop_off s = Ok () t \<and> locks t = locks s \<and> hart t = hart s \<and> cpu_ok t \<and>
             (\<forall>j. j \<noteq> hart s \<longrightarrow> cpus t j = cpus s j)"
  using assms
  by (auto simp: pop_off_def mycpu_def cpuid_def upd_cpu_def intr_on_def intr_get_def cpu_ok_def Let_def)

lemma smp_view_select [simp]:
  "hart (smp_view m i) = i" "locks (smp_view m i) = locks (smp_st m)" "cpuid (smp_view m i) = i"
  "cpus (smp_view m i) = cpus (smp_st m)" "sstatus (smp_view m i) = smp_sst m i"
  by (simp_all add: smp_view_def cpuid_def)

lemma smp_view_put: "hart s = i \<Longrightarrow> smp_view (smp_put m i s pc) i = s"
  by (auto simp: smp_view_def smp_put_def)

lemma local_inv_other:
  assumes "local_inv pc (smp_view m j)" and "j \<noteq> i" and "cpus s j = cpus (smp_st m) j"
  shows "local_inv pc (smp_view (smp_put m i s q) j)"
  using assms by (simp add: local_inv_def smp_view_def smp_put_def cpu_ok_def intr_get_def)

lemma smp_inv_put:
  assumes "smp_inv lk m" and "lock_inv (locks s lk) ((smp_pc m)(i := q))" and "local_inv q s" and "hart s = i"
    and "\<forall>j. j \<noteq> i \<longrightarrow> cpus s j = cpus (smp_st m) j"
  shows "smp_inv lk (smp_put m i s q)"
  unfolding smp_inv_def
proof (intro conjI allI)
  show "lock_inv (locks (smp_st (smp_put m i s q)) lk) (smp_pc (smp_put m i s q))"
    using assms(2) by (simp add: smp_put_def)
  fix j
  show "local_inv (smp_pc (smp_put m i s q) j) (smp_view (smp_put m i s q) j)"
    using assms(1,3,4,5) local_inv_other[of "smp_pc m j" m j i s q] smp_view_put[of s i m q]
    by (cases "j = i") (auto simp: smp_inv_def smp_put_def)
qed

text \<open>The three shapes of a step: no store, a store to the lock, a panic.\<close>

lemma smp_inv_pc:
  assumes "smp_inv lk m" and "owns_pc q = smp_owns m i" and "cpu_set q = cpu_set (smp_pc m i)" and "pc_ok q"
    and "in_section q \<longrightarrow> in_section (smp_pc m i)"
  shows "smp_inv lk (smp_put m i (smp_view m i) q)"
  by (rule smp_inv_put[OF assms(1)])
    (use assms in \<open>auto simp: smp_inv_def local_inv_def smp_owns_def intro: lock_inv_same\<close>)

lemma smp_inv_store:
  assumes "smp_inv lk m" and "lock_inv (f (locks (smp_st m) lk)) ((smp_pc m)(i := q))"
    and "in_section q \<longrightarrow> in_section (smp_pc m i)"
  shows "smp_inv lk (smp_put m i (store_lock lk f (smp_view m i)) q)"
  by (rule smp_inv_put[OF assms(1)])
    (use assms in \<open>auto simp: smp_inv_def local_inv_def store_lock_def cpu_ok_def intr_get_def\<close>)

lemma smp_inv_panic:
  assumes "smp_inv lk m" and "cpu_set (smp_pc m i) = smp_owns m i" and "pc_ok (Panicked msg (smp_owns m i))"
  shows "smp_inv lk (m\<lparr>smp_pc := (smp_pc m)(i := Panicked msg (smp_owns m i))\<rparr>)"
  using assms lock_inv_same[of "locks (smp_st m) lk" "smp_pc m" "Panicked msg (smp_owns m i)" i]
  by (auto simp: smp_inv_def local_inv_def cpu_set_def smp_owns_def smp_view_def)

text \<open>The result of \<open>holding\<close>: its two loads tell a CPU whether it owns the lock.\<close>

lemma smp_inv_held:
  assumes "smp_inv lk m" and "smp_pc m i = TestLocked f own \<or> smp_pc m i = TestCpu f own"
  shows "smp_inv lk (case held f own (smp_view m i) of Ok pc s \<Rightarrow> smp_put m i s pc
      | Panic msg \<Rightarrow> m\<lparr>smp_pc := (smp_pc m)(i := Panicked msg (smp_owns m i))\<rparr> | _ \<Rightarrow> m)"
proof -
  have o: "smp_owns m i = own" "cpu_set (smp_pc m i) = own" "in_section (smp_pc m i) = (own \<or> f = ACQUIRE)"
    using assms(2) by (auto simp: smp_owns_def cpu_set_def)
  show ?thesis
  proof (cases f)
    case ACQUIRE
    then show ?thesis
      using smp_inv_panic[OF assms(1), of i "''acquire''"] smp_inv_pc[OF assms(1), of Spin i] o
      by (cases own) (simp_all add: cpu_set_def)
  next
    case RELEASE
    then show ?thesis
      using smp_inv_panic[OF assms(1), of i "''release''"] smp_inv_pc[OF assms(1), of ClearCpu i] o
      by (cases own) (simp_all add: cpu_set_def)
  qed
qed

lemma smp_inv_call:
  assumes "smp_inv lk m" and "smp_pc m i = Idle \<and> \<not> own \<or> smp_pc m i = Crit \<and> own"
  shows "smp_inv lk (case call_lock c own (smp_view m i) of Ok pc s \<Rightarrow> smp_put m i s pc
      | Panic msg \<Rightarrow> m\<lparr>smp_pc := (smp_pc m)(i := Panicked msg (smp_owns m i))\<rparr> | _ \<Rightarrow> m)"
proof (cases c)
  case ACQUIRE
  obtain t where t: "push_off (smp_view m i) = Ok () t" "locks t = locks (smp_st m)" "hart t = i" "cpu_ok t"
    "\<not> intr_get t" "1 \<le> c_noff (cpus t (hart t))" "\<forall>j. j \<noteq> i \<longrightarrow> cpus t j = cpus (smp_st m) j"
    using push_off_local[of "smp_view m i"] by auto
  have "lock_inv (locks t lk) ((smp_pc m)(i := TestLocked ACQUIRE own))"
    using assms t(2) by (auto simp: smp_inv_def cpu_set_def intro!: lock_inv_same)
  then have "smp_inv lk (smp_put m i t (TestLocked ACQUIRE own))"
    by (rule smp_inv_put[OF assms(1)]) (use t in \<open>simp_all add: local_inv_def\<close>)
  then show ?thesis using ACQUIRE t(1) by simp
next
  case RELEASE
  then show ?thesis
    using smp_inv_pc[OF assms(1), of "TestLocked RELEASE own" i] assms(2)
    by (auto simp: smp_owns_def cpu_set_def)
qed

lemma cpu_step_inv:
  assumes "smp_inv lk m"
  shows "smp_inv lk (cpu_step lk c i m)"
proof -
  let ?l = "locks (smp_st m) lk"
  have inv: "lock_inv ?l (smp_pc m)" "local_inv (smp_pc m i) (smp_view m i)" using assms by (auto simp: smp_inv_def)
  show ?thesis
  proof (cases "smp_pc m i")
    case Idle
    then show ?thesis using smp_inv_call[OF assms, of i False c] by (simp add: cpu_step_def)
  next
    case Crit
    then show ?thesis using smp_inv_call[OF assms, of i True c] by (simp add: cpu_step_def)
  next
    case (TestLocked f own)
    then have "own \<Longrightarrow> lk_locked ?l" using lock_inv_owner(1)[OF inv(1), of i] by simp
    then show ?thesis
      using TestLocked smp_inv_held[OF assms, of i f own] smp_inv_pc[OF assms, of "TestCpu f own" i]
      by (cases own) (auto simp: cpu_step_def cpu_set_def smp_owns_def)
  next
    case (TestCpu f own)
    then have "lk_cpu ?l = Some i \<longleftrightarrow> own"
      using lock_inv_owner(3)[OF inv(1), of i] lock_inv_other[OF inv(1), of i] by (auto simp: cpu_set_def)
    then show ?thesis using TestCpu smp_inv_held[OF assms, of i f own] by (simp add: cpu_step_def)
  next
    case Spin
    have "lock_inv (?l\<lparr>lk_locked := True\<rparr>) ((smp_pc m)(i := if lk_locked ?l then Spin else SetCpu))"
      using lock_inv_take[OF inv(1), of SetCpu i] lock_inv_same[OF inv(1), of Spin i] Spin
      by (cases "lk_locked ?l") (simp_all add: cpu_set_def lock_set_again)
    then show ?thesis
      using smp_inv_store[OF assms, of "\<lambda>l. l\<lparr>lk_locked := True\<rparr>" i "if lk_locked ?l then Spin else SetCpu"] Spin
      by (simp add: cpu_step_def)
  next
    case SetCpu
    then show ?thesis
      using smp_inv_store[OF assms, of "\<lambda>l. l\<lparr>lk_cpu := Some i\<rparr>" i Crit] lock_inv_owner_step(1)[OF inv(1), of i Crit]
      by (simp add: cpu_step_def cpu_set_def)
  next
    case ClearCpu
    then show ?thesis
      using smp_inv_store[OF assms, of "\<lambda>l. l\<lparr>lk_cpu := None\<rparr>" i Unlock] lock_inv_owner_step(1)[OF inv(1), of i Unlock]
      by (simp add: cpu_step_def cpu_set_def)
  next
    case Unlock
    then show ?thesis
      using smp_inv_store[OF assms, of "\<lambda>l. l\<lparr>lk_locked := False\<rparr>" i PopOff] lock_inv_owner_step(2)[OF inv(1), of i PopOff]
      by (simp add: cpu_step_def cpu_set_def)
  next
    case PopOff
    obtain t where t: "pop_off (smp_view m i) = Ok () t" "locks t = locks (smp_st m)" "hart t = i" "cpu_ok t"
      "\<forall>j. j \<noteq> i \<longrightarrow> cpus t j = cpus (smp_st m) j"
      using pop_off_local[of "smp_view m i"] inv(2) PopOff by (auto simp: local_inv_def)
    have "lock_inv (locks t lk) ((smp_pc m)(i := Idle))"
      using lock_inv_same[OF inv(1), of Idle i] PopOff t(2) by (simp add: cpu_set_def)
    then have "smp_inv lk (smp_put m i t Idle)"
      by (rule smp_inv_put[OF assms]) (use t in \<open>simp_all add: local_inv_def\<close>)
    then show ?thesis using PopOff t(1) by (simp add: cpu_step_def)
  next
    case (Panicked msg own)
    then show ?thesis using smp_inv_pc[OF assms, of "Panicked msg own" i] inv(1)
      by (auto simp: cpu_step_def smp_owns_def lock_inv_def dest!: spec[of _ i])
  qed
qed

lemma smp_start_inv: "smp_start lk m \<Longrightarrow> smp_inv lk m"
  by (auto simp: smp_start_def smp_inv_def lock_inv_def free_lock_def local_inv_def)

lemma smp_reach_inv: "smp_reach lk m0 m \<Longrightarrow> smp_start lk m0 \<Longrightarrow> smp_inv lk m"
  by (induction rule: smp_reach.induct) (auto intro: cpu_step_inv smp_start_inv)

section \<open>A CPU running on its own\<close>

definition run_alone :: "lockid \<Rightarrow> lockcall \<Rightarrow> nat \<Rightarrow> nat \<Rightarrow> smp \<Rightarrow> smp" where
  "run_alone lk c i n m = (cpu_step lk c i ^^ n) m"

lemma smp_put_select [simp]:
  "smp_pc (smp_put m i s pc) = (smp_pc m)(i := pc)" "smp_st (smp_put m i s pc) = s"
  by (simp_all add: smp_put_def)

lemma cpu_step_Ok:
  assumes "lock_instr lk c (smp_pc m i) (smp_view m i) = Ok pc s" and "hart s = i"
  shows "smp_pc (cpu_step lk c i m) i = pc" and "smp_view (cpu_step lk c i m) i = s"
  using assms by (simp_all add: cpu_step_def smp_view_put)

lemma cpu_step_Panic:
  assumes "lock_instr lk c (smp_pc m i) (smp_view m i) = Panic msg"
  shows "smp_pc (cpu_step lk c i m) i = Panicked msg (smp_owns m i)"
  using assms by (simp add: cpu_step_def)

text \<open>The interrupt bookkeeping of \<open>push_off\<close>, and \<open>acquire\<close> from there.\<close>

lemma push_off_pushed: "push_off s = Ok () (pushed (Suc 0) s)"
  using push_offs_pushed[of 0 s] by (cases "push_off s") auto

lemma pushed_select [simp]: "locks (pushed n s) = locks s" "hart (pushed n s) = hart s" "cpuid (pushed n s) = hart s"
  by (simp_all add: pushed_def cpuid_def Let_def)

lemma acquire_pushed: "acquire lk s = (if holding lk s then Panic ''acquire'' else if lk_locked (locks s lk) then Hang
    else Ok () (store_lock lk (\<lambda>l. l\<lparr>lk_cpu := Some (hart s)\<rparr>) (store_lock lk (\<lambda>l. l\<lparr>lk_locked := True\<rparr>) (pushed (Suc 0) s))))"
  by (simp add: acquire_def push_off_pushed store_lock_def holding_def cpuid_def)

lemma store_lock_select [simp]: "hart (store_lock lk f s) = hart s" "locks (store_lock lk f s) lk = f (locks s lk)"
  "cpuid (store_lock lk f s) = cpuid s"
  by (simp_all add: store_lock_def cpuid_def)

lemma alone_calls:
  assumes "smp_pc m i = Idle"
  shows "smp_pc (cpu_step lk ACQUIRE i m) i = TestLocked ACQUIRE False"
    and "smp_view (cpu_step lk ACQUIRE i m) i = pushed (Suc 0) (smp_view m i)"
  using cpu_step_Ok[of lk ACQUIRE m i] assms by (simp_all add: push_off_pushed)

lemma alone_acquires:
  assumes "smp_pc m i = Idle" and "\<not> lk_locked (locks (smp_st m) lk)"
  shows "smp_pc (run_alone lk ACQUIRE i 4 m) i = Crit \<and>
         acquire lk (smp_view m i) = Ok () (smp_view (run_alone lk ACQUIRE i 4 m) i)"
proof -
  let ?f = "cpu_step lk ACQUIRE i"
  let ?s = "pushed (Suc 0) (smp_view m i)"
  let ?t = "store_lock lk (\<lambda>l. l\<lparr>lk_locked := True\<rparr>) ?s"
  note 1 = alone_calls[OF assms(1), of lk]
  have 2: "smp_pc (?f (?f m)) i = Spin" "smp_view (?f (?f m)) i = ?s"
    using cpu_step_Ok[of lk ACQUIRE "?f m" i Spin ?s] 1 assms(2) by simp_all
  have 3: "smp_pc (?f (?f (?f m))) i = SetCpu" "smp_view (?f (?f (?f m))) i = ?t"
    using cpu_step_Ok[of lk ACQUIRE "?f (?f m)" i SetCpu ?t] 2 assms(2) by simp_all
  have 4: "smp_pc (?f (?f (?f (?f m)))) i = Crit"
    "smp_view (?f (?f (?f (?f m)))) i = store_lock lk (\<lambda>l. l\<lparr>lk_cpu := Some i\<rparr>) ?t"
    using cpu_step_Ok[of lk ACQUIRE "?f (?f (?f m))" i Crit] 3 by simp_all
  then show ?thesis
    using assms(2) by (simp add: run_alone_def eval_nat_numeral acquire_pushed holding_def)
qed

lemma alone_spins:
  assumes "smp_pc m i = Idle" and "lk_locked (locks (smp_st m) lk)" and "lk_cpu (locks (smp_st m) lk) \<noteq> Some i"
  shows "smp_pc (run_alone lk ACQUIRE i (n + 3) m) i = Spin \<and> acquire lk (smp_view m i) = Hang"
proof -
  let ?f = "cpu_step lk ACQUIRE i"
  let ?s = "pushed (Suc 0) (smp_view m i)"
  note 1 = alone_calls[OF assms(1), of lk]
  have 2: "smp_pc (?f (?f m)) i = TestCpu ACQUIRE False" "smp_view (?f (?f m)) i = ?s"
    using cpu_step_Ok[of lk ACQUIRE "?f m" i "TestCpu ACQUIRE False" ?s] 1 assms(2) by simp_all
  have 3: "smp_pc (?f (?f (?f m))) i = Spin" "smp_view (?f (?f (?f m))) i = ?s"
    using cpu_step_Ok[of lk ACQUIRE "?f (?f m)" i Spin ?s] 2 assms(3) by simp_all
  have "smp_pc ((?f ^^ n) (?f (?f (?f m)))) i = Spin \<and> lk_locked (locks (smp_view ((?f ^^ n) (?f (?f (?f m)))) i) lk)"
  proof (induction n)
    case 0
    show ?case using 3 assms(2) by simp
  next
    case (Suc n)
    let ?m = "(?f ^^ n) (?f (?f (?f m)))"
    show ?case
      using Suc cpu_step_Ok[of lk ACQUIRE ?m i Spin "store_lock lk (\<lambda>l. l\<lparr>lk_locked := True\<rparr>) (smp_view ?m i)"]
      by (simp add: funpow_swap1)
  qed
  then show ?thesis
    using acquire_other_cpu[of "smp_view m i" lk] assms(2,3)
    by (simp add: run_alone_def eval_nat_numeral funpow_swap1)
qed

lemma alone_releases:
  assumes "smp_pc m i = Crit" and "smp_inv lk m"
  shows "smp_pc (run_alone lk RELEASE i 6 m) i = Idle \<and>
         release lk (smp_view m i) = Ok () (smp_view (run_alone lk RELEASE i 6 m) i)"
proof -
  let ?f = "cpu_step lk RELEASE i"
  let ?s = "smp_view m i"
  let ?t = "store_lock lk (\<lambda>l. l\<lparr>lk_cpu := None\<rparr>) ?s"
  let ?u = "store_lock lk (\<lambda>l. l\<lparr>lk_locked := False\<rparr>) ?t"
  have l: "lk_locked (locks (smp_st m) lk)" "lk_cpu (locks (smp_st m) lk) = Some i"
    using assms lock_inv_owner[of "locks (smp_st m) lk" "smp_pc m" i] by (auto simp: smp_inv_def cpu_set_def)
  have 1: "smp_pc (?f m) i = TestLocked RELEASE True" "smp_view (?f m) i = ?s"
    using cpu_step_Ok[of lk RELEASE m i "TestLocked RELEASE True" ?s] assms(1) by simp_all
  have 2: "smp_pc (?f (?f m)) i = TestCpu RELEASE True" "smp_view (?f (?f m)) i = ?s"
    using cpu_step_Ok[of lk RELEASE "?f m" i "TestCpu RELEASE True" ?s] 1 l by simp_all
  have 3: "smp_pc (?f (?f (?f m))) i = ClearCpu" "smp_view (?f (?f (?f m))) i = ?s"
    using cpu_step_Ok[of lk RELEASE "?f (?f m)" i ClearCpu ?s] 2 l by simp_all
  have 4: "smp_pc (?f (?f (?f (?f m)))) i = Unlock" "smp_view (?f (?f (?f (?f m)))) i = ?t"
    using cpu_step_Ok[of lk RELEASE "?f (?f (?f m))" i Unlock ?t] 3 by simp_all
  have 5: "smp_pc (?f (?f (?f (?f (?f m))))) i = PopOff" "smp_view (?f (?f (?f (?f (?f m))))) i = ?u"
    using cpu_step_Ok[of lk RELEASE "?f (?f (?f (?f m)))" i PopOff ?u] 4 by simp_all
  have "local_inv Crit ?s" using assms by (auto simp: smp_inv_def dest!: spec[of _ i])
  then have "\<not> intr_get ?u" "1 \<le> c_noff (cpus ?u (hart ?u))"
    by (simp_all add: local_inv_def intr_get_def store_lock_def)
  from pop_off_local[OF this] obtain w where w: "pop_off ?u = Ok () w" "hart w = i" by auto
  have 6: "smp_pc (?f (?f (?f (?f (?f (?f m)))))) i = Idle" "smp_view (?f (?f (?f (?f (?f (?f m)))))) i = w"
    using cpu_step_Ok[of lk RELEASE "?f (?f (?f (?f (?f m))))" i Idle w] 5 w by simp_all
  have "release lk ?s = pop_off ?u" using l by (simp add: release_def holding_def store_lock_def)
  with 6 w show ?thesis by (simp add: run_alone_def eval_nat_numeral)
qed

section \<open>Mutual exclusion\<close>

text \<open>C3: mutual exclusion. Any number of CPUs, starting with the lock free, execute the instructions
  of acquire and release interleaved in any order, holding() being two separate loads. In every
  state they reach, at most one CPU is between the successful swap of acquire and the swap of
  release that frees the lock; holding() is true on a CPU in its critical section and false on
  a CPU that does not own the lock; a CPU that has panicked either called acquire while it
  owned the lock or release while it did not. From such a state the model of acquire and
  release is what a CPU executes when it runs on its own: acquire takes a free lock and enters
  the critical section, spins for ever on a lock that another CPU owns, and release leaves the
  critical section without a panic.\<close>
theorem spinlock_mutual_exclusion:
  assumes "smp_start lk m0" and "smp_reach lk m0 m"
  shows "(smp_owns m i \<longrightarrow> smp_owns m j \<longrightarrow> i = j) \<and>
         (smp_pc m i = Crit \<longrightarrow> holding lk (smp_view m i)) \<and>
         (\<not> smp_owns m i \<longrightarrow> \<not> holding lk (smp_view m i)) \<and>
         (smp_pc m i = Panicked msg own \<longrightarrow> msg = (if own then ''acquire'' else ''release'')) \<and>
         (smp_pc m i = Idle \<longrightarrow>
            (if lk_locked (locks (smp_st m) lk)
             then acquire lk (smp_view m i) = Hang \<and> smp_pc (run_alone lk ACQUIRE i (n + 3) m) i = Spin
             else acquire lk (smp_view m i) = Ok () (smp_view (run_alone lk ACQUIRE i 4 m) i) \<and>
                  smp_pc (run_alone lk ACQUIRE i 4 m) i = Crit)) \<and>
         (smp_pc m i = Crit \<longrightarrow>
            release lk (smp_view m i) = Ok () (smp_view (run_alone lk RELEASE i 6 m) i) \<and>
            smp_pc (run_alone lk RELEASE i 6 m) i = Idle)"
proof -
  have inv: "smp_inv lk m" using assms smp_reach_inv by blast
  then have l: "lock_inv (locks (smp_st m) lk) (smp_pc m)" by (simp add: smp_inv_def)
  have "smp_owns m i \<longrightarrow> smp_owns m j \<longrightarrow> i = j" using lock_inv_owner(2)[OF l] by (auto simp: smp_owns_def)
  moreover have "smp_pc m i = Crit \<longrightarrow> holding lk (smp_view m i)"
    using lock_inv_owner(1,3)[OF l, of i] by (auto simp: holding_def cpu_set_def)
  moreover have n: "\<not> smp_owns m i \<longrightarrow> lk_cpu (locks (smp_st m) lk) \<noteq> Some i"
    using lock_inv_other[OF l, of i] by (simp add: smp_owns_def)
  moreover have "smp_pc m i = Panicked msg own \<longrightarrow> msg = (if own then ''acquire'' else ''release'')"
    using l by (auto simp: lock_inv_def dest!: spec[of _ i])
  ultimately show ?thesis
    using alone_acquires[of m i lk] alone_spins[of m i lk n] alone_releases[OF _ inv, of i]
    by (auto simp: holding_def smp_owns_def)
qed

text \<open>CPU 0 takes the lock, then CPU 1 calls \<open>acquire\<close> and spins.\<close>

definition smp_idle :: smp where
  "smp_idle = \<lparr>smp_st = zero_kst, smp_sst = (\<lambda>_. 2), smp_pc = (\<lambda>_. Idle)\<rparr>"

definition smp_contended :: smp where
  "smp_contended = run_alone Lkmem ACQUIRE 1 5 (run_alone Lkmem ACQUIRE 0 4 smp_idle)"

lemma smp_idle_start: "smp_start lk smp_idle"
  by (simp add: smp_start_def smp_idle_def cpu_ok_def zero_kst_def free_lock_def smp_view_def)

lemma smp_reach_alone: "smp_reach lk m0 m \<Longrightarrow> smp_reach lk m0 (run_alone lk c i n m)"
  unfolding run_alone_def by (induction n) (auto intro: smp_more)

lemma smp_contended_reach: "smp_reach Lkmem smp_idle smp_contended"
  unfolding smp_contended_def by (intro smp_reach_alone smp_none)

lemma run_alone_other: "j \<noteq> i \<Longrightarrow> smp_pc (run_alone lk c i n m) j = smp_pc m j"
proof -
  assume "j \<noteq> i"
  then have "smp_pc (cpu_step lk c i m) j = smp_pc m j" for m
    by (simp add: cpu_step_def split: outcome.split)
  then show ?thesis unfolding run_alone_def by (induction n) simp_all
qed

lemma smp_contended_pcs: "smp_pc smp_contended 0 = Crit" "smp_pc smp_contended 1 = Spin" "smp_pc smp_contended 2 = Idle"
proof -
  let ?m = "run_alone Lkmem ACQUIRE 0 4 smp_idle"
  have "smp_pc smp_idle i = Idle" "\<not> lk_locked (locks (smp_st smp_idle) Lkmem)" for i
    by (simp_all add: smp_idle_def zero_kst_def)
  with alone_acquires[of smp_idle 0 Lkmem] have m: "smp_pc ?m 0 = Crit" "smp_pc ?m 1 = Idle" "smp_pc ?m 2 = Idle"
    by (simp_all add: run_alone_other)
  have "lock_inv (locks (smp_st ?m) Lkmem) (smp_pc ?m)"
    using smp_reach_inv[OF smp_reach_alone[OF smp_none] smp_idle_start] by (simp add: smp_inv_def)
  from lock_inv_owner[OF this, of 0] have "lk_locked (locks (smp_st ?m) Lkmem)" "lk_cpu (locks (smp_st ?m) Lkmem) = Some 0"
    using m(1) by (simp_all add: cpu_set_def)
  then show "smp_pc smp_contended 1 = Spin"
    using alone_spins[of ?m 1 Lkmem 2] m(2) by (simp add: smp_contended_def)
  show "smp_pc smp_contended 0 = Crit" "smp_pc smp_contended 2 = Idle"
    using m by (simp_all add: smp_contended_def run_alone_other)
qed

theorem spinlock_mutual_exclusion_witness:
  "smp_pc smp_contended 0 = Crit \<and> smp_pc smp_contended 1 = Spin \<and> smp_pc smp_contended 2 = Idle \<and>
   holding Lkmem (smp_view smp_contended 0) \<and> \<not> holding Lkmem (smp_view smp_contended 1) \<and>
   \<not> smp_owns smp_contended 1 \<and>
   release Lkmem (smp_view smp_contended 0) = Ok () (smp_view (run_alone Lkmem RELEASE 0 6 smp_contended) 0)"
  using spinlock_mutual_exclusion[OF smp_idle_start smp_contended_reach, of 0 1]
    spinlock_mutual_exclusion[OF smp_idle_start smp_contended_reach, of 1 1] smp_contended_pcs
  by (simp add: smp_owns_def)

end
