(* ===== verification/Kernel_String.thy ===== *)
theory Kernel_String
  imports Kernel_State
begin

text \<open>
  \<open>kernel/string.c\<close>. The block operations work on the memory; the string operations read
  through C pointers, modelled as functions from the offset to the byte found there, and those
  that store into an array return the bytes they store, first to last.
  The lemmas give the meaning of each loop: \<open>memset\<close> and \<open>memmove\<close> overwrite one run of bytes
  (with overlapping arguments too), \<open>strncmp\<close> compares the strings cut at \<open>n\<close>, \<open>safestrcpy\<close>
  always stores a terminating NUL within its bound.
\<close>

type_synonym cptr = "nat \<Rightarrow> u8"

definition ptr :: "memory \<Rightarrow> u64 \<Rightarrow> cptr" where
  "ptr m a i = m (a + of_nat i)"

definition arr :: "bytes \<Rightarrow> cptr" where
  "arr bs i = (if i < length bs then bs ! i else 0)"

section \<open>Block operations\<close>

primrec memset :: "memory \<Rightarrow> u64 \<Rightarrow> u8 \<Rightarrow> nat \<Rightarrow> memory" where
  "memset m dst c 0 = m"
| "memset m dst c (Suc i) = (memset m dst c i)(dst + of_nat i := c)"

primrec memcmp_at :: "cptr \<Rightarrow> cptr \<Rightarrow> nat \<Rightarrow> nat \<Rightarrow> int" where
  "memcmp_at s1 s2 i 0 = 0"
| "memcmp_at s1 s2 i (Suc n) =
     (if s1 i \<noteq> s2 i then uint (s1 i) - uint (s2 i) else memcmp_at s1 s2 (Suc i) n)"

definition memcmp :: "cptr \<Rightarrow> cptr \<Rightarrow> nat \<Rightarrow> int" where
  "memcmp v1 v2 n = memcmp_at v1 v2 0 n"

text \<open>\<open>while(n-- > 0) *d++ = *s++;\<close> and \<open>while(n-- > 0) *--d = *--s;\<close>\<close>

primrec copy_up :: "memory \<Rightarrow> u64 \<Rightarrow> u64 \<Rightarrow> nat \<Rightarrow> memory" where
  "copy_up m d s 0 = m"
| "copy_up m d s (Suc n) = copy_up (m(d := m s)) (d + 1) (s + 1) n"

primrec copy_down :: "memory \<Rightarrow> u64 \<Rightarrow> u64 \<Rightarrow> nat \<Rightarrow> memory" where
  "copy_down m d s 0 = m"
| "copy_down m d s (Suc n) = copy_down (m(d - 1 := m (s - 1))) (d - 1) (s - 1) n"

definition memmove :: "memory \<Rightarrow> u64 \<Rightarrow> u64 \<Rightarrow> nat \<Rightarrow> memory" where
  "memmove m dst src n =
     (if n = 0 then m
      else if src < dst \<and> src + of_nat n > dst
      then copy_down m (dst + of_nat n) (src + of_nat n) n
      else copy_up m dst src n)"

definition memcpy :: "memory \<Rightarrow> u64 \<Rightarrow> u64 \<Rightarrow> nat \<Rightarrow> memory" where
  "memcpy m dst src n = memmove m dst src n"

section \<open>Strings\<close>

primrec strncmp_at :: "cptr \<Rightarrow> cptr \<Rightarrow> nat \<Rightarrow> nat \<Rightarrow> int" where
  "strncmp_at p q i 0 = 0"
| "strncmp_at p q i (Suc n) =
     (if p i \<noteq> 0 \<and> p i = q i then strncmp_at p q (Suc i) n else uint (p i) - uint (q i))"

definition strncmp :: "cptr \<Rightarrow> cptr \<Rightarrow> nat \<Rightarrow> int" where
  "strncmp p q n = strncmp_at p q 0 n"

primrec strncpy_at :: "cptr \<Rightarrow> nat \<Rightarrow> nat \<Rightarrow> bytes" where
  "strncpy_at t i 0 = []"
| "strncpy_at t i (Suc n) = t i # (if t i \<noteq> 0 then strncpy_at t (Suc i) n else replicate n 0)"

definition strncpy :: "cptr \<Rightarrow> nat \<Rightarrow> bytes" where
  "strncpy t n = strncpy_at t 0 n"

text \<open>After a NUL is copied the loop has advanced \<open>s\<close> once more before \<open>*s = 0\<close>.\<close>

fun safestrcpy_at :: "cptr \<Rightarrow> nat \<Rightarrow> nat \<Rightarrow> bytes" where
  "safestrcpy_at t i 0 = []"
| "safestrcpy_at t i (Suc 0) = [0]"
| "safestrcpy_at t i (Suc (Suc n)) =
     t i # (if t i \<noteq> 0 then safestrcpy_at t (Suc i) (Suc n) else [0])"

definition safestrcpy :: "cptr \<Rightarrow> nat \<Rightarrow> bytes" where
  "safestrcpy t n = safestrcpy_at t 0 n"

text \<open>The counter is an \<open>int\<close>: beyond \<open>2 ^ 31 - 1\<close> the loop has no defined result.\<close>

partial_function (option) strlen_at :: "cptr \<Rightarrow> nat \<Rightarrow> nat option" where
  "strlen_at s n =
     (if s n \<noteq> 0 then if Suc n < 2 ^ 31 then strlen_at s (Suc n) else None else Some n)"

definition strlen :: "cptr \<Rightarrow> nat option" where
  "strlen s = strlen_at s 0"

section \<open>What the loops compute\<close>

lemma memset_mblit [byte_simps]:
  "n < 2 ^ 64 \<Longrightarrow> memset m dst c n = mblit m dst (replicate n c)"
proof (induction n)
  case 0
  then show ?case by (simp add: mblit_def)
next
  case (Suc n)
  have "(mblit m dst (replicate n c))(dst + of_nat n := c)
      = mblit (m(dst + of_nat (length (replicate n c)) := c)) dst (replicate n c)"
    using Suc.prems u64_eq_of_nat[of n] by (auto simp: mblit_def fun_eq_iff)
  also have "\<dots> = mblit m dst (replicate (Suc n) c)"
    using Suc.prems by (subst mblit_snoc) (simp_all add: replicate_append_same)
  finally show ?case using Suc by simp
qed

lemma copy_up_mblit:
  assumes "unat d + n < 2 ^ 64" and "unat s + n < 2 ^ 64" and "\<not> (s < d \<and> unat d < unat s + n)"
  shows "copy_up m d s n = mblit m d (mslice m s n)"
  using assms
proof (induction n arbitrary: m d s)
  case 0
  then show ?case by (simp add: mblit_def mslice_def)
next
  case (Suc n)
  have d1: "unat (d + 1) = unat d + 1" and s1: "unat (s + 1) = unat s + 1"
    using Suc.prems by (simp_all add: unat_word_ariths)
  let ?m = "m(d := m s)"
  have IH: "copy_up ?m (d + 1) (s + 1) n = mblit ?m (d + 1) (mslice ?m (s + 1) n)"
    using Suc.prems d1 s1 by (intro Suc.IH) (auto simp: word_less_nat_alt)
  have "s + 1 + of_nat i \<noteq> d" if "i < n" for i
  proof
    assume "s + 1 + of_nat i = d"
    then have "unat d = unat s + 1 + i"
      using that Suc.prems s1 unat_add_of_nat[of "s + 1" i] by simp
    with Suc.prems that show False by (auto simp: word_less_nat_alt)
  qed
  then have "mslice ?m (s + 1) n = mslice m (s + 1) n" by (rule mslice_upd_outside)
  then show ?case using Suc.prems by (simp add: IH mslice_Cons mblit_Cons)
qed

lemma copy_down_mblit:
  assumes "unat d + n < 2 ^ 64" and "unat s + n < 2 ^ 64" and "s < d"
  shows "copy_down m (d + of_nat n) (s + of_nat n) n = mblit m d (mslice m s n)"
  using assms
proof (induction n arbitrary: m)
  case 0
  then show ?case by (simp add: mblit_def mslice_def)
next
  case (Suc n)
  let ?m = "m(d + of_nat n := m (s + of_nat n))"
  have "s + of_nat i \<noteq> d + of_nat n" if "i < n" for i
  proof
    assume "s + of_nat i = d + of_nat n"
    then have "unat s + i = unat d + n"
      using that Suc.prems unat_add_of_nat[of s i] unat_add_of_nat[of d n] by simp
    with Suc.prems that show False by (auto simp: word_less_nat_alt)
  qed
  then have sl: "mslice ?m s n = mslice m s n" by (rule mslice_upd_outside)
  have "copy_down m (d + of_nat (Suc n)) (s + of_nat (Suc n)) (Suc n)
      = copy_down ?m (d + of_nat n) (s + of_nat n) n"
    by (simp add: add.commute)
  also have "\<dots> = mblit ?m d (mslice m s n)"
    unfolding sl[symmetric] using Suc.prems by (intro Suc.IH) auto
  also have "\<dots> = mblit m d (mslice m s (Suc n))"
    using mblit_snoc[of "mslice m s n" m d] Suc.prems by (simp add: mslice_snoc)
  finally show ?case .
qed

lemma memmove_mblit [byte_simps]:
  assumes "unat dst + n < 2 ^ 64" and "unat src + n < 2 ^ 64"
  shows "memmove m dst src n = mblit m dst (mslice m src n)"
proof (cases "n = 0")
  case True
  then show ?thesis by (simp add: memmove_def mblit_def mslice_def)
next
  case False
  have "unat (src + of_nat n) = unat src + n"
    using assms(2) by (rule unat_add_of_nat)
  with False assms show ?thesis
    using copy_down_mblit[of dst n src m] copy_up_mblit[of dst n src m]
    by (auto simp: memmove_def word_less_nat_alt)
qed

text \<open>The string a pointer denotes when it is read up to \<open>n\<close> bytes.\<close>

definition cstr :: "nat \<Rightarrow> cptr \<Rightarrow> bytes" where
  "cstr n p = takeWhile (\<lambda>b. b \<noteq> 0) (map p [0..<n])"

definition shift :: "nat \<Rightarrow> cptr \<Rightarrow> cptr" where
  "shift i p = (\<lambda>j. p (i + j))"

lemma cstr_Suc: "cstr (Suc n) (shift i p) = (if p i = 0 then [] else p i # cstr n (shift (Suc i) p))"
  by (simp add: cstr_def shift_def upt_conv_Cons map_Suc_upt[symmetric] comp_def del: upt_Suc map_Suc_upt)

lemma cstr_0 [simp]: "cstr 0 p = []"
  by (simp add: cstr_def)

lemma shift_0 [simp]: "shift 0 p = p"
  by (simp add: shift_def)

lemma uint_u8_eq_iff [simp]: "uint a = uint b \<longleftrightarrow> a = (b :: u8)"
  by (simp add: word_uint_eq_iff)

lemma uint_u8_0_iff [simp]: "uint a = 0 \<longleftrightarrow> a = (0 :: u8)"
  by (simp add: word_uint_eq_iff)

lemma strncmp_at_0_iff:
  "strncmp_at p q i n = 0 \<longleftrightarrow> cstr n (shift i p) = cstr n (shift i q)"
  by (induction n arbitrary: i) (auto simp: cstr_Suc)

lemma strncmp_0_iff: "strncmp p q n = 0 \<longleftrightarrow> cstr n p = cstr n q"
  using strncmp_at_0_iff[of p q 0 n] by (simp add: strncmp_def)

lemma memcmp_at_0_iff: "memcmp_at p q i n = 0 \<longleftrightarrow> (\<forall>j < n. p (i + j) = q (i + j))"
proof (induction n arbitrary: i)
  case 0
  then show ?case by simp
next
  case (Suc n)
  show ?case
    using Suc.IH[of "Suc i"] by (auto simp: All_less_Suc2)
qed

lemma length_strncpy [simp]: "length (strncpy t n) = n"
proof -
  have "length (strncpy_at t i n) = n" for i
    by (induction n arbitrary: i) auto
  then show ?thesis by (simp add: strncpy_def)
qed

lemma arr_Cons_Suc: "arr (b # bs) = (\<lambda>j. case j of 0 \<Rightarrow> b | Suc k \<Rightarrow> arr bs k)"
  by (rule ext) (auto simp: arr_def split: nat.splits)

lemma cstr_arr_Cons: "cstr (Suc n) (arr (b # bs)) = (if b = 0 then [] else b # cstr n (arr bs))"
proof -
  have "cstr (Suc n) (shift 0 (arr (b # bs)))
      = (if arr (b # bs) 0 = 0 then [] else arr (b # bs) 0 # cstr n (shift 1 (arr (b # bs))))"
    unfolding cstr_Suc by simp
  moreover have "shift 1 (arr (b # bs)) = arr bs"
    by (rule ext) (simp add: shift_def arr_Cons_Suc)
  ultimately show ?thesis by (simp add: arr_def)
qed

lemma cstr_strncpy: "cstr n (arr (strncpy t n)) = cstr n t"
proof -
  have "cstr n (arr (strncpy_at t i n)) = cstr n (shift i t)" for i
    by (induction n arbitrary: i) (auto simp: cstr_arr_Cons cstr_Suc)
  from this[of 0] show ?thesis by (simp add: strncpy_def)
qed

lemma safestrcpy_at_spec:
  "0 < n \<Longrightarrow> length (safestrcpy_at t i n) \<le> n \<and> last (safestrcpy_at t i n) = 0 \<and>
     safestrcpy_at t i n \<noteq> [] \<and>
     cstr n (arr (safestrcpy_at t i n)) = cstr (n - 1) (shift i t)"
proof (induction t i n rule: safestrcpy_at.induct)
  case (1 t i)
  then show ?case by simp
next
  case (2 t i)
  then show ?case by (simp add: cstr_arr_Cons)
next
  case (3 t i n)
  then show ?case
    by (cases "t i = 0") (auto simp: cstr_arr_Cons cstr_Suc)
qed

lemma strlen_at_NUL:
  assumes "\<And>j. i \<le> j \<Longrightarrow> j < k \<Longrightarrow> s j \<noteq> 0" and "s k = 0" and "i \<le> k" and "k < 2 ^ 31"
  shows "strlen_at s i = Some k"
  using assms
proof (induction "k - i" arbitrary: i)
  case 0
  then show ?case by (simp add: strlen_at.simps)
next
  case (Suc n)
  then have "strlen_at s (Suc i) = Some k" by (intro Suc.hyps(1)) auto
  with Suc show ?case by (subst strlen_at.simps) auto
qed

text \<open>C8: memmove copies correctly even when source and destination overlap: whatever the
  position of the two runs (as long as neither wraps around the address space), the
  destination ends up with the bytes the source had before the call and no other byte changes.\<close>
theorem memmove_overlap_safe:
  assumes "unat dst + n < 2 ^ 64" and "unat src + n < 2 ^ 64"
  shows "mslice (memmove m dst src n) dst n = mslice m src n \<and>
         (\<forall>a. n \<le> unat (a - dst) \<longrightarrow> memmove m dst src n a = m a)"
  using assms by (simp add: byte_simps) (simp add: mblit_def)

theorem memmove_overlap_safe_witness:
  "mslice (memmove (\<lambda>a. ucast a) 0x1001 0x1000 4) 0x1001 4 = mslice (\<lambda>a. ucast a) 0x1000 4"
  using memmove_overlap_safe[of "0x1001" 4 "0x1000" "\<lambda>a. ucast a"] by simp

text \<open>C9: safestrcpy with a positive bound n stores at most n bytes, the last of them NUL, and the
  string it stores is the source string cut to n-1 characters; strncpy fills exactly n bytes
  and keeps the string cut at n (so it is not NUL-terminated when the source is longer);
  strncmp answers 0 exactly when the two strings cut at n are equal.\<close>
theorem string_copies_spec:
  assumes "0 < n"
  shows "length (safestrcpy t n) \<le> n \<and> last (safestrcpy t n) = 0 \<and>
         cstr n (arr (safestrcpy t n)) = cstr (n - 1) t \<and>
         length (strncpy t n) = n \<and> cstr n (arr (strncpy t n)) = cstr n t \<and>
         (strncmp p q n = 0 \<longleftrightarrow> cstr n p = cstr n q)"
  using safestrcpy_at_spec[OF assms, of t 0]
  by (simp add: safestrcpy_def cstr_strncpy strncmp_0_iff)

theorem string_copies_spec_witness:
  "safestrcpy (arr [105, 110, 105, 116, 0]) 3 = [105, 110, 0] \<and>
   cstr 3 (arr (safestrcpy (arr [105, 110, 105, 116, 0]) 3)) = cstr 2 (arr [105, 110, 105, 116, 0])"
  (is "?run \<and> ?cut")
proof
  show ?run by code_simp
  show ?cut using string_copies_spec[of 3 "arr [105, 110, 105, 116, 0]"] by simp
qed

end
