(* ===== verification/Kalloc.thy ===== *)
theory Kalloc
  imports Spinlock Kernel_String "HOL-Library.Multiset"
begin

text \<open>
  \<open>kernel/kalloc.c\<close>, the physical page allocator. The free list is a chain of addresses stored
  in the first eight bytes of the free pages themselves, as in the source. \<open>kmem_inv s xs\<close>
  says that the chain from \<open>kmem.freelist\<close> visits exactly the pages \<open>xs\<close>, each of them an
  aligned page of allocatable RAM and none twice; the operations are shown to be push and pop
  on that list. The locale \<open>page_allocator\<close> is the interface the rest of the kernel relies on.
\<close>

section \<open>Code\<close>

text \<open>
  \<open>memset(p, c, PGSIZE)\<close> on a page. The typed stores are views of the same memory, so the
  structs they hold at that page are overwritten as well.
\<close>

definition fill_tf :: "u8 \<Rightarrow> trapframe" where
  "fill_tf c = (let w = le_dec (replicate 8 c) in
     \<lparr>tf_kernel_satp = w, tf_kernel_sp = w, tf_kernel_trap = w, tf_epc = w,
      tf_kernel_hartid = w, tf_ra = w, tf_sp = w, tf_gp = w, tf_tp = w, tf_t = (\<lambda>_. w),
      tf_s = (\<lambda>_. w), tf_a0 = w, tf_a1 = w, tf_a2 = w, tf_a3 = w, tf_a4 = w, tf_a5 = w,
      tf_a6 = w, tf_a7 = w\<rparr>)"

definition fill_pipe :: "u8 \<Rightarrow> pipe" where
  "fill_pipe c = (let w = le_dec (replicate 4 c) in
     \<lparr>pi_data = (\<lambda>_. c), pi_nread = w, pi_nwrite = w, pi_readopen = (c \<noteq> 0),
      pi_writeopen = (c \<noteq> 0)\<rparr>)"

definition fill_page :: "u64 \<Rightarrow> u8 \<Rightarrow> kst \<Rightarrow> kst" where
  "fill_page p c s =
     s\<lparr>mem := memset (mem s) p c 4096, tfs := (tfs s)(p := fill_tf c),
       pipes := (pipes s)(p := fill_pipe c)\<rparr>"

definition kfree :: "u64 \<Rightarrow> kst \<Rightarrow> unit k" where
  "kfree pa s =
     (if pa mod PGSIZE \<noteq> 0 \<or> pa < sym_end (syms s) \<or> pa \<ge> PHYSTOP then Panic ''kfree''
      else
        let s = fill_page pa 1 s in
        bnd (acquire Lkmem s) (\<lambda>_ s.
        let s = s\<lparr>mem := mwr64 (mem s) pa (freelist s)\<rparr>;
            s = s\<lparr>freelist := pa\<rparr>
        in release Lkmem s))"

lemma kfree_Ok_lt: "kfree pa s = Ok u t \<Longrightarrow> pa < PHYSTOP"
  by (auto simp: kfree_def split: if_splits)

function freerange_loop :: "u64 \<Rightarrow> u64 \<Rightarrow> kst \<Rightarrow> unit k" where
  "freerange_loop p pa_end s =
     (if p + PGSIZE \<le> pa_end
      then bnd (kfree p s) (\<lambda>_ s. freerange_loop (p + PGSIZE) pa_end s)
      else Ok () s)"
  by auto
termination
proof (relation "measure (\<lambda>(p, e, s). unat PHYSTOP - unat p)")
  fix p pa_end :: u64 and s t :: kst and u :: unit
  assume "kfree p s = Ok u t"
  then have "unat p < unat PHYSTOP" using kfree_Ok_lt by (simp only: word_less_nat_alt)
  then show "((p + PGSIZE, pa_end, t), p, pa_end, s) \<in> measure (\<lambda>(p, e, s). unat PHYSTOP - unat p)"
    by (simp add: unat_word_ariths)
qed simp

definition freerange :: "u64 \<Rightarrow> u64 \<Rightarrow> kst \<Rightarrow> unit k" where
  "freerange pa_start pa_end s = freerange_loop (PGROUNDUP pa_start) pa_end s"

definition kinit :: "kst \<Rightarrow> unit k" where
  "kinit s = freerange (sym_end (syms s)) PHYSTOP (initlock Lkmem ''kmem'' s)"

text \<open>A null pointer is address 0, as in C.\<close>

definition kalloc :: "kst \<Rightarrow> u64 k" where
  "kalloc s =
     bnd (acquire Lkmem s) (\<lambda>_ s.
     let r = freelist s;
         s = (if r \<noteq> 0 then s\<lparr>freelist := mrd64 (mem s) r\<rparr> else s)
     in bnd (release Lkmem s) (\<lambda>_ s.
     Ok r (if r \<noteq> 0 then fill_page r 5 s else s)))"

declare freerange_loop.simps [simp del]

section \<open>Pages\<close>

definition page_ok :: "u64 \<Rightarrow> u64 \<Rightarrow> bool" where
  "page_ok lo p \<longleftrightarrow> p mod PGSIZE = 0 \<and> lo \<le> p \<and> p < PHYSTOP"


lemma aligned_unat: "(p :: u64) mod 4096 = 0 \<longleftrightarrow> 4096 dvd unat p"
proof -
  have "p mod 4096 = 0 \<longleftrightarrow> unat (p mod 4096) = unat (0 :: u64)"
    by (simp only: word_unat_eq_iff)
  also have "\<dots> \<longleftrightarrow> unat p mod 4096 = 0"
    by (simp add: unat_mod)
  finally show ?thesis by (simp add: dvd_eq_mod_eq_0)
qed

lemma aligned_diff:
  assumes "(x :: u64) mod 4096 = 0" and "y mod 4096 = 0"
  shows "4096 dvd unat (x - y)"
proof -
  have "4096 dvd (2 ^ 64 :: nat)" by simp
  then show ?thesis
    using assms unfolding aligned_unat
    by (auto simp: unat_sub_if_size word_size dvd_diff_nat)
qed

lemma page_disjoint:
  assumes "(x :: u64) mod 4096 = 0" and "y mod 4096 = 0" and "x \<noteq> y" and "j < 4096"
  shows "4096 \<le> unat (x + of_nat j - y)"
proof -
  obtain q where q: "unat (x - y) = 4096 * q" using aligned_diff[OF assms(1,2)] by (rule dvdE)
  have "x - y \<noteq> 0" using assms(3) by simp
  then have "unat (x - y) \<noteq> 0" by (simp only: unat_eq_0 not_False_eq_True)
  with q have "1 \<le> q" by (cases q) auto
  moreover have "4096 * q < 2 ^ 64" using q unat_lt64[of "x - y"] by simp
  then have "unat (x - y) + j < 2 ^ 64" using q assms(4) by simp
  then have "unat (x - y + of_nat j) = unat (x - y) + j" by (rule unat_add_of_nat)
  ultimately show ?thesis using q by (simp add: algebra_simps)
qed

lemma page_disjoint_run:
  "x mod 4096 = 0 \<Longrightarrow> y mod 4096 = 0 \<Longrightarrow> x \<noteq> y \<Longrightarrow> k \<le> 4096 \<Longrightarrow> l \<le> 4096 \<Longrightarrow> disjoint_run x k y l"
  unfolding disjoint_run_def using page_disjoint[of x y] by (meson leD le_less_trans less_le_trans not_le)

lemma and_not_mask: "(a :: u64) AND NOT (mask n) = push_bit n (drop_bit n a)"
  by (rule bit_eqI) (auto simp: bit_simps)

lemma round_down_unat: "unat (a AND - 4096 :: u64) = 4096 * (unat a div 4096)"
proof -
  have "a AND - 4096 = push_bit 12 (drop_bit 12 a)"
    using and_not_mask[of a 12] by (simp add: mask_eq_exp_minus_1)
  moreover have "unat (push_bit 12 (drop_bit 12 a)) = 4096 * (unat a div 4096)"
    using unat_lt64[of a]
    by (simp add: push_bit_eq_mult drop_bit_eq_div unat_word_ariths unat_div)
  ultimately show ?thesis by simp
qed

lemma PGROUNDDOWN_unat: "unat (PGROUNDDOWN a) = 4096 * (unat a div 4096)"
  by (simp add: PGROUNDDOWN_def round_down_unat)

lemma PGROUNDUP_unat:
  assumes "unat a + 4095 < 2 ^ 64"
  shows "unat (PGROUNDUP a) = 4096 * ((unat a + 4095) div 4096)"
proof -
  have "unat (a + 4095) = unat a + 4095"
    using assms unat_add_of_nat[of a 4095] by simp
  moreover have "PGROUNDUP a = (a + 4095) AND - 4096" by (simp add: PGROUNDUP_def add.commute)
  ultimately show ?thesis by (simp add: round_down_unat)
qed

lemma PGROUND_aligned: "PGROUNDDOWN a mod 4096 = 0" "PGROUNDUP a mod 4096 = 0"
  by (simp_all add: aligned_unat PGROUNDDOWN_def PGROUNDUP_def round_down_unat)

section \<open>The free list\<close>

primrec flist :: "memory \<Rightarrow> u64 \<Rightarrow> u64 list \<Rightarrow> bool" where
  "flist m p [] \<longleftrightarrow> p = 0"
| "flist m p (x # xs) \<longleftrightarrow> p = x \<and> x \<noteq> 0 \<and> flist m (mrd64 m x) xs"

definition kmem_inv :: "kst \<Rightarrow> u64 list \<Rightarrow> bool" where
  "kmem_inv s xs \<longleftrightarrow> flist (mem s) (freelist s) xs \<and> distinct xs \<and>
     (\<forall>x \<in> set xs. page_ok (sym_end (syms s)) x) \<and> 0 < sym_end (syms s)"

lemma flist_cong:
  "(\<And>x. x \<in> set xs \<Longrightarrow> mrd64 m x = mrd64 m' x) \<Longrightarrow> flist m p xs = flist m' p xs"
  by (induction xs arbitrary: p) auto

text \<open>Writing into a page that is not free does not disturb the chain.\<close>

lemma flist_mblit:
  assumes "flist m p xs" and "\<forall>x \<in> set xs. x mod 4096 = 0" and "y mod 4096 = 0" and "y \<notin> set xs"
    and "length bs \<le> 4096"
  shows "flist (mblit m y bs) p xs"
proof -
  have "mrd64 (mblit m y bs) x = mrd64 m x" if "x \<in> set xs" for x
    using assms that by (intro mrd64_mblit_disjoint page_disjoint_run) auto
  then show ?thesis using assms(1) flist_cong[of xs m "mblit m y bs"] by simp
qed

lemma flist_head: "flist m p xs \<Longrightarrow> p = 0 \<longleftrightarrow> xs = []"
  by (cases xs) auto

lemma flist_unique: "flist m p xs \<Longrightarrow> flist m p ys \<Longrightarrow> xs = ys"
  by (induction xs arbitrary: p ys) (case_tac ys; auto)+

lemma page_ok_nonzero: "page_ok lo p \<Longrightarrow> 0 < lo \<Longrightarrow> p \<noteq> 0"
  by (auto simp: page_ok_def)

section \<open>Push and pop\<close>

definition freed :: "u64 \<Rightarrow> kst \<Rightarrow> kst" where
  "freed pa s = (fill_page pa 1 s)\<lparr>mem := mwr64 (mblit (mem s) pa (replicate 4096 1)) pa (freelist s),
                                    freelist := pa\<rparr>"

definition popped :: "kst \<Rightarrow> kst" where
  "popped s = (let r = freelist s in
     if r = 0 then s else fill_page r 5 (s\<lparr>freelist := mrd64 (mem s) r\<rparr>))"

lemma fill_page_mem [simp]: "mem (fill_page p c s) = mblit (mem s) p (replicate 4096 c)"
  by (simp add: fill_page_def memset_mblit)

lemma fill_page_select [simp]:
  "freelist (fill_page p c s) = freelist s" "syms (fill_page p c s) = syms s"
  "locks (fill_page p c s) = locks s" "hart (fill_page p c s) = hart s"
  "cpus (fill_page p c s) = cpus s" "procs (fill_page p c s) = procs s"
  "free_lock l (fill_page p c s) = free_lock l s" "cpu_ok (fill_page p c s) = cpu_ok s"
  by (simp_all add: fill_page_def free_lock_def cpu_ok_def intr_get_def)

lemma kfree_Ok:
  assumes "page_ok (sym_end (syms s)) pa" and "free_lock Lkmem s" and "cpu_ok s"
  shows "kfree pa s = Ok () (settle (freed pa s))"
proof -
  have "\<not> (pa mod 4096 \<noteq> 0 \<or> pa < sym_end (syms s) \<or> PHYSTOP \<le> pa)"
    using assms(1) by (auto simp: page_ok_def)
  then show ?thesis
    using assms(2,3)
    by (simp add: kfree_def freed_def lock_simps fill_page_def Let_def memset_mblit)
qed

lemma kalloc_Ok:
  assumes "free_lock Lkmem s" and "cpu_ok s"
  shows "kalloc s = Ok (freelist s) (settle (popped s))"
  using assms by (auto simp: kalloc_def popped_def lock_simps fill_page_def Let_def)

lemma freed_select [simp]:
  "freelist (freed p s) = p" "syms (freed p s) = syms s"
  "free_lock l (freed p s) = free_lock l s" "cpu_ok (freed p s) = cpu_ok s"
  by (simp_all add: freed_def fill_page_def free_lock_def cpu_ok_def intr_get_def)

lemma popped_select [simp]:
  "syms (popped s) = syms s" "free_lock l (popped s) = free_lock l s" "cpu_ok (popped s) = cpu_ok s"
  by (simp_all add: popped_def fill_page_def free_lock_def cpu_ok_def intr_get_def Let_def)

lemma kmem_inv_settle [simp]: "kmem_inv (settle s) xs = kmem_inv s xs"
  by (simp add: kmem_inv_def lock_simps)

lemma kmem_inv_freed:
  assumes "kmem_inv s xs" and "page_ok (sym_end (syms s)) pa" and "pa \<notin> set xs"
  shows "kmem_inv (freed pa s) (pa # xs)"
proof -
  let ?m = "mblit (mblit (mem s) pa (replicate 4096 1)) pa (le_enc 8 (freelist s))"
  have al: "\<forall>x \<in> set xs. x mod 4096 = 0" "pa mod 4096 = 0"
    using assms by (auto simp: kmem_inv_def page_ok_def)
  have "flist (mblit (mem s) pa (replicate 4096 1)) (freelist s) xs"
    using assms al by (intro flist_mblit) (auto simp: kmem_inv_def)
  then have "flist ?m (freelist s) xs"
    by (rule flist_mblit) (use assms al in auto)
  moreover have "mrd64 ?m pa = freelist s"
    using mrd64_mwr64 by (simp add: mwr64_def)
  ultimately show ?thesis
    using assms by (auto simp: kmem_inv_def freed_def mwr64_def dest: page_ok_nonzero)
qed

lemma kmem_inv_popped:
  assumes "kmem_inv s (x # xs)"
  shows "freelist s = x" and "kmem_inv (popped s) xs"
proof -
  show x: "freelist s = x" using assms by (simp add: kmem_inv_def)
  have "flist (mblit (mem s) x (replicate 4096 5)) (mrd64 (mem s) x) xs"
    using assms by (intro flist_mblit) (auto simp: kmem_inv_def page_ok_def)
  then show "kmem_inv (popped s) xs"
    using assms x by (auto simp: kmem_inv_def popped_def)
qed

section \<open>The interface of the allocator\<close>

text \<open>
  What the clients rely on: \<open>avail s xs\<close> says that exactly the pages \<open>xs\<close> can still be
  allocated; an allocation takes one of them or reports that there is none, and freeing a page
  that is in use makes it available again.
\<close>

locale page_allocator =
  fixes alloc :: "'s \<Rightarrow> ('s, u64) outcome"
    and free :: "u64 \<Rightarrow> 's \<Rightarrow> ('s, unit) outcome"
    and avail :: "'s \<Rightarrow> u64 list \<Rightarrow> bool"
    and page :: "'s \<Rightarrow> u64 \<Rightarrow> bool"
  assumes avail_pages: "avail s xs \<Longrightarrow> distinct xs \<and> 0 \<notin> set xs \<and> (\<forall>x \<in> set xs. page s x)"
    and alloc_some: "avail s (x # xs) \<Longrightarrow> \<exists>t. alloc s = Ok x t \<and> avail t xs \<and> page t = page s"
    and alloc_none: "avail s [] \<Longrightarrow> \<exists>t. alloc s = Ok 0 t \<and> avail t [] \<and> page t = page s"
    and free_page: "avail s xs \<Longrightarrow> page s p \<Longrightarrow> p \<notin> set xs \<Longrightarrow>
                      \<exists>t. free p s = Ok () t \<and> avail t (p # xs) \<and> page t = page s"

text \<open>A client that allocates \<open>n\<close> pages one after the other, and one that frees a list of pages.\<close>

primrec allocs :: "('s \<Rightarrow> ('s, u64) outcome) \<Rightarrow> nat \<Rightarrow> 's \<Rightarrow> ('s, u64 list) outcome" where
  "allocs alloc 0 s = Ok [] s"
| "allocs alloc (Suc n) s = bnd (alloc s) (\<lambda>p s. bnd (allocs alloc n s) (\<lambda>ps s. Ok (p # ps) s))"

context page_allocator
begin

lemma allocs_take:
  "avail s xs \<Longrightarrow> n \<le> length xs \<Longrightarrow>
     \<exists>t. allocs alloc n s = Ok (take n xs) t \<and> avail t (drop n xs) \<and> page t = page s"
proof (induction n arbitrary: s xs)
  case 0
  then show ?case by simp
next
  case (Suc n)
  then obtain x ys where xs: "xs = x # ys" by (cases xs) auto
  from alloc_some[of s x ys] Suc.prems xs obtain s1
    where "alloc s = Ok x s1" and "avail s1 ys" and "page s1 = page s" by auto
  with Suc.IH[of s1 ys] Suc.prems xs show ?case by auto
qed

lemma frees_all:
  "avail s xs \<Longrightarrow> distinct ps \<Longrightarrow> set ps \<inter> set xs = {} \<Longrightarrow> \<forall>p \<in> set ps. page s p \<Longrightarrow>
     \<exists>t. for_each ps free s = Ok () t \<and> avail t (rev ps @ xs) \<and> page t = page s"
proof (induction ps arbitrary: s xs)
  case Nil
  then show ?case by simp
next
  case (Cons p ps)
  then obtain s1 where s1: "free p s = Ok () s1" "avail s1 (p # xs)" "page s1 = page s"
    using free_page[of s xs p] by auto
  with Cons.IH[of s1 "p # xs"] Cons.prems show ?case by auto
qed

lemma allocs_frees:
  assumes "avail s xs" and "n \<le> length xs" and "mset ps = mset (take n xs)"
  shows "\<exists>t u. allocs alloc n s = Ok (take n xs) t \<and> distinct (take n xs) \<and>
               for_each ps free t = Ok () u \<and> avail u (rev ps @ drop n xs)"
proof -
  from allocs_take[OF assms(1,2)] obtain t
    where t: "allocs alloc n s = Ok (take n xs) t" "avail t (drop n xs)" "page t = page s" by auto
  have xs: "distinct xs" "\<forall>x \<in> set xs. page s x" using avail_pages[OF assms(1)] by auto
  have ps: "set ps = set (take n xs)" using assms(3) by (rule mset_eq_setD)
  have dps: "distinct ps" using mset_eq_imp_distinct_iff[OF assms(3)] xs(1) by simp
  have "set (take n xs) \<inter> set (drop n xs) = {}" using xs(1) by (rule set_take_disj_set_drop_if_distinct) simp
  then obtain u where "for_each ps free t = Ok () u" "avail u (rev ps @ drop n xs)"
    using frees_all[OF t(2) dps] ps xs(2) t(3) in_set_takeD[of _ n xs] by auto
  with t xs show ?thesis by auto
qed

end

definition kavail :: "kst \<Rightarrow> u64 list \<Rightarrow> bool" where
  "kavail s xs \<longleftrightarrow> kmem_inv s xs \<and> free_lock Lkmem s \<and> cpu_ok s"

definition kpage :: "kst \<Rightarrow> u64 \<Rightarrow> bool" where
  "kpage s = page_ok (sym_end (syms s))"

lemma kavail_settle [simp]: "kavail (settle s) xs = kavail s xs" "kpage (settle s) = kpage s"
  by (simp_all add: kavail_def lock_simps kpage_def)

interpretation kmem: page_allocator kalloc kfree kavail kpage
proof
  fix s xs
  show "kavail s xs \<Longrightarrow> distinct xs \<and> 0 \<notin> set xs \<and> (\<forall>x \<in> set xs. kpage s x)"
    by (auto simp: kavail_def kmem_inv_def kpage_def dest: page_ok_nonzero)
next
  fix s x xs
  assume "kavail s (x # xs)"
  then have "kalloc s = Ok x (settle (popped s))" "kavail (popped s) xs" "kpage (popped s) = kpage s"
    using kmem_inv_popped[of s x xs] kalloc_Ok[of s] by (simp_all add: kavail_def kpage_def)
  then show "\<exists>t. kalloc s = Ok x t \<and> kavail t xs \<and> kpage t = kpage s" by simp
next
  fix s
  assume "kavail s []"
  then have "kalloc s = Ok 0 (settle s)"
    using kalloc_Ok[of s] by (simp add: kavail_def kmem_inv_def popped_def)
  with \<open>kavail s []\<close> show "\<exists>t. kalloc s = Ok 0 t \<and> kavail t [] \<and> kpage t = kpage s" by simp
next
  fix s xs p
  assume "kavail s xs" and "kpage s p" and "p \<notin> set xs"
  then have "kfree p s = Ok () (settle (freed p s))" "kavail (freed p s) (p # xs)"
    "kpage (freed p s) = kpage s"
    using kmem_inv_freed[of s xs p] kfree_Ok[of s p] by (simp_all add: kavail_def kpage_def)
  then show "\<exists>t. kfree p s = Ok () t \<and> kavail t (p # xs) \<and> kpage t = kpage s" by simp
qed

lemma zero_kst_avail: "kavail zero_kst []"
  by (simp add: kavail_def kmem_inv_def) (simp add: zero_kst_def)

section \<open>Initialisation\<close>

lemma next_page:
  assumes "(p :: u64) mod 4096 = 0" and "q mod 4096 = 0" and "p \<le> q" and "unat p + 4096 < 2 ^ 64"
  shows "p = q \<or> p + 4096 \<le> q"
proof -
  have p1: "unat (p + 4096) = unat p + 4096" using unat_add_of_nat[of p 4096] assms(4) by simp
  obtain a b where ab: "unat p = 4096 * a" "unat q = 4096 * b"
    using assms(1,2) by (auto simp: aligned_unat elim!: dvdE)
  have "a \<le> b" using assms(3) ab by (simp add: word_le_nat_alt)
  then consider "a = b" | "a + 1 \<le> b" by linarith
  then show ?thesis
  proof cases
    case 1
    then have "unat p = unat q" using ab by simp
    then have "p = q" by (simp only: word_unat_eq_iff)
    then show ?thesis by simp
  next
    case 2
    then have "unat p + 4096 \<le> unat q" using ab by linarith
    then have "p + 4096 \<le> q" using p1 by (simp only: word_le_nat_alt)
    then show ?thesis by simp
  qed
qed

lemma freerange_loop_Ok:
  assumes "kavail s xs" and "page_ok lo p \<or> p = PHYSTOP" and "lo = sym_end (syms s)"
    and "unat p + 4096 * n = unat PHYSTOP" and "\<forall>x \<in> set xs. x < p"
  shows "\<exists>t ys. freerange_loop p PHYSTOP s = Ok () t \<and> kavail t (ys @ xs) \<and> syms t = syms s \<and>
                set ys = {q. page_ok lo q \<and> p \<le> q}"
  using assms
proof (induction n arbitrary: p s xs)
  case 0
  then have p: "p = PHYSTOP" by (simp add: word_unat_eq_iff)
  then have none: "{q. page_ok lo q \<and> p \<le> q} = {}" by (auto simp: page_ok_def)
  have "freerange_loop p PHYSTOP s = Ok () s" using p by (subst freerange_loop.simps) simp
  with 0 none show ?case by (intro exI[of _ s] exI[of _ "[]"]) simp
next
  case (Suc n)
  have pu: "unat p + 4096 * Suc n = 0x88000000" using Suc.prems(4) by simp
  then have p1: "unat (p + 4096) = unat p + 4096" using unat_add_of_nat[of p 4096] by simp
  have le: "p + 4096 \<le> PHYSTOP" using pu p1 by (simp add: word_le_nat_alt)
  have lt: "p < p + 4096" using p1 by (simp add: word_less_nat_alt)
  have ok: "page_ok lo p" using Suc.prems(2) pu by auto
  have nxs: "p \<notin> set xs" using Suc.prems(5) by auto
  have s1: "kfree p s = Ok () (settle (freed p s))" "kavail (settle (freed p s)) (p # xs)"
    using kfree_Ok[of s p] kmem_inv_freed[of s xs p] Suc.prems(1,3) ok nxs
    by (simp_all add: kavail_def lock_simps)
  have "p + 4096 < PHYSTOP \<or> p + 4096 = PHYSTOP" using le by (rule order_le_imp_less_or_eq)
  moreover have "(p + 4096) mod 4096 = 0" using ok p1 by (simp add: page_ok_def aligned_unat)
  moreover have "lo \<le> p + 4096" using ok lt unfolding page_ok_def by (meson less_imp_le order_trans)
  ultimately have "page_ok lo (p + 4096) \<or> p + 4096 = PHYSTOP" unfolding page_ok_def by blast
  note next_ok = this
  have sy: "syms (settle (freed p s)) = syms s" by (simp add: lock_simps)
  have "x < p + 4096" if "x \<in> set (p # xs)" for x
    using that Suc.prems(5) lt by (auto intro: less_trans)
  then obtain t ys where t: "freerange_loop (p + 4096) PHYSTOP (settle (freed p s)) = Ok () t"
      "kavail t (ys @ p # xs)" "syms t = syms s" "set ys = {q. page_ok lo q \<and> p + 4096 \<le> q}"
    using Suc.IH[OF s1(2) next_ok] Suc.prems(3) pu p1 sy by auto
  have "p \<le> q \<longleftrightarrow> q = p \<or> p + 4096 \<le> q" if "page_ok lo q" for q
    using that ok next_page[of p q] pu lt unfolding page_ok_def by auto
  then have "{q. page_ok lo q \<and> p \<le> q} = insert p {q. page_ok lo q \<and> p + 4096 \<le> q}"
    using ok by auto
  moreover have "freerange_loop p PHYSTOP s = Ok () t"
    using s1 t le by (subst freerange_loop.simps) simp
  ultimately show ?case
    using t by (intro exI[of _ t] exI[of _ "ys @ [p]"]) auto
qed

lemma kinit_pages:
  assumes "cpu_ok s" and "0 < sym_end (syms s)" and "sym_end (syms s) \<le> PHYSTOP" and "freelist s = 0"
  shows "\<exists>t xs. kinit s = Ok () t \<and> kavail t xs \<and> syms t = syms s \<and>
                set xs = {p. page_ok (sym_end (syms s)) p}"
proof -
  let ?e = "sym_end (syms s)" and ?s = "initlock Lkmem ''kmem'' s"
  let ?p = "PGROUNDUP ?e"
  have e: "unat ?e \<le> 0x88000000" using assms(3) by (simp add: word_le_nat_alt)
  then have p: "unat ?p = 4096 * ((unat ?e + 4095) div 4096)" by (intro PGROUNDUP_unat) simp
  have pe: "unat ?e \<le> unat ?p" using p by linarith
  have "(unat ?e + 4095) div 4096 \<le> 0x88000" using e by linarith
  then have pP: "unat ?p \<le> 0x88000000" using p by simp
  have le: "?e \<le> ?p" using pe by (simp only: word_le_nat_alt)
  have "4096 dvd (0x88000000 - unat ?p)" unfolding p by (rule dvd_diff_nat) simp_all
  then obtain n where "0x88000000 - unat ?p = 4096 * n" by (rule dvdE)
  then have n: "unat ?p + 4096 * n = unat PHYSTOP" using pP by simp
  have ok: "page_ok ?e ?p \<or> ?p = PHYSTOP"
    using le pP PGROUND_aligned(2)[of ?e] by (auto simp: page_ok_def word_le_nat_alt word_less_nat_alt word_unat_eq_iff)
  have av: "kavail ?s []"
    using assms by (simp add: kavail_def kmem_inv_def initlock_def free_lock_def cpu_ok_def intr_get_def)
  have sy: "syms ?s = syms s" by (simp add: initlock_def)
  have "?p \<le> q" if "page_ok ?e q" for q
  proof -
    have "unat ?e \<le> unat q" "4096 dvd unat q" using that by (auto simp: page_ok_def word_le_nat_alt aligned_unat)
    then have "unat ?p \<le> unat q" unfolding p by (auto elim!: dvdE)
    then show ?thesis by (simp only: word_le_nat_alt)
  qed
  then have "{q. page_ok ?e q \<and> ?p \<le> q} = {q. page_ok ?e q}" by auto
  then show ?thesis
    using freerange_loop_Ok[OF av ok _ n] sy by (simp add: kinit_def freerange_def)
qed

text \<open>C5: Booting hands every page to the allocator: from any state with an empty free list,
  kinit returns, and the free list then consists of exactly the page-aligned addresses between
  the end of the kernel image and PHYSTOP, each once, and the allocator is ready for use.\<close>
theorem kinit_frees_all_pages:
  assumes "cpu_ok s" and "0 < sym_end (syms s)" and "sym_end (syms s) \<le> PHYSTOP" and "freelist s = 0"
  shows "\<exists>t xs. kinit s = Ok () t \<and> flist (mem t) (freelist t) xs \<and> distinct xs \<and>
                set xs = {p. page_ok (sym_end (syms s)) p} \<and> free_lock Lkmem t"
proof -
  from kinit_pages[OF assms] obtain t xs where "kinit s = Ok () t" "kavail t xs"
    "set xs = {p. page_ok (sym_end (syms s)) p}" by auto
  then show ?thesis by (auto simp: kavail_def kmem_inv_def)
qed

theorem kinit_frees_all_pages_witness:
  "\<exists>t xs. kinit zero_kst = Ok () t \<and> flist (mem t) (freelist t) xs \<and> distinct xs \<and>
          set xs = {p. page_ok 0x80022000 p} \<and> free_lock Lkmem t"
  using kinit_frees_all_pages[of zero_kst] zero_kst_avail by (simp add: kavail_def kmem_inv_def)

text \<open>C4: Pages are conserved: when n pages are available, n calls of kalloc return n different
  pages, the first n of the free list, and after those pages are given back by kfree in any
  order the free list holds the same pages as before.\<close>
theorem kalloc_kfree_conserve:
  assumes "kavail s xs" and "n \<le> length xs" and "mset ps = mset (take n xs)"
  shows "\<exists>t u. allocs kalloc n s = Ok (take n xs) t \<and> distinct (take n xs) \<and>
               for_each ps kfree t = Ok () u \<and> kavail u (rev ps @ drop n xs) \<and>
               mset (rev ps @ drop n xs) = mset xs"
  using kmem.allocs_frees[OF assms] assms(3) by (metis append_take_drop_id mset_append mset_rev)

theorem kalloc_kfree_conserve_witness:
  "\<exists>t u. allocs kalloc 1 (freed 0x80023000 zero_kst) = Ok [0x80023000] t \<and>
         for_each [0x80023000] kfree t = Ok () u \<and> kavail u [0x80023000]"
proof -
  have "kmem_inv zero_kst []" using zero_kst_avail by (simp add: kavail_def)
  then have "kmem_inv (freed 0x80023000 zero_kst) [0x80023000]"
    by (rule kmem_inv_freed) (simp_all add: page_ok_def)
  then have "kavail (freed 0x80023000 zero_kst) [0x80023000]"
    by (simp add: kavail_def)
  from kalloc_kfree_conserve[OF this, of 1 "[0x80023000]"] show ?thesis by auto
qed

lemma freed_junk: "mslice (mem (freed pa s)) (pa + 8) 4088 = replicate 4088 1"
proof (rule nth_equalityI)
  fix i assume "i < length (mslice (mem (freed pa s)) (pa + 8) 4088)"
  then have i: "i < 4088" by simp
  have "mem (freed pa s) (pa + of_nat (8 + i)) = 1"
    using i by (simp add: freed_def mwr64_def mblit_at del: of_nat_add)
  then show "mslice (mem (freed pa s)) (pa + 8) 4088 ! i = replicate 4088 1 ! i"
    using i by (simp add: mslice_def add.assoc)
qed simp

text \<open>C6: kfree accepts exactly the pages kalloc can hand out: with the allocator's lock free it
  panics for an address that is unaligned, below the end of the kernel or not below PHYSTOP,
  and for every other address it returns with that page first on the free list, its link
  pointing to the old head and its remaining bytes set to 1.\<close>
theorem kfree_checks_address:
  assumes "free_lock Lkmem s" and "cpu_ok s"
  shows "kfree pa s =
           (if page_ok (sym_end (syms s)) pa then Ok () (settle (freed pa s)) else Panic ''kfree'')
         \<and> freelist (settle (freed pa s)) = pa \<and> mrd64 (mem (settle (freed pa s))) pa = freelist s
         \<and> mslice (mem (settle (freed pa s))) (pa + 8) 4088 = replicate 4088 1"
  using kfree_Ok[OF _ assms, of pa] freed_junk[of pa s]
  by (auto simp: kfree_def page_ok_def lock_simps freed_def byte_simps)

theorem kfree_checks_address_witness:
  "kfree 0x80022800 zero_kst = Panic ''kfree'' \<and>
   kfree 0x80023000 zero_kst = Ok () (settle (freed 0x80023000 zero_kst))"
  using kfree_checks_address[of zero_kst "0x80022800"] kfree_checks_address[of zero_kst "0x80023000"]
  by (simp add: page_ok_def)

end
