(* ===== verification/Vm.thy ===== *)
theory Vm
  imports Kalloc
begin

text \<open>
  \<open>kernel/vm.c\<close> and \<open>proc_mapstacks\<close> of \<open>proc.c\<close>: Sv39 page tables, kept in the byte-addressed
  memory as in the source, and copying between kernel and user memory. A page-table entry is
  the 64-bit word at \<open>pagetable + 8 * PX(level, va)\<close>. The kernel-side buffer of \<open>copyout\<close>,
  \<open>copyin\<close> and \<open>copyinstr\<close> always belongs to a struct or a local array of the caller; the
  bytes read from it are an argument, and the bytes stored into it are part of the result.
\<close>

section \<open>Walking a page table\<close>

text \<open>
  \<open>None\<close> is the early \<open>return 0\<close> of the loop of \<open>walk\<close>, \<open>Some pt\<close> the value of \<open>pagetable\<close>
  after it.
\<close>

primrec walk_levels :: "nat \<Rightarrow> u64 \<Rightarrow> u64 \<Rightarrow> bool \<Rightarrow> kst \<Rightarrow> u64 option k" where
  "walk_levels 0 pagetable va alloc s = Ok (Some pagetable) s"
| "walk_levels (Suc level) pagetable va alloc s =
     (let pte = pagetable + 8 * PX (Suc level) va in
      if mrd64 (mem s) pte AND PTE_V \<noteq> 0
      then walk_levels level (PTE2PA (mrd64 (mem s) pte)) va alloc s
      else if \<not> alloc then Ok None s
      else bnd (kalloc s) (\<lambda>pagetable s.
        if pagetable = 0 then Ok None s
        else
          let s = fill_page pagetable 0 s;
              s = s\<lparr>mem := mwr64 (mem s) pte (PA2PTE pagetable OR PTE_V)\<rparr>
          in walk_levels level pagetable va alloc s))"

definition walk :: "u64 \<Rightarrow> u64 \<Rightarrow> bool \<Rightarrow> kst \<Rightarrow> u64 k" where
  "walk pagetable va alloc s =
     (if va \<ge> MAXVA then Panic ''walk''
      else bnd (walk_levels 2 pagetable va alloc s) (\<lambda>r s.
        case r of None \<Rightarrow> Ok 0 s | Some pagetable \<Rightarrow> Ok (pagetable + 8 * PX 0 va) s))"

definition walkaddr :: "u64 \<Rightarrow> u64 \<Rightarrow> kst \<Rightarrow> u64 k" where
  "walkaddr pagetable va s =
     (if va \<ge> MAXVA then Ok 0 s
      else bnd (walk pagetable va False s) (\<lambda>pte s.
        if pte = 0 then Ok 0 s
        else if mrd64 (mem s) pte AND PTE_V = 0 then Ok 0 s
        else if mrd64 (mem s) pte AND PTE_U = 0 then Ok 0 s
        else Ok (PTE2PA (mrd64 (mem s) pte)) s))"

lemma walk_Ok_lt: "walk pagetable va alloc s = Ok r t \<Longrightarrow> va < MAXVA"
  by (auto simp: walk_def split: if_splits)

lemma va_measure: "(a :: u64) < MAXVA \<Longrightarrow> unat MAXVA - unat (a + PGSIZE) < unat MAXVA - unat a"
  by (simp add: unat_word_ariths word_less_nat_alt)

section \<open>Adding and removing mappings\<close>

function mappages_loop :: "u64 \<Rightarrow> u64 \<Rightarrow> u64 \<Rightarrow> u64 \<Rightarrow> u64 \<Rightarrow> kst \<Rightarrow> int k" where
  "mappages_loop pagetable a last_a pa perm s =
     bnd (walk pagetable a True s) (\<lambda>pte s.
     if pte = 0 then Ok (- 1) s
     else if mrd64 (mem s) pte AND PTE_V \<noteq> 0 then Panic ''mappages: remap''
     else
       let s = s\<lparr>mem := mwr64 (mem s) pte (PA2PTE pa OR perm OR PTE_V)\<rparr> in
       if a = last_a then Ok 0 s
       else mappages_loop pagetable (a + PGSIZE) last_a (pa + PGSIZE) perm s)"
  by auto
termination
  by (relation "measure (\<lambda>(_, a, _). unat MAXVA - unat a)") (auto dest!: walk_Ok_lt va_measure)

definition mappages :: "u64 \<Rightarrow> u64 \<Rightarrow> u64 \<Rightarrow> u64 \<Rightarrow> u64 \<Rightarrow> kst \<Rightarrow> int k" where
  "mappages pagetable va sz pa perm s =
     (if sz = 0 then Panic ''mappages: size''
      else mappages_loop pagetable (PGROUNDDOWN va) (PGROUNDDOWN (va + sz - 1)) pa perm s)"

definition kvmmap :: "u64 \<Rightarrow> u64 \<Rightarrow> u64 \<Rightarrow> u64 \<Rightarrow> u64 \<Rightarrow> kst \<Rightarrow> unit k" where
  "kvmmap kpgtbl va pa sz perm s =
     bnd (mappages kpgtbl va sz pa perm s) (\<lambda>r s. if r \<noteq> 0 then Panic ''kvmmap'' else Ok () s)"

function uvmunmap_loop :: "u64 \<Rightarrow> u64 \<Rightarrow> u64 \<Rightarrow> bool \<Rightarrow> kst \<Rightarrow> unit k" where
  "uvmunmap_loop pagetable a stop do_free s =
     (if a < stop
      then bnd (walk pagetable a False s) (\<lambda>pte s.
        if pte = 0 then Panic ''uvmunmap: walk''
        else if mrd64 (mem s) pte AND PTE_V = 0 then Panic ''uvmunmap: not mapped''
        else if PTE_FLAGS (mrd64 (mem s) pte) = PTE_V then Panic ''uvmunmap: not a leaf''
        else bnd (if do_free then kfree (PTE2PA (mrd64 (mem s) pte)) s else Ok () s) (\<lambda>_ s.
          let s = s\<lparr>mem := mwr64 (mem s) pte 0\<rparr> in
          uvmunmap_loop pagetable (a + PGSIZE) stop do_free s))
      else Ok () s)"
  by auto
termination
  by (relation "measure (\<lambda>(_, a, _). unat MAXVA - unat a)") (auto dest!: walk_Ok_lt va_measure)

definition uvmunmap :: "u64 \<Rightarrow> u64 \<Rightarrow> u64 \<Rightarrow> bool \<Rightarrow> kst \<Rightarrow> unit k" where
  "uvmunmap pagetable va npages do_free s =
     (if va mod PGSIZE \<noteq> 0 then Panic ''uvmunmap: not aligned''
      else uvmunmap_loop pagetable va (va + npages * PGSIZE) do_free s)"

declare mappages_loop.simps [simp del] uvmunmap_loop.simps [simp del]

section \<open>The kernel's own page table\<close>

text \<open>
  \<open>kvmmake\<close> does not check the result of \<open>kalloc\<close>. Before paging is on and a trap handler is
  installed, a store to address 0 stops the machine.
\<close>

definition proc_mapstacks :: "u64 \<Rightarrow> kst \<Rightarrow> unit k" where
  "proc_mapstacks kpgtbl s =
     for_each [0..<NPROC] (\<lambda>p s.
       bnd (kalloc s) (\<lambda>pa s.
       if pa = 0 then Panic ''kalloc''
       else kvmmap kpgtbl (KSTACK p) pa PGSIZE (PTE_R OR PTE_W) s)) s"

definition kvmmake :: "kst \<Rightarrow> u64 k" where
  "kvmmake s =
     bnd (kalloc s) (\<lambda>kpgtbl s.
     if kpgtbl = 0 then Hang
     else
       let s = fill_page kpgtbl 0 s; etext = sym_etext (syms s) in
       bnd (kvmmap kpgtbl UART0 UART0 PGSIZE (PTE_R OR PTE_W) s) (\<lambda>_ s.
       bnd (kvmmap kpgtbl VIRTIO0 VIRTIO0 PGSIZE (PTE_R OR PTE_W) s) (\<lambda>_ s.
       bnd (kvmmap kpgtbl PLIC PLIC 0x400000 (PTE_R OR PTE_W) s) (\<lambda>_ s.
       bnd (kvmmap kpgtbl KERNBASE KERNBASE (etext - KERNBASE) (PTE_R OR PTE_X) s) (\<lambda>_ s.
       bnd (kvmmap kpgtbl etext etext (PHYSTOP - etext) (PTE_R OR PTE_W) s) (\<lambda>_ s.
       bnd (kvmmap kpgtbl TRAMPOLINE (sym_trampoline (syms s)) PGSIZE (PTE_R OR PTE_X) s) (\<lambda>_ s.
       bnd (proc_mapstacks kpgtbl s) (\<lambda>_ s.
       Ok kpgtbl s))))))))"

definition kvminit :: "kst \<Rightarrow> unit k" where
  "kvminit s = bnd (kvmmake s) (\<lambda>pt s. Ok () (s\<lparr>kernel_pagetable := pt\<rparr>))"

definition kvminithart :: "kst \<Rightarrow> kst" where
  "kvminithart s = s\<lparr>satp := MAKE_SATP (kernel_pagetable s)\<rparr>"

section \<open>User address spaces\<close>

definition uvmcreate :: "kst \<Rightarrow> u64 k" where
  "uvmcreate s =
     bnd (kalloc s) (\<lambda>pagetable s.
     if pagetable = 0 then Ok 0 s else Ok pagetable (fill_page pagetable 0 s))"

text \<open>
  The store through the unchecked result of \<open>kalloc\<close> faults when it is 0: \<open>kerneltrap\<close> panics.
\<close>

definition uvminit :: "u64 \<Rightarrow> bytes \<Rightarrow> u32 \<Rightarrow> kst \<Rightarrow> unit k" where
  "uvminit pagetable src sz s =
     (if sz \<ge> 4096 then Panic ''inituvm: more than a page''
      else bnd (kalloc s) (\<lambda>pg s.
        if pg = 0 then Panic ''kerneltrap''
        else
          let s = fill_page pg 0 s in
          bnd (mappages pagetable 0 PGSIZE pg (PTE_W OR PTE_R OR PTE_X OR PTE_U) s) (\<lambda>_ s.
          Ok () (s\<lparr>mem := mblit (mem s) pg (take (unat sz) src)\<rparr>))))"

text \<open>The C variable \<open>npages\<close> is an \<open>int\<close>: truncation to 32 bits, then sign extension.\<close>

definition uvmdealloc :: "u64 \<Rightarrow> u64 \<Rightarrow> u64 \<Rightarrow> kst \<Rightarrow> u64 k" where
  "uvmdealloc pagetable oldsz newsz s =
     (if newsz \<ge> oldsz then Ok oldsz s
      else if PGROUNDUP newsz < PGROUNDUP oldsz
      then
        let npages = scast (ucast ((PGROUNDUP oldsz - PGROUNDUP newsz) div PGSIZE) :: u32) in
        bnd (uvmunmap pagetable (PGROUNDUP newsz) npages True s) (\<lambda>_ s. Ok newsz s)
      else Ok newsz s)"

lemma mappages_Ok_lt: "mappages pagetable a sz pa perm s = Ok r t \<Longrightarrow> a < MAXVA"
proof -
  assume "mappages pagetable a sz pa perm s = Ok r t"
  then have "PGROUNDDOWN a < MAXVA"
    by (auto simp: mappages_def mappages_loop.simps[of _ "PGROUNDDOWN a"] bnd_Ok_iff
        split: if_splits dest: walk_Ok_lt)
  then have "4096 * (unat a div 4096) < 0x4000000000"
    using PGROUNDDOWN_unat[of a] by (simp add: word_less_nat_alt)
  then have "unat a div 4096 < 0x4000000" by simp
  then have "unat a < 0x4000000000" by (simp add: div_less_iff_less_mult)
  then show ?thesis by (simp add: word_less_nat_alt)
qed

function uvmalloc_loop :: "u64 \<Rightarrow> u64 \<Rightarrow> u64 \<Rightarrow> u64 \<Rightarrow> kst \<Rightarrow> u64 k" where
  "uvmalloc_loop pagetable a oldsz newsz s =
     (if a < newsz
      then bnd (kalloc s) (\<lambda>pg s.
        if pg = 0 then bnd (uvmdealloc pagetable a oldsz s) (\<lambda>_ s. Ok 0 s)
        else
          let s = fill_page pg 0 s in
          bnd (mappages pagetable a PGSIZE pg (PTE_W OR PTE_X OR PTE_R OR PTE_U) s) (\<lambda>r s.
          if r \<noteq> 0
          then bnd (kfree pg s) (\<lambda>_ s.
               bnd (uvmdealloc pagetable a oldsz s) (\<lambda>_ s. Ok 0 s))
          else uvmalloc_loop pagetable (a + PGSIZE) oldsz newsz s))
      else Ok newsz s)"
  by auto
termination
  by (relation "measure (\<lambda>(_, a, _). unat MAXVA - unat a)") (auto dest!: mappages_Ok_lt va_measure)

declare uvmalloc_loop.simps [simp del]

definition uvmalloc :: "u64 \<Rightarrow> u64 \<Rightarrow> u64 \<Rightarrow> kst \<Rightarrow> u64 k" where
  "uvmalloc pagetable oldsz newsz s =
     (if newsz < oldsz then Ok oldsz s
      else
        let oldsz = PGROUNDUP oldsz in
        uvmalloc_loop pagetable oldsz oldsz newsz s)"

text \<open>
  The recursion of \<open>freewalk\<close> follows the page table; the fuel bounds its depth. A kernel
  stack is one page, so deeper recursion than \<open>freewalk_depth\<close> calls would run off the stack.
  The page tables of the kernel are three levels deep.
\<close>

abbreviation (input) freewalk_depth :: nat where "freewalk_depth \<equiv> 64"

primrec freewalk_at :: "nat \<Rightarrow> u64 \<Rightarrow> kst \<Rightarrow> unit k" where
  "freewalk_at 0 pagetable s = Hang"
| "freewalk_at (Suc fuel) pagetable s =
     bnd (for_each [0..<512] (\<lambda>i s.
            let pte = mrd64 (mem s) (pagetable + 8 * of_nat i) in
            if pte AND PTE_V \<noteq> 0 \<and> pte AND (PTE_R OR PTE_W OR PTE_X) = 0
            then bnd (freewalk_at fuel (PTE2PA pte) s) (\<lambda>_ s.
                 Ok () (s\<lparr>mem := mwr64 (mem s) (pagetable + 8 * of_nat i) 0\<rparr>))
            else if pte AND PTE_V \<noteq> 0 then Panic ''freewalk: leaf''
            else Ok () s) s) (\<lambda>_ s.
     kfree pagetable s)"

definition freewalk :: "u64 \<Rightarrow> kst \<Rightarrow> unit k" where
  "freewalk pagetable s = freewalk_at freewalk_depth pagetable s"

definition uvmfree :: "u64 \<Rightarrow> u64 \<Rightarrow> kst \<Rightarrow> unit k" where
  "uvmfree pagetable sz s =
     bnd (if sz > 0 then uvmunmap pagetable 0 (PGROUNDUP sz div PGSIZE) True s else Ok () s) (\<lambda>_ s.
     freewalk pagetable s)"

function uvmcopy_loop :: "u64 \<Rightarrow> u64 \<Rightarrow> u64 \<Rightarrow> u64 \<Rightarrow> kst \<Rightarrow> int k" where
  "uvmcopy_loop old new i sz s =
     (if i < sz
      then bnd (walk old i False s) (\<lambda>pte s.
        if pte = 0 then Panic ''uvmcopy: pte should exist''
        else if mrd64 (mem s) pte AND PTE_V = 0 then Panic ''uvmcopy: page not present''
        else
          let pa = PTE2PA (mrd64 (mem s) pte); flags = PTE_FLAGS (mrd64 (mem s) pte) in
          bnd (kalloc s) (\<lambda>pg s.
          if pg = 0 then bnd (uvmunmap new 0 (i div PGSIZE) True s) (\<lambda>_ s. Ok (- 1) s)
          else
            let s = s\<lparr>mem := memmove (mem s) pg pa 4096\<rparr> in
            bnd (mappages new i PGSIZE pg flags s) (\<lambda>r s.
            if r \<noteq> 0
            then bnd (kfree pg s) (\<lambda>_ s.
                 bnd (uvmunmap new 0 (i div PGSIZE) True s) (\<lambda>_ s. Ok (- 1) s))
            else uvmcopy_loop old new (i + PGSIZE) sz s)))
      else Ok 0 s)"
  by auto
termination
  by (relation "measure (\<lambda>(_, _, i, _). unat MAXVA - unat i)") (auto dest!: walk_Ok_lt va_measure)

declare uvmcopy_loop.simps [simp del]

definition uvmcopy :: "u64 \<Rightarrow> u64 \<Rightarrow> u64 \<Rightarrow> kst \<Rightarrow> int k" where
  "uvmcopy old new sz s = uvmcopy_loop old new 0 sz s"

definition uvmclear :: "u64 \<Rightarrow> u64 \<Rightarrow> kst \<Rightarrow> unit k" where
  "uvmclear pagetable va s =
     bnd (walk pagetable va False s) (\<lambda>pte s.
     if pte = 0 then Panic ''uvmclear''
     else Ok () (s\<lparr>mem := mwr64 (mem s) pte (mrd64 (mem s) pte AND NOT PTE_U)\<rparr>))"

section \<open>Copying to and from user memory\<close>

text \<open>How many bytes from \<open>va\<close> to the end of its page, or as many as are wanted.\<close>

definition chunk :: "u64 \<Rightarrow> nat \<Rightarrow> nat" where
  "chunk va len = (let n = unat (PGSIZE - (va - PGROUNDDOWN va)) in if n > len then len else n)"

lemma page_offset: "unat (va - PGROUNDDOWN va) = unat va mod 4096"
proof -
  have le: "PGROUNDDOWN va \<le> va" by (simp add: word_le_nat_alt PGROUNDDOWN_unat)
  then have "unat (va - PGROUNDDOWN va) = unat va - unat (PGROUNDDOWN va)" by (rule unat_sub)
  then show ?thesis by (simp add: PGROUNDDOWN_unat minus_mult_div_eq_mod)
qed

lemma chunk_eq: "chunk va len = min (4096 - unat va mod 4096) len"
proof -
  have le: "va - PGROUNDDOWN va \<le> 4096" by (simp add: word_le_nat_alt page_offset less_imp_le)
  then have "unat (4096 - (va - PGROUNDDOWN va)) = 4096 - unat va mod 4096"
    by (simp add: unat_sub[OF le] page_offset)
  then show ?thesis by (simp add: chunk_def Let_def min_def)
qed

lemma chunk_pos: "0 < len \<Longrightarrow> 0 < chunk va len" and chunk_le: "chunk va len \<le> len"
  by (simp_all add: chunk_eq)

function copyout :: "u64 \<Rightarrow> u64 \<Rightarrow> bytes \<Rightarrow> kst \<Rightarrow> int k" where
  "copyout pagetable dstva src s =
     (if length src > 0
      then
        let va0 = PGROUNDDOWN dstva in
        bnd (walkaddr pagetable va0 s) (\<lambda>pa0 s.
        if pa0 = 0 then Ok (- 1) s
        else
          let n = chunk dstva (length src);
              s = s\<lparr>mem := mblit (mem s) (pa0 + (dstva - va0)) (take n src)\<rparr>
          in copyout pagetable (va0 + PGSIZE) (drop n src) s)
      else Ok 0 s)"
  by auto
termination
  by (relation "measure (\<lambda>(_, _, src, _). length src)") (auto simp: chunk_pos)

text \<open>The result is the return value and the bytes stored at \<open>dst\<close>.\<close>

function copyin :: "u64 \<Rightarrow> u64 \<Rightarrow> nat \<Rightarrow> kst \<Rightarrow> (int \<times> bytes) k" where
  "copyin pagetable srcva len s =
     (if len > 0
      then
        let va0 = PGROUNDDOWN srcva in
        bnd (walkaddr pagetable va0 s) (\<lambda>pa0 s.
        if pa0 = 0 then Ok (- 1, []) s
        else
          let n = chunk srcva len;
              bs = mslice (mem s) (pa0 + (srcva - va0)) n
          in bnd (copyin pagetable (va0 + PGSIZE) (len - n) s) (\<lambda>(r, cs) s. Ok (r, bs @ cs) s))
      else Ok (0, []) s)"
  by auto
termination
  by (relation "measure (\<lambda>(_, _, len, _). len)") (auto simp: chunk_pos)

text \<open>
  The inner loop of \<open>copyinstr\<close>: the bytes it stores, up to and including a NUL, and whether it
  found one.
\<close>

primrec copyinstr_page :: "memory \<Rightarrow> u64 \<Rightarrow> nat \<Rightarrow> bytes \<times> bool" where
  "copyinstr_page m p 0 = ([], False)"
| "copyinstr_page m p (Suc n) =
     (if m p = 0 then ([0], True)
      else case copyinstr_page m (p + 1) n of (bs, got) \<Rightarrow> (m p # bs, got))"

function copyinstr :: "u64 \<Rightarrow> u64 \<Rightarrow> nat \<Rightarrow> kst \<Rightarrow> (int \<times> bytes) k" where
  "copyinstr pagetable srcva lim s =
     (if lim > 0
      then
        let va0 = PGROUNDDOWN srcva in
        bnd (walkaddr pagetable va0 s) (\<lambda>pa0 s.
        if pa0 = 0 then Ok (- 1, []) s
        else
          let n = chunk srcva lim in
          case copyinstr_page (mem s) (pa0 + (srcva - va0)) n of (bs, got_null) \<Rightarrow>
          if got_null then Ok (0, bs) s
          else bnd (copyinstr pagetable (va0 + PGSIZE) (lim - n) s) (\<lambda>(r, cs) s. Ok (r, bs @ cs) s))
      else Ok (- 1, []) s)"
  by auto
termination
  by (relation "measure (\<lambda>(_, _, lim, _). lim)") (auto simp: chunk_pos)

declare copyout.simps [simp del] copyin.simps [simp del] copyinstr.simps [simp del]

section \<open>Lookups as functions of the memory\<close>

text \<open>Without allocation a walk changes nothing: it is a function of the memory.\<close>

primrec pt_walk :: "memory \<Rightarrow> nat \<Rightarrow> u64 \<Rightarrow> u64 \<Rightarrow> u64 option" where
  "pt_walk m 0 pt va = Some pt"
| "pt_walk m (Suc l) pt va =
     (let e = mrd64 m (pt + 8 * PX (Suc l) va) in
      if e AND PTE_V \<noteq> 0 then pt_walk m l (PTE2PA e) va else None)"

definition pte_addr :: "memory \<Rightarrow> u64 \<Rightarrow> u64 \<Rightarrow> u64" where
  "pte_addr m pt va = (case pt_walk m 2 pt va of None \<Rightarrow> 0 | Some p \<Rightarrow> p + 8 * PX 0 va)"

definition uva :: "memory \<Rightarrow> u64 \<Rightarrow> u64 \<Rightarrow> u64" where
  "uva m pt va =
     (if va \<ge> MAXVA \<or> pte_addr m pt va = 0 then 0
      else
        let e = mrd64 m (pte_addr m pt va) in
        if e AND PTE_V = 0 \<or> e AND PTE_U = 0 then 0 else PTE2PA e)"

lemma walk_levels_noalloc: "walk_levels l pt va False s = Ok (pt_walk (mem s) l pt va) s"
  by (induction l arbitrary: pt) (simp_all add: Let_def)

lemma walk_noalloc: "va < MAXVA \<Longrightarrow> walk pt va False s = Ok (pte_addr (mem s) pt va) s"
  by (simp add: walk_def walk_levels_noalloc pte_addr_def not_le split: option.splits)

lemma walkaddr_eq: "walkaddr pt va s = Ok (uva (mem s) pt va) s"
proof (cases "va < MAXVA")
  case True
  then have "\<not> MAXVA \<le> va" by (simp only: not_le)
  then show ?thesis using True by (simp add: walkaddr_def uva_def walk_noalloc Let_def)
next
  case False
  then have "MAXVA \<le> va" by (simp only: not_less)
  then show ?thesis by (simp add: walkaddr_def uva_def)
qed

text \<open>Likewise reading user memory, and writing it up to the change of the memory.\<close>

function uread :: "memory \<Rightarrow> u64 \<Rightarrow> u64 \<Rightarrow> nat \<Rightarrow> int \<times> bytes" where
  "uread m pt va len =
     (if len = 0 then (0, [])
      else
        let pa = uva m pt (PGROUNDDOWN va); n = chunk va len in
        if pa = 0 then (- 1, [])
        else
          let r = uread m pt (PGROUNDDOWN va + PGSIZE) (len - n) in
          (fst r, mslice m (pa + (va - PGROUNDDOWN va)) n @ snd r))"
  by auto
termination
  by (relation "measure (\<lambda>(_, _, _, len). len)") (auto simp: chunk_pos)

function uwrite :: "memory \<Rightarrow> u64 \<Rightarrow> u64 \<Rightarrow> bytes \<Rightarrow> int \<times> memory" where
  "uwrite m pt va src =
     (if src = [] then (0, m)
      else
        let pa = uva m pt (PGROUNDDOWN va); n = chunk va (length src) in
        if pa = 0 then (- 1, m)
        else uwrite (mblit m (pa + (va - PGROUNDDOWN va)) (take n src)) pt
               (PGROUNDDOWN va + PGSIZE) (drop n src))"
  by auto
termination
  by (relation "measure (\<lambda>(_, _, _, src). length src)") (auto simp: chunk_pos)

declare uread.simps [simp del] uwrite.simps [simp del]

lemma copyin_eq: "copyin pt va len s = Ok (uread (mem s) pt va len) s"
proof (induction len arbitrary: va rule: less_induct)
  case (less len)
  show ?case
  proof (cases "len = 0 \<or> uva (mem s) pt (PGROUNDDOWN va) = 0")
    case True
    then show ?thesis by (subst copyin.simps, subst uread.simps) (auto simp: walkaddr_eq Let_def)
  next
    case False
    then have "len - chunk va len < len" using chunk_pos[of len va] by simp
    note IH = less.IH[OF this, of "PGROUNDDOWN va + 4096"]
    show ?thesis
      using False
      by (subst copyin.simps, subst uread.simps) (simp add: walkaddr_eq Let_def IH split_def)
  qed
qed

lemma copyout_eq:
  "copyout pt va src s = Ok (fst (uwrite (mem s) pt va src)) (s\<lparr>mem := snd (uwrite (mem s) pt va src)\<rparr>)"
proof (induction "length src" arbitrary: s va src rule: less_induct)
  case less
  show ?case
  proof (cases "src = [] \<or> uva (mem s) pt (PGROUNDDOWN va) = 0")
    case True
    have u: "uwrite (mem s) pt va src = (if src = [] then 0 else - 1, mem s)"
      using True by (subst uwrite.simps) (auto simp: Let_def)
    have "copyout pt va src s = Ok (if src = [] then 0 else - 1) s"
      using True by (subst copyout.simps) (auto simp: walkaddr_eq Let_def)
    then show ?thesis by (simp add: u)
  next
    case False
    let ?pa = "uva (mem s) pt (PGROUNDDOWN va)" and ?n = "chunk va (length src)"
    let ?s = "s\<lparr>mem := mblit (mem s) (?pa + (va - PGROUNDDOWN va)) (take ?n src)\<rparr>"
    have c: "copyout pt va src s = copyout pt (PGROUNDDOWN va + 4096) (drop ?n src) ?s"
      using False by (subst copyout.simps) (simp add: walkaddr_eq Let_def)
    have u: "uwrite (mem s) pt va src = uwrite (mem ?s) pt (PGROUNDDOWN va + 4096) (drop ?n src)"
      using False by (subst uwrite.simps) (simp add: Let_def)
    have "length (drop ?n src) < length src" using False chunk_pos[of "length src" va] by simp
    note IH = less.hyps[OF this, of "PGROUNDDOWN va + 4096" ?s]
    show ?thesis unfolding c u IH by simp
  qed
qed

end
