(* ===== verification/Sched.thy ===== *)
theory Sched
  imports Vm
begin

text \<open>
  The part of \<open>proc.c\<close> that gives the CPU away and gets it back (\<open>sched\<close>, \<open>sleep\<close>, \<open>wakeup\<close>,
  \<open>yield\<close>, \<open>kill\<close> and the two halves of the body of \<open>scheduler\<close>), with the interrupt handler of
  the disk driver (\<open>virtio_disk_intr\<close>), which is what ends most waits.

  \<open>swtch\<close> from a process to the scheduler and back is modelled by what happens in between:
  the scheduler finishes with the process (\<open>scheduler_out\<close>), the rest of the machine runs
  (\<open>others\<close>, driven by the field \<open>future\<close>), and when the scheduler finds the process runnable it
  switches back to it (\<open>scheduler_in\<close>); when it does not, the outcome is \<open>Sleep\<close>.
\<close>

abbreviation (input) NUM :: nat where "NUM \<equiv> 8"
abbreviation (input) VRING_DESC_F_NEXT :: u16 where "VRING_DESC_F_NEXT \<equiv> 1"
abbreviation (input) VRING_DESC_F_WRITE :: u16 where "VRING_DESC_F_WRITE \<equiv> 2"
abbreviation (input) VIRTIO_BLK_T_IN :: u32 where "VIRTIO_BLK_T_IN \<equiv> 0"
abbreviation (input) VIRTIO_BLK_T_OUT :: u32 where "VIRTIO_BLK_T_OUT \<equiv> 1"
abbreviation (input) VIRTIO_BLK_S_IOERR :: u8 where "VIRTIO_BLK_S_IOERR \<equiv> 1"

section \<open>Wakeups\<close>

text \<open>The channel of \<open>wakeup\<close> is a pointer that may be null.\<close>

definition wakeup_one :: "chan option \<Rightarrow> nat \<Rightarrow> kst \<Rightarrow> unit k" where
  "wakeup_one chan p s =
     bnd (myproc s) (\<lambda>mp s.
     if mp \<noteq> Some p
     then bnd (acquire (Lproc p) s) (\<lambda>_ s.
          let s = (if p_state (procs s p) = SLEEPING \<and> p_chan (procs s p) = chan
                   then upd_proc p (\<lambda>q. q\<lparr>p_state := RUNNABLE\<rparr>) s else s)
          in release (Lproc p) s)
     else Ok () s)"

definition wakeup_ptr :: "chan option \<Rightarrow> kst \<Rightarrow> unit k" where
  "wakeup_ptr chan s = for_each [0..<NPROC] (wakeup_one chan) s"

definition wakeup :: "chan \<Rightarrow> kst \<Rightarrow> unit k" where
  "wakeup chan s = wakeup_ptr (Some chan) s"

fun kill_from :: "nat list \<Rightarrow> int \<Rightarrow> kst \<Rightarrow> int k" where
  "kill_from [] pid s = Ok (- 1) s"
| "kill_from (p # ps) pid s =
     bnd (acquire (Lproc p) s) (\<lambda>_ s.
     if p_pid (procs s p) = pid
     then
       let s = upd_proc p (\<lambda>q. q\<lparr>p_killed := True\<rparr>) s;
           s = (if p_state (procs s p) = SLEEPING
                then upd_proc p (\<lambda>q. q\<lparr>p_state := RUNNABLE\<rparr>) s else s)
       in bnd (release (Lproc p) s) (\<lambda>_ s. Ok 0 s)
     else bnd (release (Lproc p) s) (\<lambda>_ s. kill_from ps pid s))"

definition kill :: "int \<Rightarrow> kst \<Rightarrow> int k" where
  "kill pid s = kill_from [0..<NPROC] pid s"

section \<open>The block device and its interrupt\<close>

definition upd_disk :: "(vdisk \<Rightarrow> vdisk) \<Rightarrow> kst \<Rightarrow> kst" where
  "upd_disk f s = s\<lparr>vdisk := f (vdisk s)\<rparr>"

text \<open>
  The device takes the next chain from the available ring: a descriptor of the request header,
  one of the data and one of the status byte, linked by \<open>next\<close>. When the chain is well formed
  (both links flagged, a header of 16 bytes that the device only reads, data in the direction of
  the request) it carries the request out on as many bytes as the data descriptor says
  (\<open>blk\<close>), otherwise the status is an I/O error. It stores the status when the last descriptor
  lets it, puts the chain on the used ring and raises its interrupt. \<open>wtrace\<close> records the
  blocks it writes.
\<close>

definition dev_one :: "kst \<Rightarrow> kst" where
  "dev_one s =
     (let d = vdisk s;
          head = unat (d_avail_ring d (unat (d_used_idx_dev d) mod NUM));
          d0 = d_desc d head;
          d1 = d_desc d (unat (dsc_next d0));
          d2 = d_desc d (unat (dsc_next d1));
          rq = (case dsc_addr d0 of DOps i \<Rightarrow> d_ops d i | _ \<Rightarrow> d_ops d head);
          b = (case dsc_addr d1 of DData b \<Rightarrow> b | _ \<Rightarrow> NBUF);
          k = (case dsc_addr d2 of DStatus i \<Rightarrow> i | _ \<Rightarrow> head);
          linked = (dsc_flags d0 AND VRING_DESC_F_NEXT \<noteq> 0 \<and> dsc_flags d1 AND VRING_DESC_F_NEXT \<noteq> 0);
          fill = (dsc_flags d1 AND VRING_DESC_F_WRITE \<noteq> 0);
          ok = (linked \<and> dsc_len d0 = 16 \<and> dsc_flags d0 AND VRING_DESC_F_WRITE = 0 \<and>
                (rq_type rq = VIRTIO_BLK_T_IN \<longleftrightarrow> fill));
          n = unat (dsc_len d1);
          bs = take n (b_data (bufs s b));
          res = (if ok then blk s rq bs (drv s) else (VIRTIO_BLK_S_IOERR, bs, drv s));
          answer = (linked \<and> dsc_flags d2 AND VRING_DESC_F_WRITE \<noteq> 0 \<and> dsc_len d2 \<noteq> 0)
      in s\<lparr>bufs := (if fill
                   then (bufs s)(b := (bufs s b)\<lparr>b_data := fst (snd res) @ drop n (b_data (bufs s b))\<rparr>)
                   else bufs s),
           vdisk := d\<lparr>d_used_idx_dev := d_used_idx_dev d + 1,
                      d_used_ring := (d_used_ring d)(unat (d_used_idx_dev d) mod NUM := of_nat head),
                      d_info_status := (if answer then (d_info_status d)(k := fst res) else d_info_status d),
                      d_isr := d_isr d OR 1\<rparr>,
           drv := snd (snd res),
           wtrace := (if ok \<and> rq_type rq = VIRTIO_BLK_T_OUT
                      then wtrace s @ [(unat (rq_sector rq) div 2, bs)] else wtrace s)\<rparr>)"

function dev_loop :: "kst \<Rightarrow> kst" where
  "dev_loop s = (if d_used_idx_dev (vdisk s) = d_avail_idx (vdisk s) then s else dev_loop (dev_one s))"
  by auto
termination
proof (relation "measure (\<lambda>s. unat (d_avail_idx (vdisk s) - d_used_idx_dev (vdisk s)))")
  fix s :: kst
  let ?d = "d_avail_idx (vdisk s) - d_used_idx_dev (vdisk s)"
  assume "d_used_idx_dev (vdisk s) \<noteq> d_avail_idx (vdisk s)"
  then have nz: "?d \<noteq> 0" by auto
  have "d_avail_idx (vdisk (dev_one s)) - d_used_idx_dev (vdisk (dev_one s)) = ?d - 1"
    by (simp add: dev_one_def Let_def)
  then show "(dev_one s, s) \<in> measure (\<lambda>s. unat (d_avail_idx (vdisk s) - d_used_idx_dev (vdisk s)))"
    using unat_minus_one[OF nz] nz by (simp add: unat_gt_0)
qed simp

declare dev_loop.simps [simp del]

text \<open>The device looks at the available ring when the driver has notified it.\<close>

definition dev_run :: "kst \<Rightarrow> kst" where
  "dev_run s = (if d_notify (vdisk s) then dev_loop (upd_disk (\<lambda>d. d\<lparr>d_notify := False\<rparr>) s) else s)"

text \<open>
  Code that at most changes process states, spin locks and the interrupt bookkeeping.
\<close>

definition quiet :: "kst \<Rightarrow> kst \<Rightarrow> bool" where
  "quiet s t \<longleftrightarrow> t = s\<lparr>sstatus := sstatus t, cpus := cpus t, locks := locks t, procs := procs t\<rparr>"

lemma quiet_refl [simp]: "quiet s s"
  by (simp add: quiet_def)

lemma quiet_select:
  assumes "quiet s t"
  shows "hart t = hart s"
    "stvec t = stvec s"
    "sepc t = sepc s"
    "scause t = scause s"
    "stval t = stval s"
    "satp t = satp s"
    "sip t = sip s"
    "plic_claim_reg t = plic_claim_reg s"
    "plic_writes t = plic_writes s"
    "syms t = syms s"
    "slocks t = slocks s"
    "initproc t = initproc s"
    "nextpid t = nextpid s"
    "forkret_first t = forkret_first s"
    "mem t = mem s"
    "freelist t = freelist s"
    "kernel_pagetable t = kernel_pagetable s"
    "tfs t = tfs s"
    "pipes t = pipes s"
    "ticks t = ticks s"
    "bufs t = bufs s"
    "vdisk t = vdisk s"
    "drv t = drv s"
    "blk t = blk s"
    "wtrace t = wtrace s"
    "klog t = klog s"
    "sb t = sb s"
    "inodes t = inodes s"
    "ftable t = ftable s"
    "devsw t = devsw s"
    "kcons t = kcons s"
    "kuart t = kuart s"
    "pr_locking t = pr_locking s"
    "panicked t = panicked s"
    "future t = future s"
proof -
  have t: "t = s\<lparr>sstatus := sstatus t, cpus := cpus t, locks := locks t, procs := procs t\<rparr>"
    using assms by (simp add: quiet_def)
  show "hart t = hart s"
    "stvec t = stvec s"
    "sepc t = sepc s"
    "scause t = scause s"
    "stval t = stval s"
    "satp t = satp s"
    "sip t = sip s"
    "plic_claim_reg t = plic_claim_reg s"
    "plic_writes t = plic_writes s"
    "syms t = syms s"
    "slocks t = slocks s"
    "initproc t = initproc s"
    "nextpid t = nextpid s"
    "forkret_first t = forkret_first s"
    "mem t = mem s"
    "freelist t = freelist s"
    "kernel_pagetable t = kernel_pagetable s"
    "tfs t = tfs s"
    "pipes t = pipes s"
    "ticks t = ticks s"
    "bufs t = bufs s"
    "vdisk t = vdisk s"
    "drv t = drv s"
    "blk t = blk s"
    "wtrace t = wtrace s"
    "klog t = klog s"
    "sb t = sb s"
    "inodes t = inodes s"
    "ftable t = ftable s"
    "devsw t = devsw s"
    "kcons t = kcons s"
    "kuart t = kuart s"
    "pr_locking t = pr_locking s"
    "panicked t = panicked s"
    "future t = future s"
    by (subst t; simp)+
qed

lemma quiet_trans: "quiet s t \<Longrightarrow> quiet t u \<Longrightarrow> quiet s u"
  by (rule kst.cases[of s]; rule kst.cases[of t]; rule kst.cases[of u]) (simp add: quiet_def)

lemma quiet_acq: "quiet s (acq l s)"
  by (simp add: quiet_def acq_def Let_def)

lemma quiet_rel: "quiet s (rel l s)"
  by (simp add: quiet_def rel_def Let_def)

lemma quiet_peek: "quiet s (peek s)"
  unfolding quiet_def by (subst peek_eq) (simp add: peek_select)

lemma quiet_upd_proc: "quiet s (upd_proc p f s)"
  by (simp add: quiet_def upd_proc_def)

lemma wakeup_one_quiet: "wlp (wakeup_one c p s) (\<lambda>_ t. quiet s t)"
proof (rule wlp_I)
  fix u t
  assume "wakeup_one c p s = Ok u t"
  then consider "t = peek s"
    | f where "t = rel (Lproc p) (upd_proc p f (acq (Lproc p) (peek s)))"
    | "t = rel (Lproc p) (acq (Lproc p) (peek s))"
    unfolding wakeup_one_def
    by (auto simp: myproc_peek bnd_Ok_iff Let_def split: if_splits dest!: lock_OkD)
  then show "quiet s t"
    by cases (auto intro: quiet_trans[OF quiet_peek] quiet_trans[OF quiet_acq] quiet_trans[OF quiet_upd_proc]
        quiet_peek quiet_rel)
qed

lemma wakeup_ptr_quiet: "wlp (wakeup_ptr c s) (\<lambda>_ t. quiet s t)"
  unfolding wakeup_ptr_def
proof (rule for_each_wlp)
  fix i t assume "quiet s t"
  then show "wlp (wakeup_one c i t) (\<lambda>_. quiet s)"
    by (intro wlp_mono[OF wakeup_one_quiet]) (rule quiet_trans)
qed simp

lemma wakeup_OkD: "wakeup c s = Ok u t \<Longrightarrow> quiet s t"
  using wakeup_ptr_quiet[of "Some c" s] by (simp add: wakeup_def)

lemma wakeup_frame: "wakeup c s = Ok u t \<Longrightarrow> vdisk t = vdisk s \<and> future t = future s"
  using quiet_select[OF wakeup_OkD] by simp

text \<open>A null \<open>b\<close> would fault on the store to \<open>b->disk\<close>: \<open>kerneltrap\<close> panics.\<close>

function intr_loop :: "kst \<Rightarrow> unit k" where
  "intr_loop s =
     (if d_used_idx (vdisk s) \<noteq> d_used_idx_dev (vdisk s)
      then
        let id = unat (d_used_ring (vdisk s) (unat (d_used_idx (vdisk s)) mod NUM)) in
        if d_info_status (vdisk s) id \<noteq> 0 then Panic ''virtio_disk_intr status''
        else case d_info_b (vdisk s) id of
          None \<Rightarrow> Panic ''kerneltrap''
        | Some b \<Rightarrow>
            bnd (wakeup (Cbuf b) (upd_buf b (\<lambda>x. x\<lparr>b_disk := False\<rparr>) s)) (\<lambda>_ s.
            intr_loop (upd_disk (\<lambda>d. d\<lparr>d_used_idx := d_used_idx d + 1\<rparr>) s))
      else Ok () s)"
  by auto
termination
proof (relation "measure (\<lambda>s. unat (d_used_idx_dev (vdisk s) - d_used_idx (vdisk s)))", simp)
  fix s :: kst and id b u t
  let ?d = "d_used_idx_dev (vdisk s) - d_used_idx (vdisk s)"
  assume "d_used_idx (vdisk s) \<noteq> d_used_idx_dev (vdisk s)"
    and w: "wakeup (Cbuf b) (upd_buf b (\<lambda>x. x\<lparr>b_disk := False\<rparr>) s) = Ok u t"
  then have nz: "?d \<noteq> 0" by auto
  have "vdisk t = vdisk s" using wakeup_frame[OF w] by (simp add: upd_buf_def)
  then have e: "d_used_idx_dev (vdisk t) - (d_used_idx (vdisk t) + 1) = ?d - 1"
    by (simp only: diff_diff_eq)
  have "unat (?d - 1) < unat ?d" using unat_minus_one[OF nz] nz by (simp add: unat_gt_0)
  then have "unat (d_used_idx_dev (vdisk t) - (d_used_idx (vdisk t) + 1)) < unat ?d" by (simp only: e)
  then show "(upd_disk (\<lambda>d. d\<lparr>d_used_idx := d_used_idx d + 1\<rparr>) t, s)
      \<in> measure (\<lambda>s. unat (d_used_idx_dev (vdisk s) - d_used_idx (vdisk s)))"
    by (simp add: upd_disk_def)
qed

declare intr_loop.simps [simp del]

text \<open>Writing bits to \<open>INTERRUPT_ACK\<close> clears them in \<open>INTERRUPT_STATUS\<close>.\<close>

definition virtio_disk_intr :: "kst \<Rightarrow> unit k" where
  "virtio_disk_intr s =
     bnd (acquire Lvdisk s) (\<lambda>_ s.
     let s = upd_disk (\<lambda>d. d\<lparr>d_isr := d_isr d AND NOT (d_isr d AND 3)\<rparr>) s in
     bnd (intr_loop s) (\<lambda>_ s.
     release Lvdisk s))"

section \<open>Switching to the scheduler and back\<close>

text \<open>The end of the body of the scheduler's loop, after \<open>swtch\<close> has returned to it.\<close>

definition scheduler_out :: "nat \<Rightarrow> kst \<Rightarrow> unit k" where
  "scheduler_out p s =
     (let s = upd_cpu (\<lambda>c. c\<lparr>c_proc := None\<rparr>) s in
      bnd (release (Lproc p) s) (\<lambda>_ s. Ok () (intr_on s)))"

text \<open>The beginning of the body, up to \<open>swtch\<close>; \<open>False\<close> when the process cannot run.\<close>

definition scheduler_in :: "nat \<Rightarrow> kst \<Rightarrow> bool k" where
  "scheduler_in p s =
     bnd (acquire (Lproc p) s) (\<lambda>_ s.
     if p_state (procs s p) = RUNNABLE
     then
       let s = upd_proc p (\<lambda>q. q\<lparr>p_state := RUNNING\<rparr>) s;
           s = upd_cpu (\<lambda>c. c\<lparr>c_proc := Some p\<rparr>) s
       in Ok True s
     else bnd (release (Lproc p) s) (\<lambda>_ s. Ok False s))"

text \<open>What the rest of the machine does while the process is off the CPU.\<close>

definition set_core :: "core \<Rightarrow> core option list \<Rightarrow> kst" where
  "set_core c fs = core.extend c (kst.fields fs)"

definition disk_irq :: "kst \<Rightarrow> unit k" where
  "disk_irq s = (if d_isr (vdisk s) \<noteq> 0 then virtio_disk_intr s else Ok () s)"

definition others :: "kst \<Rightarrow> unit k" where
  "others s =
     (case future s of
        Some c # fs \<Rightarrow> Ok () (set_core c fs)
      | None # fs \<Rightarrow> disk_irq (dev_run (s\<lparr>future := fs\<rparr>))
      | [] \<Rightarrow> disk_irq (dev_run s))"

definition swtch :: "nat \<Rightarrow> kst \<Rightarrow> unit k" where
  "swtch p s =
     bnd (scheduler_out p s) (\<lambda>_ s.
     bnd (others s) (\<lambda>_ s.
     bnd (scheduler_in p s) (\<lambda>run s.
     if run then Ok () s else Sleep s)))"

text \<open>\<open>myproc()\<close> is dereferenced without a check: a null pointer faults.\<close>

definition curproc :: "kst \<Rightarrow> nat k" where
  "curproc s =
     bnd (myproc s) (\<lambda>p s. case p of None \<Rightarrow> Panic ''kerneltrap'' | Some p \<Rightarrow> Ok p s)"

definition sched :: "kst \<Rightarrow> unit k" where
  "sched s =
     bnd (curproc s) (\<lambda>p s.
     if \<not> holding (Lproc p) s then Panic ''sched p->lock''
     else if c_noff (mycpu s) \<noteq> 1 then Panic ''sched locks''
     else if p_state (procs s p) = RUNNING then Panic ''sched running''
     else if intr_get s then Panic ''sched interruptible''
     else
       let intena = c_intena (mycpu s) in
       bnd (swtch p s) (\<lambda>_ s.
       Ok () (upd_cpu (\<lambda>c. c\<lparr>c_intena := intena\<rparr>) s)))"

definition yield :: "kst \<Rightarrow> unit k" where
  "yield s =
     bnd (curproc s) (\<lambda>p s.
     bnd (acquire (Lproc p) s) (\<lambda>_ s.
     let s = upd_proc p (\<lambda>q. q\<lparr>p_state := RUNNABLE\<rparr>) s in
     bnd (sched s) (\<lambda>_ s.
     release (Lproc p) s)))"

definition sleep :: "chan \<Rightarrow> lockid \<Rightarrow> kst \<Rightarrow> unit k" where
  "sleep chan lk s =
     bnd (curproc s) (\<lambda>p s.
     bnd (acquire (Lproc p) s) (\<lambda>_ s.
     bnd (release lk s) (\<lambda>_ s.
     let s = upd_proc p (\<lambda>q. q\<lparr>p_chan := Some chan\<rparr>) s;
         s = upd_proc p (\<lambda>q. q\<lparr>p_state := SLEEPING\<rparr>) s
     in
     bnd (sched s) (\<lambda>_ s.
     let s = upd_proc p (\<lambda>q. q\<lparr>p_chan := None\<rparr>) s in
     bnd (release (Lproc p) s) (\<lambda>_ s.
     acquire lk s)))))"

section \<open>Every return from sleep is progress\<close>

text \<open>
  Loops that sleep terminate because a process that only waits for the device is woken at most
  once per batch of outstanding requests: \<open>turns\<close> decreases with every return from \<open>sleep\<close>.
\<close>

definition disk_idle :: "kst \<Rightarrow> bool" where
  "disk_idle s \<longleftrightarrow> (d_notify (vdisk s) \<longrightarrow> d_used_idx_dev (vdisk s) = d_avail_idx (vdisk s)) \<and>
                   d_used_idx (vdisk s) = d_used_idx_dev (vdisk s)"

definition turns :: "kst \<Rightarrow> nat" where
  "turns s = 2 * length (future s) + (if disk_idle s then 0 else 1)"

lemma dev_one_select:
  "future (dev_one s) = future s" "procs (dev_one s) = procs s" "hart (dev_one s) = hart s"
  "cpus (dev_one s) = cpus s" "locks (dev_one s) = locks s" "sstatus (dev_one s) = sstatus s"
  "d_avail_idx (vdisk (dev_one s)) = d_avail_idx (vdisk s)"
  "d_used_idx (vdisk (dev_one s)) = d_used_idx (vdisk s)" "d_notify (vdisk (dev_one s)) = d_notify (vdisk s)"
  by (simp_all add: dev_one_def Let_def)

lemma dev_loop_select:
  "future (dev_loop s) = future s \<and> procs (dev_loop s) = procs s \<and> d_notify (vdisk (dev_loop s)) = d_notify (vdisk s)"
proof (induction s rule: dev_loop.induct)
  case (1 s)
  then show ?case
    by (cases "d_used_idx_dev (vdisk s) = d_avail_idx (vdisk s)")
       (simp_all add: dev_loop.simps[of s] dev_one_select)
qed

lemma dev_run_select: "future (dev_run s) = future s" "procs (dev_run s) = procs s" "\<not> d_notify (vdisk (dev_run s))"
  using dev_loop_select[of "upd_disk (\<lambda>d. d\<lparr>d_notify := False\<rparr>) s"] by (simp_all add: dev_run_def upd_disk_def)

lemma dev_loop_idle: "d_used_idx_dev (vdisk s) = d_avail_idx (vdisk s) \<Longrightarrow> dev_loop s = s"
  by (simp add: dev_loop.simps)

lemma dev_run_idle: "disk_idle s \<Longrightarrow> d_used_idx (vdisk (dev_run s)) = d_used_idx_dev (vdisk (dev_run s))"
  by (simp add: disk_idle_def dev_run_def dev_loop_idle upd_disk_def)

lemma intr_loop_Ok:
  "intr_loop s = Ok u t \<Longrightarrow> future t = future s \<and> d_used_idx (vdisk t) = d_used_idx_dev (vdisk t) \<and>
     d_notify (vdisk t) = d_notify (vdisk s)"
proof (induction s rule: intr_loop.induct)
  case (1 s)
  show ?case
  proof (cases "d_used_idx (vdisk s) = d_used_idx_dev (vdisk s)")
    case True
    with 1(2) show ?thesis by (simp add: intr_loop.simps[of s])
  next
    case False
    let ?id = "unat (d_used_ring (vdisk s) (unat (d_used_idx (vdisk s)) mod NUM))"
    from 1(2) False obtain b v s1 where b: "d_info_b (vdisk s) ?id = Some b"
      and w: "wakeup (Cbuf b) (upd_buf b (\<lambda>x. x\<lparr>b_disk := False\<rparr>) s) = Ok v s1"
      and l: "intr_loop (upd_disk (\<lambda>d. d\<lparr>d_used_idx := d_used_idx d + 1\<rparr>) s1) = Ok u t"
      and st: "d_info_status (vdisk s) ?id = 0"
      by (auto simp: intr_loop.simps[of s] Let_def bnd_Ok_iff split: if_splits option.splits)
    from 1(1)[OF False refl _ b w l] st wakeup_frame[OF w] show ?thesis
      by (simp add: upd_disk_def upd_buf_def)
  qed
qed

lemma virtio_disk_intr_Ok:
  assumes "virtio_disk_intr s = Ok u t"
  shows "future t = future s" and "d_used_idx (vdisk t) = d_used_idx_dev (vdisk t)"
    and "d_notify (vdisk t) = d_notify (vdisk s)"
    and "d_used_idx (vdisk s) = d_used_idx_dev (vdisk s) \<Longrightarrow> procs t = procs s"
proof -
  let ?a = "upd_disk (\<lambda>d. d\<lparr>d_isr := d_isr d AND NOT (d_isr d AND 3)\<rparr>) (acq Lvdisk s)"
  from assms obtain s1 where l: "intr_loop ?a = Ok () s1" and t: "t = rel Lvdisk s1"
    by (auto simp: virtio_disk_intr_def bnd_Ok_iff Let_def dest!: lock_OkD)
  from intr_loop_Ok[OF l] t show "future t = future s"
    and "d_used_idx (vdisk t) = d_used_idx_dev (vdisk t)" and "d_notify (vdisk t) = d_notify (vdisk s)"
    by (simp_all add: acq_select rel_select upd_disk_def)
  assume "d_used_idx (vdisk s) = d_used_idx_dev (vdisk s)"
  then have "d_used_idx (vdisk ?a) = d_used_idx_dev (vdisk ?a)" by (simp add: acq_select upd_disk_def)
  then have "intr_loop ?a = Ok () ?a" unfolding intr_loop.simps[of ?a] by (simp only: if_False simp_thms)
  with l have "s1 = ?a" by (simp only: outcome.inject)
  then show "procs t = procs s" using t by (simp add: acq_select rel_select upd_disk_def)
qed

lemma disk_irq_Ok:
  assumes "disk_irq s = Ok u t"
  shows "future t = future s" and "procs t = procs s \<or> d_used_idx (vdisk t) = d_used_idx_dev (vdisk t)"
    and "d_notify (vdisk t) = d_notify (vdisk s)"
    and "d_used_idx (vdisk s) = d_used_idx_dev (vdisk s) \<Longrightarrow> procs t = procs s"
  using assms virtio_disk_intr_Ok[of s u t] by (auto simp: disk_irq_def split: if_splits)

lemma others_turns:
  assumes "others s = Ok u t" and "p_state (procs s p) = SLEEPING" and "p_state (procs t p) = RUNNABLE"
  shows "turns t < turns s"
proof (cases "future s")
  case Nil
  then have v: "disk_irq (dev_run s) = Ok u t" using assms(1) by (simp add: others_def)
  have ps: "procs t \<noteq> procs s" using assms(2,3) by auto
  then have "disk_idle t" using disk_irq_Ok(2,3)[OF v] dev_run_select[of s] by (auto simp: disk_idle_def)
  moreover have "\<not> disk_idle s"
    using disk_irq_Ok(4)[OF v] dev_run_idle[of s] dev_run_select(2)[of s] ps by auto
  ultimately show ?thesis
    using disk_irq_Ok(1)[OF v] dev_run_select(1)[of s] by (simp add: turns_def)
next
  case (Cons f fs)
  then have "future t = fs"
    using assms(1) disk_irq_Ok(1)[of "dev_run (s\<lparr>future := fs\<rparr>)" u t]
      dev_run_select[of "s\<lparr>future := fs\<rparr>"]
    by (cases f) (auto simp: others_def set_core_def core.defs kst.defs)
  then show ?thesis using Cons by (simp add: turns_def)
qed

lemma turns_cong: "future t = future s \<Longrightarrow> vdisk t = vdisk s \<Longrightarrow> turns t = turns s"
  by (simp add: turns_def disk_idle_def)

lemma swtch_turns:
  assumes "swtch p s = Ok u t" and "p_state (procs s p) = SLEEPING"
  shows "turns t < turns s"
proof -
  from assms(1) obtain s1 s2 where s1: "scheduler_out p s = Ok () s1" and s2: "others s1 = Ok () s2"
    and t: "scheduler_in p s2 = Ok True t"
    by (auto simp: swtch_def bnd_Ok_iff split: if_splits)
  have 1: "procs s1 = procs s" "turns s1 = turns s"
    using s1 by (auto simp: scheduler_out_def bnd_Ok_iff upd_cpu_def intr_on_def rel_select
        intro!: turns_cong dest!: lock_OkD)
  have 2: "p_state (procs s2 p) = RUNNABLE" "turns t = turns s2"
    using t by (auto simp: scheduler_in_def bnd_Ok_iff upd_cpu_def upd_proc_def acq_select
        intro!: turns_cong split: if_splits dest!: lock_OkD)
  show ?thesis using others_turns[OF s2, of p] 1 2 assms(2) by simp
qed

lemma curproc_OkD:
  "curproc s = Ok p t \<Longrightarrow> c_proc (cpus s (hart s)) = Some p \<and> t = peek s"
  by (auto simp: curproc_def myproc_peek split: option.splits)

lemma sched_OkD:
  assumes "sched s = Ok u t" and "c_proc (cpus s (hart s)) = Some p"
  obtains t' where "swtch p (peek s) = Ok () t'"
    and "t = upd_cpu (\<lambda>c. c\<lparr>c_intena := c_intena (mycpu (peek s))\<rparr>) t'"
  using assms by (auto simp: sched_def bnd_Ok_iff Let_def split: if_splits dest!: curproc_OkD)

lemma sleep_turns:
  assumes "sleep chan lk s = Ok u t"
  shows "turns t < turns s"
proof -
  let ?sl = "\<lambda>p s. upd_proc p (\<lambda>q. q\<lparr>p_state := SLEEPING\<rparr>) (upd_proc p (\<lambda>q. q\<lparr>p_chan := Some chan\<rparr>) s)"
  from assms obtain p s3 where p: "c_proc (cpus s (hart s)) = Some p"
    and s3: "sched (?sl p (rel lk (acq (Lproc p) (peek s)))) = Ok () s3" (is "sched ?s2 = _")
    and t: "t = acq lk (rel (Lproc p) (upd_proc p (\<lambda>q. q\<lparr>p_chan := None\<rparr>) s3))"
    by (auto simp: sleep_def bnd_Ok_iff Let_def dest!: curproc_OkD lock_OkD)
  have "c_proc (cpus ?s2 (hart ?s2)) = Some p"
    using p by (simp add: upd_proc_def hart_acq noff_acq peek_select peek_cpus)
  from sched_OkD[OF s3 this] obtain s4 where s4: "swtch p (peek ?s2) = Ok () s4"
    and e: "s3 = upd_cpu (\<lambda>c. c\<lparr>c_intena := c_intena (mycpu (peek ?s2))\<rparr>) s4" by blast
  have "turns s4 < turns (peek ?s2)"
    using swtch_turns[OF s4] by (simp add: peek_select upd_proc_def)
  moreover have "turns (peek ?s2) = turns s"
    by (rule turns_cong) (simp_all add: peek_select upd_proc_def rel_select acq_select)
  moreover have "turns t = turns s4"
    unfolding t e by (rule turns_cong) (simp_all add: upd_cpu_def upd_proc_def rel_select acq_select)
  ultimately show ?thesis by simp
qed

section \<open>Copying to and from either address space\<close>

definition either_copyout :: "bool \<Rightarrow> u64 \<Rightarrow> bytes \<Rightarrow> kst \<Rightarrow> int k" where
  "either_copyout user_dst dst src s =
     bnd (myproc s) (\<lambda>p s.
     if user_dst
     then case p of
            None \<Rightarrow> Panic ''kerneltrap''
          | Some p \<Rightarrow> copyout (p_pagetable (procs s p)) dst src s
     else Ok 0 (s\<lparr>mem := mblit (mem s) dst src\<rparr>))"

definition either_copyin :: "bool \<Rightarrow> u64 \<Rightarrow> nat \<Rightarrow> kst \<Rightarrow> (int \<times> bytes) k" where
  "either_copyin user_src src len s =
     bnd (myproc s) (\<lambda>p s.
     if user_src
     then case p of
            None \<Rightarrow> Panic ''kerneltrap''
          | Some p \<Rightarrow> copyin (p_pagetable (procs s p)) src len s
     else Ok (0, mslice (mem s) src len) s)"

end
