(* ===== verification/Sleeplock.thy ===== *)
theory Sleeplock
  imports Sched
begin

text \<open>
  \<open>kernel/sleeplock.c\<close>: long-term locks for processes. The loop of \<open>acquiresleep\<close> terminates by
  the progress measure of \<open>sleep\<close>.
\<close>

definition upd_slock :: "slockid \<Rightarrow> (sleeplock \<Rightarrow> sleeplock) \<Rightarrow> kst \<Rightarrow> kst" where
  "upd_slock l f s = s\<lparr>slocks := (slocks s)(l := f (slocks s l))\<rparr>"

definition initsleeplock :: "slockid \<Rightarrow> string \<Rightarrow> kst \<Rightarrow> kst" where
  "initsleeplock lk name s =
     (let s = initlock (Lsleep lk) ''sleep lock'' s in
      upd_slock lk (\<lambda>l. l\<lparr>sl_name := name, sl_locked := False, sl_pid := 0\<rparr>) s)"

function acquiresleep_loop :: "slockid \<Rightarrow> kst \<Rightarrow> unit k" where
  "acquiresleep_loop lk s =
     (if sl_locked (slocks s lk)
      then bnd (sleep (Csleeplock lk) (Lsleep lk) s) (\<lambda>_ s. acquiresleep_loop lk s)
      else Ok () s)"
  by auto
termination
  by (relation "measure (\<lambda>(_, s). turns s)") (auto dest: sleep_turns)

declare acquiresleep_loop.simps [simp del]

definition acquiresleep :: "slockid \<Rightarrow> kst \<Rightarrow> unit k" where
  "acquiresleep lk s =
     bnd (acquire (Lsleep lk) s) (\<lambda>_ s.
     bnd (acquiresleep_loop lk s) (\<lambda>_ s.
     let s = upd_slock lk (\<lambda>l. l\<lparr>sl_locked := True\<rparr>) s in
     bnd (curproc s) (\<lambda>p s.
     let s = upd_slock lk (\<lambda>l. l\<lparr>sl_pid := p_pid (procs s p)\<rparr>) s in
     release (Lsleep lk) s)))"

definition releasesleep :: "slockid \<Rightarrow> kst \<Rightarrow> unit k" where
  "releasesleep lk s =
     bnd (acquire (Lsleep lk) s) (\<lambda>_ s.
     let s = upd_slock lk (\<lambda>l. l\<lparr>sl_locked := False, sl_pid := 0\<rparr>) s in
     bnd (wakeup (Csleeplock lk) s) (\<lambda>_ s.
     release (Lsleep lk) s))"

text \<open>\<open>myproc()\<close> is dereferenced only when the lock is held.\<close>

definition holdingsleep :: "slockid \<Rightarrow> kst \<Rightarrow> bool k" where
  "holdingsleep lk s =
     bnd (acquire (Lsleep lk) s) (\<lambda>_ s.
     bnd (if sl_locked (slocks s lk)
          then bnd (curproc s) (\<lambda>p s. Ok (sl_pid (slocks s lk) = p_pid (procs s p)) s)
          else Ok False s) (\<lambda>r s.
     bnd (release (Lsleep lk) s) (\<lambda>_ s. Ok r s)))"

end
