(* ===== verification/Virtio.thy ===== *)
theory Virtio
  imports Sleeplock
begin

text \<open>
  \<open>kernel/virtio_disk.c\<close>: the driver side of the block device; \<open>virtio_disk_intr\<close> and the device
  itself are in \<open>Sched\<close>. Device registers are read through a function from the register
  offset, an argument of \<open>virtio_disk_init\<close>, whose result lists the register writes in order.
\<close>

section \<open>Initialisation\<close>

definition bclr :: "u64 \<Rightarrow> nat \<Rightarrow> u64" where
  "bclr features b = features AND NOT (push_bit b 1)"

definition virtio_disk_init :: "(nat \<Rightarrow> u32) \<Rightarrow> u64 \<Rightarrow> kst \<Rightarrow> (nat \<times> u32) list k" where
  "virtio_disk_init reg pages s =
     (let s = initlock Lvdisk ''virtio_disk'' s in
      if reg 0x000 \<noteq> 0x74726976 \<or> reg 0x004 \<noteq> 1 \<or> reg 0x008 \<noteq> 2 \<or> reg 0x00c \<noteq> 0x554d4551
      then Panic ''could not find virtio disk''
      else
        let status1 = 0 OR 1;
            status2 = status1 OR 2;
            features = ucast (reg 0x010);
            features = bclr (bclr (bclr (bclr (bclr (bclr (bclr features 5) 7) 11) 12) 27) 29) 28;
            status3 = status2 OR 8;
            status4 = status3 OR 4;
            mx = reg 0x034
        in
        if mx = 0 then Panic ''virtio disk has no queue 0''
        else if mx < of_nat NUM then Panic ''virtio disk max queue too short''
        else
          let s = upd_disk (\<lambda>d. d\<lparr>d_desc := (\<lambda>_. \<lparr>dsc_addr = DNull, dsc_len = 0, dsc_flags = 0, dsc_next = 0\<rparr>),
                     d_avail_idx := 0, d_avail_ring := (\<lambda>_. 0), d_used_idx_dev := 0,
                     d_used_ring := (\<lambda>_. 0)\<rparr>) s;
              s = upd_disk (\<lambda>d. d\<lparr>d_free := (\<lambda>i. i < NUM \<or> d_free d i)\<rparr>) s
          in Ok [(0x070, status1), (0x070, status2), (0x020, ucast features), (0x070, status3),
                 (0x070, status4), (0x028, 4096), (0x030, 0), (0x038, of_nat NUM),
                 (0x040, ucast (drop_bit 12 pages))] s)"

section \<open>Descriptors\<close>

fun alloc_desc_from :: "nat list \<Rightarrow> kst \<Rightarrow> int \<times> kst" where
  "alloc_desc_from [] s = (- 1, s)"
| "alloc_desc_from (i # is) s =
     (if d_free (vdisk s) i
      then (int i, upd_disk (\<lambda>d. d\<lparr>d_free := (d_free d)(i := False)\<rparr>) s)
      else alloc_desc_from is s)"

definition alloc_desc :: "kst \<Rightarrow> int \<times> kst" where
  "alloc_desc s = alloc_desc_from [0..<NUM] s"

definition upd_desc :: "nat \<Rightarrow> (virtq_desc \<Rightarrow> virtq_desc) \<Rightarrow> kst \<Rightarrow> kst" where
  "upd_desc i f s = upd_disk (\<lambda>d. d\<lparr>d_desc := (d_desc d)(i := f (d_desc d i))\<rparr>) s"

definition free_desc :: "nat \<Rightarrow> kst \<Rightarrow> unit k" where
  "free_desc i s =
     (if i \<ge> NUM then Panic ''free_desc 1''
      else if d_free (vdisk s) i then Panic ''free_desc 2''
      else
        let s = upd_desc i (\<lambda>d. d\<lparr>dsc_addr := DNull, dsc_len := 0, dsc_flags := 0, dsc_next := 0\<rparr>) s;
            s = upd_disk (\<lambda>d. d\<lparr>d_free := (d_free d)(i := True)\<rparr>) s
        in wakeup Cdisk_free s)"

definition busy_descs :: "kst \<Rightarrow> nat set" where
  "busy_descs s = {i. i < NUM \<and> \<not> d_free (vdisk s) i}"

lemma free_desc_busy:
  assumes "free_desc i s = Ok u t"
  shows "i \<in> busy_descs s" and "busy_descs t = busy_descs s - {i}"
  using assms by (auto simp: free_desc_def busy_descs_def upd_desc_def upd_disk_def Let_def
      split: if_splits dest!: wakeup_frame)

lemma card_busy_descs: "finite (busy_descs s)"
  by (simp add: busy_descs_def)

function free_chain :: "nat \<Rightarrow> kst \<Rightarrow> unit k" where
  "free_chain i s =
     (let flag = dsc_flags (d_desc (vdisk s) i);
          nxt = unat (dsc_next (d_desc (vdisk s) i))
      in bnd (free_desc i s) (\<lambda>_ s.
         if flag AND VRING_DESC_F_NEXT \<noteq> 0 then free_chain nxt s else Ok () s))"
  by auto
termination
proof (relation "measure (\<lambda>(_, s). card (busy_descs s))", simp)
  fix i :: nat and s t :: kst and u flag and nxt :: nat
  assume "free_desc i s = Ok u t"
  from free_desc_busy[OF this] show "((nxt, t), i, s) \<in> measure (\<lambda>(_, s). card (busy_descs s))"
    using card_busy_descs[of s] by (simp add: card_Diff_singleton card_gt_0_iff)
      (metis card_gt_0_iff diff_Suc_less empty_iff)
qed

declare free_chain.simps [simp del]

text \<open>The result is the return value and the array \<open>idx\<close>.\<close>

fun alloc3_from :: "nat \<Rightarrow> nat list \<Rightarrow> kst \<Rightarrow> (int \<times> nat list) k" where
  "alloc3_from 0 idx s = Ok (0, idx) s"
| "alloc3_from (Suc n) idx s =
     (case alloc_desc s of (i, s) \<Rightarrow>
        if i < 0 then bnd (for_each idx free_desc s) (\<lambda>_ s. Ok (- 1, idx) s)
        else alloc3_from n (idx @ [nat i]) s)"

definition alloc3_desc :: "kst \<Rightarrow> (int \<times> nat list) k" where
  "alloc3_desc s = alloc3_from 3 [] s"

section \<open>Reading and writing a block\<close>

lemma alloc_desc_future: "alloc_desc s = (i, t) \<Longrightarrow> turns t = turns s"
proof -
  have "alloc_desc_from is s = (i, t) \<Longrightarrow> turns t = turns s" for "is"
    by (induction "is") (auto simp: upd_disk_def turns_def disk_idle_def split: if_splits)
  then show "alloc_desc s = (i, t) \<Longrightarrow> turns t = turns s" by (simp add: alloc_desc_def)
qed

lemma free_desc_turns: "free_desc i s = Ok u t \<Longrightarrow> turns t = turns s"
  by (auto simp: free_desc_def upd_desc_def upd_disk_def Let_def turns_def disk_idle_def
      split: if_splits dest!: wakeup_frame)

lemma alloc3_turns: "alloc3_desc s = Ok r t \<Longrightarrow> turns t = turns s"
proof -
  have free: "for_each idx free_desc s' = Ok u t \<Longrightarrow> turns t = turns s'" for idx u s' t
    by (erule for_each_invariant[where P = "\<lambda>t. turns t = turns s'"]) (auto dest: free_desc_turns)
  have "alloc3_from n idx s = Ok r t \<Longrightarrow> turns t = turns s" for n idx
    by (induction n idx s rule: alloc3_from.induct)
       (auto simp: bnd_Ok_iff split: if_splits prod.splits dest!: alloc_desc_future free)
  then show "alloc3_desc s = Ok r t \<Longrightarrow> turns t = turns s" by (simp add: alloc3_desc_def)
qed

function alloc3_wait :: "kst \<Rightarrow> nat list k" where
  "alloc3_wait s =
     bnd (alloc3_desc s) (\<lambda>r s.
     if fst r = 0 then Ok (snd r) s
     else bnd (sleep Cdisk_free Lvdisk s) (\<lambda>_ s. alloc3_wait s))"
  by auto
termination
  by (relation "measure turns") (auto dest!: alloc3_turns sleep_turns)

function wait_done :: "nat \<Rightarrow> kst \<Rightarrow> unit k" where
  "wait_done b s =
     (if b_disk (bufs s b)
      then bnd (sleep (Cbuf b) Lvdisk s) (\<lambda>_ s. wait_done b s)
      else Ok () s)"
  by auto
termination
  by (relation "measure (\<lambda>(_, s). turns s)") (auto dest: sleep_turns)

declare alloc3_wait.simps [simp del] wait_done.simps [simp del]

text \<open>Formatting the request and notifying the device: everything between the allocation of the descriptors and the wait.\<close>

definition disk_submit :: "nat \<Rightarrow> bool \<Rightarrow> u64 \<Rightarrow> nat \<Rightarrow> nat \<Rightarrow> nat \<Rightarrow> kst \<Rightarrow> kst" where
  "disk_submit b write sector i0 i1 i2 s =
     (let s = upd_disk (\<lambda>d. d\<lparr>d_ops := (d_ops d)(i0 :=
                \<lparr>rq_type = (if write then VIRTIO_BLK_T_OUT else VIRTIO_BLK_T_IN), rq_reserved = 0,
                 rq_sector = sector\<rparr>)\<rparr>) s;
          s = upd_desc i0 (\<lambda>_. \<lparr>dsc_addr = DOps i0, dsc_len = 16, dsc_flags = VRING_DESC_F_NEXT,
                                dsc_next = of_nat i1\<rparr>) s;
          s = upd_desc i1 (\<lambda>_. \<lparr>dsc_addr = DData b, dsc_len = of_nat BSIZE,
                                dsc_flags = (if write then 0 else VRING_DESC_F_WRITE) OR VRING_DESC_F_NEXT,
                                dsc_next = of_nat i2\<rparr>) s;
          s = upd_disk (\<lambda>d. d\<lparr>d_info_status := (d_info_status d)(i0 := 0xff)\<rparr>) s;
          s = upd_desc i2 (\<lambda>_. \<lparr>dsc_addr = DStatus i0, dsc_len = 1, dsc_flags = VRING_DESC_F_WRITE,
                                dsc_next = 0\<rparr>) s;
          s = upd_buf b (\<lambda>x. x\<lparr>b_disk := True\<rparr>) s;
          s = upd_disk (\<lambda>d. d\<lparr>d_info_b := (d_info_b d)(i0 := Some b)\<rparr>) s;
          s = upd_disk (\<lambda>d. d\<lparr>d_avail_ring := (d_avail_ring d)(unat (d_avail_idx d) mod NUM := of_nat i0)\<rparr>) s;
          s = upd_disk (\<lambda>d. d\<lparr>d_avail_idx := d_avail_idx d + 1\<rparr>) s
      in upd_disk (\<lambda>d. d\<lparr>d_notify := True\<rparr>) s)"

definition virtio_disk_rw :: "nat \<Rightarrow> bool \<Rightarrow> kst \<Rightarrow> unit k" where
  "virtio_disk_rw b write s =
     (let sector = ucast ((of_nat (b_blockno (bufs s b)) :: u32) * 2) in
      bnd (acquire Lvdisk s) (\<lambda>_ s.
      bnd (alloc3_wait s) (\<lambda>idx s.
      let s = disk_submit b write sector (idx ! 0) (idx ! 1) (idx ! 2) s in
      bnd (wait_done b s) (\<lambda>_ s.
      let s = upd_disk (\<lambda>d. d\<lparr>d_info_b := (d_info_b d)(idx ! 0 := None)\<rparr>) s in
      bnd (free_chain (idx ! 0) s) (\<lambda>_ s.
      release Lvdisk s)))))"

end
