(* ===== verification/Bio.thy ===== *)
theory Bio
  imports Virtio
begin

text \<open>
  \<open>kernel/bio.c\<close>: the buffer cache. Buffers are numbered 0 to \<open>NBUF - 1\<close>; index \<open>NBUF\<close> is the
  list head \<open>bcache.head\<close>, so \<open>b_prev\<close> and \<open>b_next\<close> are the links of the circular list of the
  source.
\<close>

abbreviation (input) bhead :: nat where "bhead \<equiv> NBUF"

section \<open>Code\<close>

definition set_next :: "nat \<Rightarrow> nat \<Rightarrow> kst \<Rightarrow> kst" where
  "set_next b n s = upd_buf b (\<lambda>x. x\<lparr>b_next := n\<rparr>) s"

definition set_prev :: "nat \<Rightarrow> nat \<Rightarrow> kst \<Rightarrow> kst" where
  "set_prev b p s = upd_buf b (\<lambda>x. x\<lparr>b_prev := p\<rparr>) s"

definition binit :: "kst \<Rightarrow> unit k" where
  "binit s =
     (let s = initlock Lbcache ''bcache'' s;
          s = set_prev bhead bhead s;
          s = set_next bhead bhead s
      in for_each [0..<NBUF] (\<lambda>b s.
           let s = set_next b (b_next (bufs s bhead)) s;
               s = set_prev b bhead s;
               s = initsleeplock (SLbuf b) ''buffer'' s;
               s = set_prev (b_next (bufs s bhead)) b s;
               s = set_next bhead b s
           in Ok () s) s)"

text \<open>
  The two scans of \<open>bget\<close>. A scan that has followed \<open>NBUF\<close> links and not come back to the
  head goes round in circles; with one more step of fuel than there are buffers, \<open>None\<close> is the
  endless loop. The inner option is the buffer found.
\<close>

fun bscan_next :: "nat \<Rightarrow> nat \<Rightarrow> (nat \<Rightarrow> buf) \<Rightarrow> nat \<Rightarrow> nat \<Rightarrow> nat option option" where
  "bscan_next 0 b bs dev blockno = None"
| "bscan_next (Suc fuel) b bs dev blockno =
     (if b = bhead then Some None
      else if b_dev (bs b) = dev \<and> b_blockno (bs b) = blockno then Some (Some b)
      else bscan_next fuel (b_next (bs b)) bs dev blockno)"

fun bscan_prev :: "nat \<Rightarrow> nat \<Rightarrow> (nat \<Rightarrow> buf) \<Rightarrow> nat option option" where
  "bscan_prev 0 b bs = None"
| "bscan_prev (Suc fuel) b bs =
     (if b = bhead then Some None
      else if b_refcnt (bs b) = 0 then Some (Some b)
      else bscan_prev fuel (b_prev (bs b)) bs)"

definition bget :: "nat \<Rightarrow> nat \<Rightarrow> kst \<Rightarrow> nat k" where
  "bget dev blockno s =
     bnd (acquire Lbcache s) (\<lambda>_ s.
     case bscan_next (NBUF + 1) (b_next (bufs s bhead)) (bufs s) dev blockno of
       None \<Rightarrow> Hang
     | Some (Some b) \<Rightarrow>
         let s = upd_buf b (\<lambda>x. x\<lparr>b_refcnt := b_refcnt x + 1\<rparr>) s in
         bnd (release Lbcache s) (\<lambda>_ s.
         bnd (acquiresleep (SLbuf b) s) (\<lambda>_ s. Ok b s))
     | Some None \<Rightarrow>
         (case bscan_prev (NBUF + 1) (b_prev (bufs s bhead)) (bufs s) of
            None \<Rightarrow> Hang
          | Some None \<Rightarrow> Panic ''bget: no buffers''
          | Some (Some b) \<Rightarrow>
              let s = upd_buf b (\<lambda>x. x\<lparr>b_dev := dev, b_blockno := blockno, b_valid := False, b_refcnt := 1\<rparr>) s in
              bnd (release Lbcache s) (\<lambda>_ s.
              bnd (acquiresleep (SLbuf b) s) (\<lambda>_ s. Ok b s))))"

definition bread :: "nat \<Rightarrow> nat \<Rightarrow> kst \<Rightarrow> nat k" where
  "bread dev blockno s =
     bnd (bget dev blockno s) (\<lambda>b s.
     if \<not> b_valid (bufs s b)
     then bnd (virtio_disk_rw b False s) (\<lambda>_ s. Ok b (upd_buf b (\<lambda>x. x\<lparr>b_valid := True\<rparr>) s))
     else Ok b s)"

definition bwrite :: "nat \<Rightarrow> kst \<Rightarrow> unit k" where
  "bwrite b s =
     bnd (holdingsleep (SLbuf b) s) (\<lambda>h s.
     if \<not> h then Panic ''bwrite'' else virtio_disk_rw b True s)"

text \<open>Moving an unused buffer to the front of the list.\<close>

definition move_front :: "nat \<Rightarrow> kst \<Rightarrow> kst" where
  "move_front b s =
     (let s = set_prev (b_next (bufs s b)) (b_prev (bufs s b)) s;
          s = set_next (b_prev (bufs s b)) (b_next (bufs s b)) s;
          s = set_next b (b_next (bufs s bhead)) s;
          s = set_prev b bhead s;
          s = set_prev (b_next (bufs s bhead)) b s
      in set_next bhead b s)"

definition brelse :: "nat \<Rightarrow> kst \<Rightarrow> unit k" where
  "brelse b s =
     bnd (holdingsleep (SLbuf b) s) (\<lambda>h s.
     if \<not> h then Panic ''brelse''
     else
       bnd (releasesleep (SLbuf b) s) (\<lambda>_ s.
       bnd (acquire Lbcache s) (\<lambda>_ s.
       let s = upd_buf b (\<lambda>x. x\<lparr>b_refcnt := b_refcnt x - 1\<rparr>) s;
           s = (if b_refcnt (bufs s b) = 0 then move_front b s else s)
       in release Lbcache s)))"

definition bpin :: "nat \<Rightarrow> kst \<Rightarrow> unit k" where
  "bpin b s =
     bnd (acquire Lbcache s) (\<lambda>_ s.
     release Lbcache (upd_buf b (\<lambda>x. x\<lparr>b_refcnt := b_refcnt x + 1\<rparr>) s))"

definition bunpin :: "nat \<Rightarrow> kst \<Rightarrow> unit k" where
  "bunpin b s =
     bnd (acquire Lbcache s) (\<lambda>_ s.
     release Lbcache (upd_buf b (\<lambda>x. x\<lparr>b_refcnt := b_refcnt x - 1\<rparr>) s))"

end
