(* ===== verification/Log.thy ===== *)
theory Log
  imports Bio
begin

text \<open>
  \<open>kernel/log.c\<close>: the write-ahead log of the file system. On disk a \<open>struct logheader\<close> is the
  number of blocks followed by their block numbers, 32-bit little-endian integers at the
  start of the header block.
\<close>

definition upd_log :: "(log \<Rightarrow> log) \<Rightarrow> kst \<Rightarrow> kst" where
  "upd_log f s = s\<lparr>klog := f (klog s)\<rparr>"

definition upd_lh :: "(logheader \<Rightarrow> logheader) \<Rightarrow> kst \<Rightarrow> kst" where
  "upd_lh f s = upd_log (\<lambda>l. l\<lparr>l_lh := f (l_lh l)\<rparr>) s"

abbreviation (input) lhn :: "kst \<Rightarrow> int" where "lhn s \<equiv> lh_n (l_lh (klog s))"

section \<open>Header and log blocks\<close>

text \<open>The in-memory header as it is laid over the bytes of the header block, and back.\<close>

definition enc_head :: "logheader \<Rightarrow> bytes \<Rightarrow> bytes" where
  "enc_head h bs =
     fold (\<lambda>i bs. wr32 bs (4 + 4 * i) (of_nat (lh_block h i))) [0..<nat (lh_n h)]
       (wr32 bs 0 (of_int (lh_n h)))"

definition dec_head :: "logheader \<Rightarrow> bytes \<Rightarrow> logheader" where
  "dec_head h bs =
     (let n = sint (rd32 bs 0) in
      fold (\<lambda>i h. h\<lparr>lh_block := (lh_block h)(i := unat (rd32 bs (4 + 4 * i)))\<rparr>) [0..<nat n]
        (h\<lparr>lh_n := n\<rparr>))"

definition install_trans :: "bool \<Rightarrow> kst \<Rightarrow> unit k" where
  "install_trans recovering s =
     for_each [0..<nat (lhn s)] (\<lambda>tail s.
       bnd (bread (l_dev (klog s)) (l_start (klog s) + tail + 1) s) (\<lambda>lbuf s.
       bnd (bread (l_dev (klog s)) (lh_block (l_lh (klog s)) tail) s) (\<lambda>dbuf s.
       let s = upd_buf dbuf (\<lambda>x. x\<lparr>b_data := b_data (bufs s lbuf)\<rparr>) s in
       bnd (bwrite dbuf s) (\<lambda>_ s.
       bnd (if \<not> recovering then bunpin dbuf s else Ok () s) (\<lambda>_ s.
       bnd (brelse lbuf s) (\<lambda>_ s.
       brelse dbuf s)))))) s"

definition read_head :: "kst \<Rightarrow> unit k" where
  "read_head s =
     bnd (bread (l_dev (klog s)) (l_start (klog s)) s) (\<lambda>b s.
     brelse b (upd_lh (\<lambda>h. dec_head h (b_data (bufs s b))) s))"

definition write_head :: "kst \<Rightarrow> unit k" where
  "write_head s =
     bnd (bread (l_dev (klog s)) (l_start (klog s)) s) (\<lambda>b s.
     let s = upd_buf b (\<lambda>x. x\<lparr>b_data := enc_head (l_lh (klog s)) (b_data x)\<rparr>) s in
     bnd (bwrite b s) (\<lambda>_ s.
     brelse b s))"

definition recover_from_log :: "kst \<Rightarrow> unit k" where
  "recover_from_log s =
     bnd (read_head s) (\<lambda>_ s.
     bnd (install_trans True s) (\<lambda>_ s.
     write_head (upd_lh (\<lambda>h. h\<lparr>lh_n := 0\<rparr>) s)))"

text \<open>\<open>sizeof(struct logheader)\<close> is \<open>4 + 4 * LOGSIZE\<close>.\<close>

definition initlog :: "nat \<Rightarrow> superblock \<Rightarrow> kst \<Rightarrow> unit k" where
  "initlog dev sbk s =
     (if 4 + 4 * LOGSIZE \<ge> BSIZE then Panic ''initlog: too big logheader''
      else
        let s = initlock Llog ''log'' s;
            s = upd_log (\<lambda>l. l\<lparr>l_start := sb_logstart sbk, l_size := sb_nlog sbk, l_dev := dev\<rparr>) s
        in recover_from_log s)"

section \<open>Transactions\<close>

function begin_op_loop :: "kst \<Rightarrow> unit k" where
  "begin_op_loop s =
     (if l_committing (klog s) then bnd (sleep Clog Llog s) (\<lambda>_ s. begin_op_loop s)
      else if lhn s + (l_outstanding (klog s) + 1) * int MAXOPBLOCKS > int LOGSIZE
      then bnd (sleep Clog Llog s) (\<lambda>_ s. begin_op_loop s)
      else release Llog (upd_log (\<lambda>l. l\<lparr>l_outstanding := l_outstanding l + 1\<rparr>) s))"
  by auto
termination
  by (relation "measure turns") (auto dest: sleep_turns)

declare begin_op_loop.simps [simp del]

definition begin_op :: "kst \<Rightarrow> unit k" where
  "begin_op s = bnd (acquire Llog s) (\<lambda>_ s. begin_op_loop s)"

definition write_log :: "kst \<Rightarrow> unit k" where
  "write_log s =
     for_each [0..<nat (lhn s)] (\<lambda>tail s.
       bnd (bread (l_dev (klog s)) (l_start (klog s) + tail + 1) s) (\<lambda>to s.
       bnd (bread (l_dev (klog s)) (lh_block (l_lh (klog s)) tail) s) (\<lambda>fr s.
       let s = upd_buf to (\<lambda>x. x\<lparr>b_data := b_data (bufs s fr)\<rparr>) s in
       bnd (bwrite to s) (\<lambda>_ s.
       bnd (brelse fr s) (\<lambda>_ s.
       brelse to s))))) s"

definition commit :: "kst \<Rightarrow> unit k" where
  "commit s =
     (if lhn s > 0
      then bnd (write_log s) (\<lambda>_ s.
           bnd (write_head s) (\<lambda>_ s.
           bnd (install_trans False s) (\<lambda>_ s.
           write_head (upd_lh (\<lambda>h. h\<lparr>lh_n := 0\<rparr>) s))))
      else Ok () s)"

definition end_op :: "kst \<Rightarrow> unit k" where
  "end_op s =
     bnd (acquire Llog s) (\<lambda>_ s.
     let s = upd_log (\<lambda>l. l\<lparr>l_outstanding := l_outstanding l - 1\<rparr>) s in
     if l_committing (klog s) then Panic ''log.committing''
     else
       bnd (if l_outstanding (klog s) = 0
            then Ok True (upd_log (\<lambda>l. l\<lparr>l_committing := True\<rparr>) s)
            else bnd (wakeup Clog s) (\<lambda>_ s. Ok False s)) (\<lambda>do_commit s.
       bnd (release Llog s) (\<lambda>_ s.
       if do_commit
       then bnd (commit s) (\<lambda>_ s.
            bnd (acquire Llog s) (\<lambda>_ s.
            let s = upd_log (\<lambda>l. l\<lparr>l_committing := False\<rparr>) s in
            bnd (wakeup Clog s) (\<lambda>_ s.
            release Llog s)))
       else Ok () s)))"

text \<open>The index at which the scan for log absorption stops.\<close>

fun absorb_at :: "nat \<Rightarrow> nat \<Rightarrow> (nat \<Rightarrow> nat) \<Rightarrow> nat \<Rightarrow> nat" where
  "absorb_at i 0 blkno b = i"
| "absorb_at i (Suc n) blkno b = (if blkno i = b then i else absorb_at (Suc i) n blkno b)"

definition log_write :: "nat \<Rightarrow> kst \<Rightarrow> unit k" where
  "log_write b s =
     bnd (acquire Llog s) (\<lambda>_ s.
     if lhn s \<ge> int LOGSIZE \<or> lhn s \<ge> int (l_size (klog s)) - 1 then Panic ''too big a transaction''
     else if l_outstanding (klog s) < 1 then Panic ''log_write outside of trans''
     else
       let i = absorb_at 0 (nat (lhn s)) (lh_block (l_lh (klog s))) (b_blockno (bufs s b));
           s = upd_lh (\<lambda>h. h\<lparr>lh_block := (lh_block h)(i := b_blockno (bufs s b))\<rparr>) s
       in
       bnd (if int i = lhn s
            then bnd (bpin b s) (\<lambda>_ s. Ok () (upd_lh (\<lambda>h. h\<lparr>lh_n := lh_n h + 1\<rparr>) s))
            else Ok () s) (\<lambda>_ s.
       release Llog s))"

end
