(* ===== verification/Fs_Alloc.thy ===== *)
theory Fs_Alloc
  imports Log
begin

text \<open>
  \<open>kernel/fs.c\<close>, first part: the super block and the block allocator.
\<close>

section \<open>Super block\<close>

definition dec_sb :: "bytes \<Rightarrow> superblock" where
  "dec_sb bs =
     \<lparr>sb_magic = rd32 bs 0, sb_size = unat (rd32 bs 4), sb_nblocks = unat (rd32 bs 8),
      sb_ninodes = unat (rd32 bs 12), sb_nlog = unat (rd32 bs 16), sb_logstart = unat (rd32 bs 20),
      sb_inodestart = unat (rd32 bs 24), sb_bmapstart = unat (rd32 bs 28)\<rparr>"

definition IBLOCK :: "nat \<Rightarrow> superblock \<Rightarrow> nat" where
  "IBLOCK i sbk = i div IPB + sb_inodestart sbk"

definition BBLOCK :: "nat \<Rightarrow> superblock \<Rightarrow> nat" where
  "BBLOCK b sbk = b div BPB + sb_bmapstart sbk"

definition readsb :: "nat \<Rightarrow> kst \<Rightarrow> superblock k" where
  "readsb dev s =
     bnd (bread dev 1 s) (\<lambda>bp s.
     let sbk = dec_sb (b_data (bufs s bp)) in
     bnd (brelse bp s) (\<lambda>_ s. Ok sbk s))"

definition fsinit :: "nat \<Rightarrow> kst \<Rightarrow> unit k" where
  "fsinit dev s =
     bnd (readsb dev s) (\<lambda>sbk s.
     let s = s\<lparr>sb := sbk\<rparr> in
     if sb_magic (sb s) \<noteq> FSMAGIC then Panic ''invalid file system''
     else initlog dev (sb s) s)"

section \<open>Blocks\<close>

definition bzero :: "nat \<Rightarrow> nat \<Rightarrow> kst \<Rightarrow> unit k" where
  "bzero dev bno s =
     bnd (bread dev bno s) (\<lambda>bp s.
     let s = upd_buf bp (\<lambda>x. x\<lparr>b_data := replicate BSIZE 0\<rparr>) s in
     bnd (log_write bp s) (\<lambda>_ s.
     brelse bp s))"

text \<open>Testing, setting and clearing bit \<open>bi\<close> of a bitmap block.\<close>

definition bitmask :: "nat \<Rightarrow> u8" where
  "bitmask bi = push_bit (bi mod 8) 1"

definition bm_test :: "bytes \<Rightarrow> nat \<Rightarrow> bool" where
  "bm_test bs bi \<longleftrightarrow> bs ! (bi div 8) AND bitmask bi \<noteq> 0"

definition bm_set :: "bytes \<Rightarrow> nat \<Rightarrow> bytes" where
  "bm_set bs bi = bs[bi div 8 := bs ! (bi div 8) OR bitmask bi]"

definition bm_clear :: "bytes \<Rightarrow> nat \<Rightarrow> bytes" where
  "bm_clear bs bi = bs[bi div 8 := bs ! (bi div 8) AND NOT (bitmask bi)]"

text \<open>The inner loop of \<open>balloc\<close>: the first clear bit with \<open>bi < BPB\<close> and \<open>b + bi < sb.size\<close>.\<close>

definition bm_find :: "bytes \<Rightarrow> nat \<Rightarrow> nat \<Rightarrow> nat option" where
  "bm_find bs b lim = List.find (\<lambda>bi. \<not> bm_test bs bi) [0..<min BPB (lim - b)]"

fun balloc_from :: "nat list \<Rightarrow> nat \<Rightarrow> kst \<Rightarrow> nat k" where
  "balloc_from [] dev s = Panic ''balloc: out of blocks''"
| "balloc_from (b # rest) dev s =
     bnd (bread dev (BBLOCK b (sb s)) s) (\<lambda>bp s.
     case bm_find (b_data (bufs s bp)) b (sb_size (sb s)) of
       Some bi \<Rightarrow>
         let s = upd_buf bp (\<lambda>x. x\<lparr>b_data := bm_set (b_data x) bi\<rparr>) s in
         bnd (log_write bp s) (\<lambda>_ s.
         bnd (brelse bp s) (\<lambda>_ s.
         bnd (bzero dev (b + bi) s) (\<lambda>_ s.
         Ok (b + bi) s)))
     | None \<Rightarrow> bnd (brelse bp s) (\<lambda>_ s. balloc_from rest dev s))"

text \<open>\<open>for(b = 0; b < sb.size; b += BPB)\<close>; the super block does not change after \<open>fsinit\<close>.\<close>

definition balloc :: "nat \<Rightarrow> kst \<Rightarrow> nat k" where
  "balloc dev s =
     balloc_from (map (\<lambda>i. i * BPB) [0..<(sb_size (sb s) + BPB - 1) div BPB]) dev s"

definition bfree :: "nat \<Rightarrow> nat \<Rightarrow> kst \<Rightarrow> unit k" where
  "bfree dev b s =
     bnd (bread dev (BBLOCK b (sb s)) s) (\<lambda>bp s.
     let bi = b mod BPB in
     if \<not> bm_test (b_data (bufs s bp)) bi then Panic ''freeing free block''
     else
       let s = upd_buf bp (\<lambda>x. x\<lparr>b_data := bm_clear (b_data x) bi\<rparr>) s in
       bnd (log_write bp s) (\<lambda>_ s.
       brelse bp s))"

end
