(* ===== verification/Fs_Inode.thy ===== *)
theory Fs_Inode
  imports Fs_Alloc
begin

text \<open>
  \<open>kernel/fs.c\<close>, second part: inodes. A \<open>struct dinode\<close> takes 64 bytes of an inode block: four
  16-bit integers, the 32-bit size and 13 block numbers. A pointer to an in-memory inode is its
  index in \<open>itable.inode\<close>; where the source allows a null pointer the argument or result is an
  option.
\<close>

section \<open>On-disk inodes\<close>

definition dip_off :: "nat \<Rightarrow> nat" where
  "dip_off inum = 64 * (inum mod IPB)"

definition enc_dinode :: "nat \<Rightarrow> inode \<Rightarrow> bytes \<Rightarrow> bytes" where
  "enc_dinode o0 ip bs =
     fold (\<lambda>j bs. wr32 bs (o0 + 12 + 4 * j) (of_nat (i_addrs ip j))) [0..<NDIRECT + 1]
      (wr32 (wr16 (wr16 (wr16 (wr16 bs o0 (of_int (i_type ip))) (o0 + 2) (of_int (i_major ip)))
         (o0 + 4) (of_int (i_minor ip))) (o0 + 6) (i_nlink ip)) (o0 + 8) (i_size ip))"

definition dec_dinode :: "nat \<Rightarrow> bytes \<Rightarrow> inode \<Rightarrow> inode" where
  "dec_dinode o0 bs ip =
     ip\<lparr>i_type := sint (rd16 bs o0), i_major := sint (rd16 bs (o0 + 2)),
        i_minor := sint (rd16 bs (o0 + 4)), i_nlink := rd16 bs (o0 + 6), i_size := rd32 bs (o0 + 8),
        i_addrs := (\<lambda>j. if j < NDIRECT + 1 then unat (rd32 bs (o0 + 12 + 4 * j)) else i_addrs ip j)\<rparr>"

definition iinit :: "kst \<Rightarrow> unit k" where
  "iinit s =
     (let s = initlock Litable ''itable'' s in
      for_each [0..<NINODE] (\<lambda>i s. Ok () (initsleeplock (SLinode i) ''inode'' s)) s)"

section \<open>The inode table\<close>

text \<open>The scan of \<open>iget\<close>: the entry of the inode if it is in the table, else the first empty one.\<close>

fun iget_scan :: "nat list \<Rightarrow> nat option \<Rightarrow> (nat \<Rightarrow> inode) \<Rightarrow> nat \<Rightarrow> nat \<Rightarrow> nat option \<times> nat option" where
  "iget_scan [] emp t dev inum = (None, emp)"
| "iget_scan (ip # rest) emp t dev inum =
     (if i_ref (t ip) > 0 \<and> i_dev (t ip) = dev \<and> i_inum (t ip) = inum then (Some ip, emp)
      else iget_scan rest (if emp = None \<and> i_ref (t ip) = 0 then Some ip else emp) t dev inum)"

definition iget :: "nat \<Rightarrow> nat \<Rightarrow> kst \<Rightarrow> nat k" where
  "iget dev inum s =
     bnd (acquire Litable s) (\<lambda>_ s.
     case iget_scan [0..<NINODE] None (inodes s) dev inum of
       (Some ip, _) \<Rightarrow>
         bnd (release Litable (upd_inode ip (\<lambda>i. i\<lparr>i_ref := i_ref i + 1\<rparr>) s)) (\<lambda>_ s. Ok ip s)
     | (None, None) \<Rightarrow> Panic ''iget: no inodes''
     | (None, Some ip) \<Rightarrow>
         bnd (release Litable
                (upd_inode ip (\<lambda>i. i\<lparr>i_dev := dev, i_inum := inum, i_ref := 1, i_valid := False\<rparr>) s))
           (\<lambda>_ s. Ok ip s))"

definition idup :: "nat \<Rightarrow> kst \<Rightarrow> nat k" where
  "idup ip s =
     bnd (acquire Litable s) (\<lambda>_ s.
     bnd (release Litable (upd_inode ip (\<lambda>i. i\<lparr>i_ref := i_ref i + 1\<rparr>) s)) (\<lambda>_ s.
     Ok ip s))"

fun ialloc_from :: "nat list \<Rightarrow> nat \<Rightarrow> int \<Rightarrow> kst \<Rightarrow> nat k" where
  "ialloc_from [] dev type s = Panic ''ialloc: no inodes''"
| "ialloc_from (inum # rest) dev type s =
     bnd (bread dev (IBLOCK inum (sb s)) s) (\<lambda>bp s.
     if rd16 (b_data (bufs s bp)) (dip_off inum) = 0
     then
       let s = upd_buf bp (\<lambda>x. x\<lparr>b_data := blit (b_data x) (dip_off inum) (replicate 64 0)\<rparr>) s;
           s = upd_buf bp (\<lambda>x. x\<lparr>b_data := wr16 (b_data x) (dip_off inum) (of_int type)\<rparr>) s
       in
       bnd (log_write bp s) (\<lambda>_ s.
       bnd (brelse bp s) (\<lambda>_ s.
       iget dev inum s))
     else bnd (brelse bp s) (\<lambda>_ s. ialloc_from rest dev type s))"

definition ialloc :: "nat \<Rightarrow> int \<Rightarrow> kst \<Rightarrow> nat k" where
  "ialloc dev type s = ialloc_from [1..<sb_ninodes (sb s)] dev type s"

definition iupdate :: "nat \<Rightarrow> kst \<Rightarrow> unit k" where
  "iupdate ip s =
     bnd (bread (i_dev (inodes s ip)) (IBLOCK (i_inum (inodes s ip)) (sb s)) s) (\<lambda>bp s.
     let s = upd_buf bp (\<lambda>x. x\<lparr>b_data :=
               enc_dinode (dip_off (i_inum (inodes s ip))) (inodes s ip) (b_data x)\<rparr>) s in
     bnd (log_write bp s) (\<lambda>_ s.
     brelse bp s))"

definition ilock :: "nat \<Rightarrow> kst \<Rightarrow> unit k" where
  "ilock ip s =
     (if i_ref (inodes s ip) < 1 then Panic ''ilock''
      else
        bnd (acquiresleep (SLinode ip) s) (\<lambda>_ s.
        if \<not> i_valid (inodes s ip)
        then
          bnd (bread (i_dev (inodes s ip)) (IBLOCK (i_inum (inodes s ip)) (sb s)) s) (\<lambda>bp s.
          let s = upd_inode ip (dec_dinode (dip_off (i_inum (inodes s ip))) (b_data (bufs s bp))) s in
          bnd (brelse bp s) (\<lambda>_ s.
          let s = upd_inode ip (\<lambda>i. i\<lparr>i_valid := True\<rparr>) s in
          if i_type (inodes s ip) = 0 then Panic ''ilock: no type'' else Ok () s))
        else Ok () s))"

definition iunlock :: "nat \<Rightarrow> kst \<Rightarrow> unit k" where
  "iunlock ip s =
     bnd (holdingsleep (SLinode ip) s) (\<lambda>h s.
     if \<not> h \<or> i_ref (inodes s ip) < 1 then Panic ''iunlock''
     else releasesleep (SLinode ip) s)"

section \<open>Contents\<close>

definition bmap :: "nat \<Rightarrow> nat \<Rightarrow> kst \<Rightarrow> nat k" where
  "bmap ip bn s =
     (if bn < NDIRECT
      then
        let addr = i_addrs (inodes s ip) bn in
        if addr = 0
        then bnd (balloc (i_dev (inodes s ip)) s) (\<lambda>addr s.
             Ok addr (upd_inode ip (\<lambda>i. i\<lparr>i_addrs := (i_addrs i)(bn := addr)\<rparr>) s))
        else Ok addr s
      else
        let bn = bn - NDIRECT in
        if bn < NINDIRECT
        then
          bnd (let addr = i_addrs (inodes s ip) NDIRECT in
               if addr = 0
               then bnd (balloc (i_dev (inodes s ip)) s) (\<lambda>addr s.
                    Ok addr (upd_inode ip (\<lambda>i. i\<lparr>i_addrs := (i_addrs i)(NDIRECT := addr)\<rparr>) s))
               else Ok addr s) (\<lambda>addr s.
          bnd (bread (i_dev (inodes s ip)) addr s) (\<lambda>bp s.
          bnd (let addr = unat (rd32 (b_data (bufs s bp)) (4 * bn)) in
               if addr = 0
               then bnd (balloc (i_dev (inodes s ip)) s) (\<lambda>addr s.
                    let s = upd_buf bp (\<lambda>x. x\<lparr>b_data := wr32 (b_data x) (4 * bn) (of_nat addr)\<rparr>) s in
                    bnd (log_write bp s) (\<lambda>_ s. Ok addr s))
               else Ok addr s) (\<lambda>addr s.
          bnd (brelse bp s) (\<lambda>_ s.
          Ok addr s))))
        else Panic ''bmap: out of range'')"

definition itrunc :: "nat \<Rightarrow> kst \<Rightarrow> unit k" where
  "itrunc ip s =
     bnd (for_each [0..<NDIRECT] (\<lambda>i s.
            if i_addrs (inodes s ip) i \<noteq> 0
            then bnd (bfree (i_dev (inodes s ip)) (i_addrs (inodes s ip) i) s) (\<lambda>_ s.
                 Ok () (upd_inode ip (\<lambda>n. n\<lparr>i_addrs := (i_addrs n)(i := 0)\<rparr>) s))
            else Ok () s) s) (\<lambda>_ s.
     bnd (if i_addrs (inodes s ip) NDIRECT \<noteq> 0
          then
            bnd (bread (i_dev (inodes s ip)) (i_addrs (inodes s ip) NDIRECT) s) (\<lambda>bp s.
            bnd (for_each [0..<NINDIRECT] (\<lambda>j s.
                   if rd32 (b_data (bufs s bp)) (4 * j) \<noteq> 0
                   then bfree (i_dev (inodes s ip)) (unat (rd32 (b_data (bufs s bp)) (4 * j))) s
                   else Ok () s) s) (\<lambda>_ s.
            bnd (brelse bp s) (\<lambda>_ s.
            bnd (bfree (i_dev (inodes s ip)) (i_addrs (inodes s ip) NDIRECT) s) (\<lambda>_ s.
            Ok () (upd_inode ip (\<lambda>n. n\<lparr>i_addrs := (i_addrs n)(NDIRECT := 0)\<rparr>) s)))))
          else Ok () s) (\<lambda>_ s.
     iupdate ip (upd_inode ip (\<lambda>n. n\<lparr>i_size := 0\<rparr>) s)))"

definition iput :: "nat \<Rightarrow> kst \<Rightarrow> unit k" where
  "iput ip s =
     bnd (acquire Litable s) (\<lambda>_ s.
     bnd (if i_ref (inodes s ip) = 1 \<and> i_valid (inodes s ip) \<and> i_nlink (inodes s ip) = 0
          then
            bnd (acquiresleep (SLinode ip) s) (\<lambda>_ s.
            bnd (release Litable s) (\<lambda>_ s.
            bnd (itrunc ip s) (\<lambda>_ s.
            bnd (iupdate ip (upd_inode ip (\<lambda>i. i\<lparr>i_type := 0\<rparr>) s)) (\<lambda>_ s.
            bnd (releasesleep (SLinode ip) (upd_inode ip (\<lambda>i. i\<lparr>i_valid := False\<rparr>) s)) (\<lambda>_ s.
            acquire Litable s)))))
          else Ok () s) (\<lambda>_ s.
     release Litable (upd_inode ip (\<lambda>i. i\<lparr>i_ref := i_ref i - 1\<rparr>) s)))"

definition iunlockput :: "nat \<Rightarrow> kst \<Rightarrow> unit k" where
  "iunlockput ip s = bnd (iunlock ip s) (\<lambda>_ s. iput ip s)"

text \<open>\<open>struct stat\<close> as the bytes that are copied to user space: \<open>int dev\<close>, \<open>uint ino\<close>,
  \<open>short type\<close>, \<open>short nlink\<close>, four bytes of padding, \<open>uint64 size\<close>.\<close>

record stat =
  st_dev :: int
  st_ino :: nat
  st_type :: int
  st_nlink :: u16
  st_size :: u64

definition stati :: "nat \<Rightarrow> kst \<Rightarrow> stat" where
  "stati ip s =
     (let i = inodes s ip in
      \<lparr>st_dev = int (i_dev i), st_ino = i_inum i, st_type = i_type i, st_nlink = i_nlink i,
       st_size = ucast (i_size i)\<rparr>)"

lemma chunk_progress:
  fixes n tot m :: u32
  assumes "tot < n" and "0 < m" and "m \<le> n - tot"
  shows "unat (n - (tot + m)) < unat (n - tot)"
proof -
  have "unat (n - tot - m) = unat (n - tot) - unat m" using assms(3) by (rule unat_sub)
  moreover have "0 < unat m" using assms(2) by (simp add: word_less_nat_alt)
  moreover have "unat m \<le> unat (n - tot)" using assms(3) by (simp add: word_le_nat_alt)
  ultimately have "unat (n - tot - m) < unat (n - tot)" by linarith
  then show ?thesis by (simp only: diff_diff_eq)
qed

definition io_chunk :: "u32 \<Rightarrow> u32 \<Rightarrow> u32 \<Rightarrow> u32" where
  "io_chunk n tot off = min (n - tot) (1024 - off mod 1024)"

lemma io_chunk_progress: "tot < n \<Longrightarrow> unat (n - (tot + io_chunk n tot off)) < unat (n - tot)"
proof (rule chunk_progress)
  assume lt: "tot < n"
  have "off mod 1024 < 1024" by (simp add: word_less_nat_alt unat_mod)
  moreover have "0 < n - tot" using lt by (metis diff_gt_0_iff_gt word_gt_0 right_minus_eq less_irrefl)
  ultimately show "0 < io_chunk n tot off"
    by (auto simp: io_chunk_def min_def word_gt_0)
  show "io_chunk n tot off \<le> n - tot" by (simp add: io_chunk_def)
qed

function readi_loop :: "nat \<Rightarrow> bool \<Rightarrow> u64 \<Rightarrow> u32 \<Rightarrow> u32 \<Rightarrow> u32 \<Rightarrow> kst \<Rightarrow> int k" where
  "readi_loop ip user_dst dst off n tot s =
     (if tot < n
      then
        bnd (bmap ip (unat (off div 1024)) s) (\<lambda>addr s.
        bnd (bread (i_dev (inodes s ip)) addr s) (\<lambda>bp s.
        let m = io_chunk n tot off in
        bnd (either_copyout user_dst dst
               (slice (b_data (bufs s bp)) (unat (off mod 1024)) (unat m)) s) (\<lambda>r s.
        if r = - 1 then bnd (brelse bp s) (\<lambda>_ s. Ok (- 1) s)
        else bnd (brelse bp s) (\<lambda>_ s.
             readi_loop ip user_dst (dst + ucast m) (off + m) n (tot + m) s))))
      else Ok (sint tot) s)"
  by auto
termination
  by (relation "measure (\<lambda>(_, _, _, _, n, tot, _). unat (n - tot))") (auto simp: io_chunk_progress)

definition readi :: "nat \<Rightarrow> bool \<Rightarrow> u64 \<Rightarrow> u32 \<Rightarrow> u32 \<Rightarrow> kst \<Rightarrow> int k" where
  "readi ip user_dst dst off n s =
     (if off > i_size (inodes s ip) \<or> off + n < off then Ok 0 s
      else
        let n = (if off + n > i_size (inodes s ip) then i_size (inodes s ip) - off else n) in
        readi_loop ip user_dst dst off n 0 s)"

text \<open>
  The loop of \<open>writei\<close> returns the final \<open>tot\<close> and \<open>off\<close>. When the copy fails, the bytes already
  copied stay in the buffer.
\<close>

function writei_loop :: "nat \<Rightarrow> bool \<Rightarrow> u64 \<Rightarrow> u32 \<Rightarrow> u32 \<Rightarrow> u32 \<Rightarrow> kst \<Rightarrow> (u32 \<times> u32) k" where
  "writei_loop ip user_src src off n tot s =
     (if tot < n
      then
        bnd (bmap ip (unat (off div 1024)) s) (\<lambda>addr s.
        bnd (bread (i_dev (inodes s ip)) addr s) (\<lambda>bp s.
        let m = io_chunk n tot off in
        bnd (either_copyin user_src src (unat m) s) (\<lambda>r s.
        let s = upd_buf bp (\<lambda>x. x\<lparr>b_data := blit (b_data x) (unat (off mod 1024)) (snd r)\<rparr>) s in
        if fst r = - 1 then bnd (brelse bp s) (\<lambda>_ s. Ok (tot, off) s)
        else
          bnd (log_write bp s) (\<lambda>_ s.
          bnd (brelse bp s) (\<lambda>_ s.
          writei_loop ip user_src (src + ucast m) (off + m) n (tot + m) s)))))
      else Ok (tot, off) s)"
  by auto
termination
  by (relation "measure (\<lambda>(_, _, _, _, n, tot, _). unat (n - tot))") (auto simp: io_chunk_progress)

declare readi_loop.simps [simp del] writei_loop.simps [simp del]

definition writei :: "nat \<Rightarrow> bool \<Rightarrow> u64 \<Rightarrow> u32 \<Rightarrow> u32 \<Rightarrow> kst \<Rightarrow> int k" where
  "writei ip user_src src off n s =
     (if off > i_size (inodes s ip) \<or> off + n < off then Ok (- 1) s
      else if off + n > of_nat (MAXFILE * BSIZE) then Ok (- 1) s
      else
        bnd (writei_loop ip user_src src off n 0 s) (\<lambda>r s.
        let s = (if snd r > i_size (inodes s ip)
                 then upd_inode ip (\<lambda>i. i\<lparr>i_size := snd r\<rparr>) s else s) in
        bnd (iupdate ip s) (\<lambda>_ s.
        Ok (sint (fst r)) s)))"

end
