(* ===== verification/Fs_Dir.thy ===== *)
theory Fs_Dir
  imports Fs_Inode
begin

text \<open>
  \<open>kernel/fs.c\<close>, third part: directories and path names. A \<open>struct dirent\<close> is 16 bytes, a 16-bit
  inode number and a name of \<open>DIRSIZ\<close> bytes. A NUL-terminated path is the list of the bytes
  before the NUL; a name buffer is the list of the bytes stored in it, read through \<open>arr\<close>.
\<close>

section \<open>Directories\<close>

definition namecmp :: "cptr \<Rightarrow> cptr \<Rightarrow> int" where
  "namecmp s t = strncmp s t DIRSIZ"

text \<open>
  The address of a local variable: the compiler places it in the frame of the function, on the
  kernel stack of the process, or on the boot stack of the CPU.
\<close>

definition local_addr :: "kst \<Rightarrow> u64" where
  "local_addr s =
     (case c_proc (cpus s (hart s)) of
        Some p \<Rightarrow> p_kstack (procs s p) + 2048
      | None \<Rightarrow> sym_stack0 (syms s) + 4096 * of_nat (hart s) + 2048)"

definition de_inum :: "memory \<Rightarrow> u64 \<Rightarrow> u16" where
  "de_inum m de = le_dec (mslice m de 2)"

definition de_name :: "memory \<Rightarrow> u64 \<Rightarrow> cptr" where
  "de_name m de = ptr m (de + 2)"

lemma readi_no_wrap:
  assumes "readi ip u dst off 16 s = Ok r t" and "r = 16"
  shows "unat (off + 16) = unat off + 16"
proof -
  have "\<not> off + 16 < off" using assms by (auto simp: readi_def split: if_splits)
  then have "off \<le> off + 16" by simp
  then show ?thesis by (simp add: unat_plus_simple)
qed

lemma dir_measure:
  fixes off :: u32
  assumes "unat (off + 16) = unat off + 16"
  shows "2 ^ 32 - unat (off + 16) < 2 ^ 32 - unat off"
proof -
  have "unat (off + 16) < 2 ^ 32" by (rule order_less_le_trans[OF unsigned_less]) simp
  then show ?thesis using assms by linarith
qed

text \<open>The result is the inode and the offset of the entry.\<close>

function dirlookup_loop :: "nat \<Rightarrow> cptr \<Rightarrow> u64 \<Rightarrow> u32 \<Rightarrow> kst \<Rightarrow> (nat \<times> u32) option k" where
  "dirlookup_loop dp name de off s =
     (if off < i_size (inodes s dp)
      then
        bnd (readi dp False de off 16 s) (\<lambda>r s.
        if r \<noteq> 16 then Panic ''dirlookup read''
        else if de_inum (mem s) de = 0 then dirlookup_loop dp name de (off + 16) s
        else if namecmp name (de_name (mem s) de) = 0
        then bnd (iget (i_dev (inodes s dp)) (unat (de_inum (mem s) de)) s) (\<lambda>ip s. Ok (Some (ip, off)) s)
        else dirlookup_loop dp name de (off + 16) s)
      else Ok None s)"
  by auto
termination
  by (relation "measure (\<lambda>(_, _, _, off, _). 2 ^ 32 - unat off)")
     (auto dest: readi_no_wrap intro: dir_measure simp del: power_numeral)

definition dirlookup :: "nat \<Rightarrow> cptr \<Rightarrow> kst \<Rightarrow> (nat \<times> u32) option k" where
  "dirlookup dp name s =
     (if i_type (inodes s dp) \<noteq> T_DIR then Panic ''dirlookup not DIR''
      else dirlookup_loop dp name (local_addr s) 0 s)"

text \<open>The offset of the first empty entry, or of the end of the directory.\<close>

function dirlink_scan :: "nat \<Rightarrow> u64 \<Rightarrow> u32 \<Rightarrow> kst \<Rightarrow> u32 k" where
  "dirlink_scan dp de off s =
     (if off < i_size (inodes s dp)
      then
        bnd (readi dp False de off 16 s) (\<lambda>r s.
        if r \<noteq> 16 then Panic ''dirlink read''
        else if de_inum (mem s) de = 0 then Ok off s
        else dirlink_scan dp de (off + 16) s)
      else Ok off s)"
  by auto
termination
  by (relation "measure (\<lambda>(_, _, off, _). 2 ^ 32 - unat off)")
     (auto dest: readi_no_wrap intro: dir_measure simp del: power_numeral)

declare dirlookup_loop.simps [simp del] dirlink_scan.simps [simp del]

definition dirlink :: "nat \<Rightarrow> cptr \<Rightarrow> nat \<Rightarrow> kst \<Rightarrow> int k" where
  "dirlink dp name inum s =
     bnd (dirlookup dp name s) (\<lambda>r s.
     case r of
       Some (ip, _) \<Rightarrow> bnd (iput ip s) (\<lambda>_ s. Ok (- 1) s)
     | None \<Rightarrow>
         let de = local_addr s in
         bnd (dirlink_scan dp de 0 s) (\<lambda>off s.
         let s = s\<lparr>mem := mblit (mem s) (de + 2) (strncpy name DIRSIZ)\<rparr>;
             s = s\<lparr>mem := mblit (mem s) de (le_enc 2 (of_nat inum :: u16))\<rparr>
         in
         bnd (writei dp False de off 16 s) (\<lambda>r s.
         if r \<noteq> 16 then Panic ''dirlink'' else Ok 0 s)))"

section \<open>Paths\<close>

abbreviation (input) SLASH :: u8 where "SLASH \<equiv> 47"

definition skipelem :: "bytes \<Rightarrow> (bytes \<times> bytes) option" where
  "skipelem path =
     (let path = dropWhile (\<lambda>c. c = SLASH) path in
      if path = [] then None
      else
        let el = takeWhile (\<lambda>c. c \<noteq> SLASH) path;
            path = dropWhile (\<lambda>c. c \<noteq> SLASH) path;
            name = (if length el \<ge> DIRSIZ then take DIRSIZ el else el @ [0])
        in Some (dropWhile (\<lambda>c. c = SLASH) path, name))"

lemma skipelem_shorter:
  assumes "skipelem path = Some (rest, name)"
  shows "length rest < length path"
proof -
  let ?p = "dropWhile (\<lambda>c. c = SLASH) path"
  have ne: "?p \<noteq> []" and r: "rest = dropWhile (\<lambda>c. c = SLASH) (dropWhile (\<lambda>c. c \<noteq> SLASH) ?p)"
    using assms by (auto simp: skipelem_def Let_def split: if_splits)
  have "hd ?p \<noteq> SLASH" using hd_dropWhile[OF ne] by simp
  then obtain c cs where p: "?p = c # cs" "c \<noteq> SLASH" using ne by (cases ?p) auto
  then have "length rest \<le> length cs"
    by (simp add: r) (meson length_dropWhile_le order_trans)
  moreover have "Suc (length cs) \<le> length path" using p(1) length_dropWhile_le[of "\<lambda>c. c = SLASH" path] by simp
  ultimately show ?thesis by simp
qed

function namex_loop :: "bytes \<Rightarrow> bool \<Rightarrow> bytes \<Rightarrow> nat \<Rightarrow> kst \<Rightarrow> (nat option \<times> bytes) k" where
  "namex_loop path nameiparent name ip s =
     (case skipelem path of
        None \<Rightarrow>
          if nameiparent then bnd (iput ip s) (\<lambda>_ s. Ok (None, name) s) else Ok (Some ip, name) s
      | Some (path', name') \<Rightarrow>
          bnd (ilock ip s) (\<lambda>_ s.
          if i_type (inodes s ip) \<noteq> T_DIR
          then bnd (iunlockput ip s) (\<lambda>_ s. Ok (None, name') s)
          else if nameiparent \<and> path' = []
          then bnd (iunlock ip s) (\<lambda>_ s. Ok (Some ip, name') s)
          else
            bnd (dirlookup ip (arr name') s) (\<lambda>r s.
            case r of
              None \<Rightarrow> bnd (iunlockput ip s) (\<lambda>_ s. Ok (None, name') s)
            | Some (next, off) \<Rightarrow>
                bnd (iunlockput ip s) (\<lambda>_ s. namex_loop path' nameiparent name' next s))))"
  by pat_completeness auto
termination
  by (relation "measure (\<lambda>(path, _). length path)") (auto dest: skipelem_shorter)

declare namex_loop.simps [simp del]

definition namex :: "bytes \<Rightarrow> bool \<Rightarrow> kst \<Rightarrow> (nat option \<times> bytes) k" where
  "namex path nameiparent s =
     bnd (if path \<noteq> [] \<and> hd path = SLASH then iget ROOTDEV ROOTINO s
          else bnd (curproc s) (\<lambda>p s.
               case p_cwd (procs s p) of
                 None \<Rightarrow> Panic ''kerneltrap''
               | Some cwd \<Rightarrow> idup cwd s)) (\<lambda>ip s.
     namex_loop path nameiparent [] ip s)"

definition namei :: "bytes \<Rightarrow> kst \<Rightarrow> nat option k" where
  "namei path s = bnd (namex path False s) (\<lambda>r s. Ok (fst r) s)"

definition nameiparent :: "bytes \<Rightarrow> kst \<Rightarrow> (nat option \<times> bytes) k" where
  "nameiparent path s = namex path True s"

end
