(* ===== verification/Pipe.thy ===== *)
theory Pipe
  imports Sched
begin

text \<open>
  \<open>kernel/pipe.c\<close> (\<open>pipealloc\<close> is with the file table in \<open>File\<close>). A pipe is identified by the
  address of its page. The ring buffer of \<open>PIPESIZE\<close> bytes is indexed by free-running 32-bit
  counters.
\<close>

abbreviation (input) PIPESIZE :: nat where "PIPESIZE \<equiv> 512"

section \<open>Code\<close>

definition pipeclose :: "u64 \<Rightarrow> bool \<Rightarrow> kst \<Rightarrow> unit k" where
  "pipeclose pi writable s =
     bnd (acquire (Lpipe pi) s) (\<lambda>_ s.
     bnd (if writable
          then wakeup (Cpipe_nread pi) (upd_pipe pi (\<lambda>p. p\<lparr>pi_writeopen := False\<rparr>) s)
          else wakeup (Cpipe_nwrite pi) (upd_pipe pi (\<lambda>p. p\<lparr>pi_readopen := False\<rparr>) s)) (\<lambda>_ s.
     if \<not> pi_readopen (pipes s pi) \<and> \<not> pi_writeopen (pipes s pi)
     then bnd (release (Lpipe pi) s) (\<lambda>_ s. kfree pi s)
     else release (Lpipe pi) s))"

text \<open>Storing and fetching one byte.\<close>

definition pipe_put :: "u8 \<Rightarrow> pipe \<Rightarrow> pipe" where
  "pipe_put ch p = p\<lparr>pi_data := (pi_data p)(unat (pi_nwrite p) mod PIPESIZE := ch),
                     pi_nwrite := pi_nwrite p + 1\<rparr>"

definition pipe_get :: "pipe \<Rightarrow> u8 \<times> pipe" where
  "pipe_get p = (pi_data p (unat (pi_nread p) mod PIPESIZE), p\<lparr>pi_nread := pi_nread p + 1\<rparr>)"

definition pipe_full :: "pipe \<Rightarrow> bool" where
  "pipe_full p \<longleftrightarrow> pi_nwrite p = pi_nread p + of_nat PIPESIZE"

definition pipe_empty :: "pipe \<Rightarrow> bool" where
  "pipe_empty p \<longleftrightarrow> pi_nread p = pi_nwrite p"

lemma wakeup_turns: "wakeup c s = Ok u t \<Longrightarrow> turns t = turns s"
  using quiet_select[OF wakeup_OkD] by (auto intro: turns_cong)

text \<open>
  The writing loop: \<open>i\<close> bytes have been written so far, \<open>n\<close> remain. The result is \<open>None\<close> for
  the early \<open>return -1\<close> (which has released the lock), else the value of \<open>i\<close>.
\<close>

function pipewrite_loop :: "u64 \<Rightarrow> nat \<Rightarrow> u64 \<Rightarrow> nat \<Rightarrow> int \<Rightarrow> kst \<Rightarrow> int option k" where
  "pipewrite_loop pi pr addr n i s =
     (if n = 0 then Ok (Some i) s
      else if \<not> pi_readopen (pipes s pi) \<or> p_killed (procs s pr)
      then bnd (release (Lpipe pi) s) (\<lambda>_ s. Ok None s)
      else if pipe_full (pipes s pi)
      then bnd (wakeup (Cpipe_nread pi) s) (\<lambda>_ s.
           bnd (sleep (Cpipe_nwrite pi) (Lpipe pi) s) (\<lambda>_ s.
           pipewrite_loop pi pr addr n i s))
      else
        bnd (copyin (p_pagetable (procs s pr)) (addr + of_int i) 1 s) (\<lambda>r s.
        if fst r = - 1 then Ok (Some i) s
        else pipewrite_loop pi pr addr (n - 1) (i + 1) (upd_pipe pi (pipe_put (hd (snd r))) s)))"
  by auto
termination
proof (relation "(\<lambda>(_, _, _, n, _, s). n) <*mlex*> measure (\<lambda>(_, _, _, _, _, s). turns s)")
  fix pi pr addr n i s s1 s2 u v
  assume "wakeup (Cpipe_nread pi) s = Ok u s1" and "sleep (Cpipe_nwrite pi) (Lpipe pi) s1 = Ok v s2"
  then have "turns s2 < turns s" using wakeup_turns sleep_turns by fastforce
  then show "((pi, pr, addr, n, i, s2), pi, pr, addr, n, i, s)
      \<in> (\<lambda>(_, _, _, n, _, s). n) <*mlex*> measure (\<lambda>(_, _, _, _, _, s). turns s)"
    by (simp add: mlex_prod_def)
qed (auto simp: mlex_prod_def wf_mlex copyin_eq)

declare pipewrite_loop.simps [simp del]

definition pipewrite :: "u64 \<Rightarrow> u64 \<Rightarrow> int \<Rightarrow> kst \<Rightarrow> int k" where
  "pipewrite pi addr n s =
     bnd (curproc s) (\<lambda>pr s.
     bnd (acquire (Lpipe pi) s) (\<lambda>_ s.
     bnd (pipewrite_loop pi pr addr (nat n) 0 s) (\<lambda>r s.
     case r of
       None \<Rightarrow> Ok (- 1) s
     | Some i \<Rightarrow>
         bnd (wakeup (Cpipe_nread pi) s) (\<lambda>_ s.
         bnd (release (Lpipe pi) s) (\<lambda>_ s.
         Ok i s)))))"

text \<open>Waiting for data; \<open>False\<close> when the process has been killed.\<close>

function piperead_wait :: "u64 \<Rightarrow> nat \<Rightarrow> kst \<Rightarrow> bool k" where
  "piperead_wait pi pr s =
     (if pipe_empty (pipes s pi) \<and> pi_writeopen (pipes s pi)
      then
        if p_killed (procs s pr) then Ok False s
        else bnd (sleep (Cpipe_nread pi) (Lpipe pi) s) (\<lambda>_ s. piperead_wait pi pr s)
      else Ok True s)"
  by auto
termination
  by (relation "measure (\<lambda>(_, _, s). turns s)") (auto dest: sleep_turns)

declare piperead_wait.simps [simp del]

fun piperead_copy :: "u64 \<Rightarrow> nat \<Rightarrow> u64 \<Rightarrow> nat \<Rightarrow> int \<Rightarrow> kst \<Rightarrow> int k" where
  "piperead_copy pi pr addr 0 i s = Ok i s"
| "piperead_copy pi pr addr (Suc n) i s =
     (if pipe_empty (pipes s pi) then Ok i s
      else
        let ch = fst (pipe_get (pipes s pi));
            s = upd_pipe pi (\<lambda>p. snd (pipe_get p)) s
        in
        bnd (copyout (p_pagetable (procs s pr)) (addr + of_int i) [ch] s) (\<lambda>r s.
        if r = - 1 then Ok i s
        else piperead_copy pi pr addr n (i + 1) s))"

definition piperead :: "u64 \<Rightarrow> u64 \<Rightarrow> int \<Rightarrow> kst \<Rightarrow> int k" where
  "piperead pi addr n s =
     bnd (curproc s) (\<lambda>pr s.
     bnd (acquire (Lpipe pi) s) (\<lambda>_ s.
     bnd (piperead_wait pi pr s) (\<lambda>ok s.
     if \<not> ok then bnd (release (Lpipe pi) s) (\<lambda>_ s. Ok (- 1) s)
     else
       bnd (piperead_copy pi pr addr (nat n) 0 s) (\<lambda>i s.
       bnd (wakeup (Cpipe_nwrite pi) s) (\<lambda>_ s.
       bnd (release (Lpipe pi) s) (\<lambda>_ s.
       Ok i s))))))"

end
