(* ===== verification/Console.thy ===== *)
theory Console
  imports Sched
begin

text \<open>
  \<open>kernel/uart.c\<close>, \<open>kernel/printf.c\<close> and \<open>kernel/console.c\<close>. The UART is part of the state: the
  bytes it has accepted (\<open>tx_sent\<close>), the bytes waiting in its receive FIFO (\<open>rx_fifo\<close>), and the
  answers the line status register will give to the question whether the transmit register
  is idle (\<open>tx_idle\<close>); when the answers run out the register reads idle.
\<close>

abbreviation (input) UART_TX_BUF_SIZE :: nat where "UART_TX_BUF_SIZE \<equiv> 32"
abbreviation (input) INPUT_BUF :: nat where "INPUT_BUF \<equiv> 128"
abbreviation (input) CONSOLE :: nat where "CONSOLE \<equiv> 1"
abbreviation (input) BACKSPACE :: nat where "BACKSPACE \<equiv> 0x100"

section \<open>UART\<close>

definition upd_uart :: "(uart \<Rightarrow> uart) \<Rightarrow> kst \<Rightarrow> kst" where
  "upd_uart f s = s\<lparr>kuart := f (kuart s)\<rparr>"

text \<open>The register writes of \<open>uartinit\<close> configure the device; the model keeps only the lock.\<close>

definition uartinit :: "kst \<Rightarrow> (nat \<times> nat) list \<times> kst" where
  "uartinit s =
     ([(1, 0x00), (3, 0x80), (0, 0x03), (1, 0x00), (3, 0x03), (2, 0x07), (1, 0x03)],
      initlock Luart_tx ''uart'' s)"

definition lsr_tx_idle :: "kst \<Rightarrow> bool \<times> kst" where
  "lsr_tx_idle s =
     (case tx_idle (kuart s) of
        [] \<Rightarrow> (True, s)
      | b # bs \<Rightarrow> (b, upd_uart (\<lambda>u. u\<lparr>tx_idle := bs\<rparr>) s))"

definition write_thr :: "u8 \<Rightarrow> kst \<Rightarrow> kst" where
  "write_thr c s = upd_uart (\<lambda>u. u\<lparr>tx_sent := tx_sent u @ [c]\<rparr>) s"

lemma lsr_tx_idle_select:
  "tx_w (kuart (snd (lsr_tx_idle s))) = tx_w (kuart s)"
  "tx_r (kuart (snd (lsr_tx_idle s))) = tx_r (kuart s)"
  by (simp_all add: lsr_tx_idle_def upd_uart_def split: list.splits)

function uartstart :: "kst \<Rightarrow> unit k" where
  "uartstart s =
     (if tx_w (kuart s) = tx_r (kuart s) then Ok () s
      else if \<not> fst (lsr_tx_idle s) then Ok () (snd (lsr_tx_idle s))
      else
        let s = snd (lsr_tx_idle s);
            c = tx_buf (kuart s) (unat (tx_r (kuart s)) mod UART_TX_BUF_SIZE);
            s = upd_uart (\<lambda>u. u\<lparr>tx_r := tx_r u + 1\<rparr>) s
        in bnd (wakeup Cuart_tx_r s) (\<lambda>_ s. uartstart (write_thr c s)))"
  by auto
termination
proof (relation "measure (\<lambda>s. unat (tx_w (kuart s) - tx_r (kuart s)))")
  fix s s1 s2 t :: kst and c :: u8 and u :: unit
  let ?d = "tx_w (kuart s) - tx_r (kuart s)"
  assume ne: "tx_w (kuart s) \<noteq> tx_r (kuart s)" and s1: "s1 = snd (lsr_tx_idle s)"
    and s2: "s2 = upd_uart (\<lambda>u. u\<lparr>tx_r := tx_r u + 1\<rparr>) s1" and w: "wakeup Cuart_tx_r s2 = Ok u t"
  have "kuart t = kuart s2" using quiet_select[OF wakeup_OkD[OF w]] by simp
  then have e: "tx_w (kuart (write_thr c t)) - tx_r (kuart (write_thr c t)) = ?d - 1"
    using lsr_tx_idle_select[of s] by (simp add: write_thr_def upd_uart_def s1 s2)
  have nz: "?d \<noteq> 0" using ne by simp
  then have "unat (?d - 1) < unat ?d" using unat_minus_one[OF nz] by (simp add: unat_gt_0)
  then show "(write_thr c t, s) \<in> measure (\<lambda>s. unat (tx_w (kuart s) - tx_r (kuart s)))"
    by (simp only: e in_measure)
qed simp

declare uartstart.simps [simp del]

function uartputc_loop :: "u8 \<Rightarrow> kst \<Rightarrow> unit k" where
  "uartputc_loop c s =
     (if tx_w (kuart s) = tx_r (kuart s) + of_nat UART_TX_BUF_SIZE
      then bnd (sleep Cuart_tx_r Luart_tx s) (\<lambda>_ s. uartputc_loop c s)
      else
        let s = upd_uart (\<lambda>u. u\<lparr>tx_buf := (tx_buf u)(unat (tx_w u) mod UART_TX_BUF_SIZE := c)\<rparr>) s;
            s = upd_uart (\<lambda>u. u\<lparr>tx_w := tx_w u + 1\<rparr>) s
        in bnd (uartstart s) (\<lambda>_ s. release Luart_tx s))"
  by auto
termination
  by (relation "measure (\<lambda>(_, s). turns s)") (auto dest: sleep_turns)

declare uartputc_loop.simps [simp del]

definition uartputc :: "u8 \<Rightarrow> kst \<Rightarrow> unit k" where
  "uartputc c s =
     bnd (acquire Luart_tx s) (\<lambda>_ s.
     if panicked s then Hang else uartputc_loop c s)"

text \<open>Spinning on the line status register until it reads idle.\<close>

definition spin_tx_idle :: "kst \<Rightarrow> kst" where
  "spin_tx_idle s = upd_uart (\<lambda>u. u\<lparr>tx_idle := tl (dropWhile (\<lambda>b. \<not> b) (tx_idle u))\<rparr>) s"

definition uartputc_sync :: "u8 \<Rightarrow> kst \<Rightarrow> unit k" where
  "uartputc_sync c s =
     bnd (push_off s) (\<lambda>_ s.
     if panicked s then Hang
     else pop_off (write_thr c (spin_tx_idle s)))"

text \<open>\<open>None\<close> is the result \<open>-1\<close>.\<close>

definition uartgetc :: "kst \<Rightarrow> u8 option \<times> kst" where
  "uartgetc s =
     (case rx_fifo (kuart s) of
        [] \<Rightarrow> (None, s)
      | c # cs \<Rightarrow> (Some c, upd_uart (\<lambda>u. u\<lparr>rx_fifo := cs\<rparr>) s))"

section \<open>Formatted output\<close>

definition consputc :: "nat \<Rightarrow> kst \<Rightarrow> unit k" where
  "consputc c s =
     (if c = BACKSPACE
      then bnd (uartputc_sync 8 s) (\<lambda>_ s. bnd (uartputc_sync 32 s) (\<lambda>_ s. uartputc_sync 8 s))
      else uartputc_sync (of_nat c) s)"

definition digits :: "nat \<Rightarrow> nat" where
  "digits d = (if d < 10 then 48 + d else 87 + d)"

text \<open>The digits in the order in which the loop of \<open>printint\<close> stores them, the last one first.\<close>

function print_digits :: "nat \<Rightarrow> nat \<Rightarrow> nat list" where
  "print_digits base x =
     digits (x mod base) # (if base < 2 \<or> x div base = 0 then [] else print_digits base (x div base))"
  by auto
termination
  by (relation "measure snd") (auto simp: div_greater_zero_iff)

declare print_digits.simps [simp del]

definition printint_chars :: "u32 \<Rightarrow> nat \<Rightarrow> bool \<Rightarrow> nat list" where
  "printint_chars xx base sign =
     (let neg = (sign \<and> sint xx < 0);
          x = (if neg then - xx else xx)
      in rev (print_digits base (unat x) @ (if neg then [45] else [])))"

definition printint :: "u32 \<Rightarrow> nat \<Rightarrow> bool \<Rightarrow> kst \<Rightarrow> unit k" where
  "printint xx base sign s = for_each (printint_chars xx base sign) consputc s"

text \<open>The digit of weight \<open>16 ^ (15 - i)\<close>, from the most significant one down.\<close>

definition printptr_chars :: "u64 \<Rightarrow> nat list" where
  "printptr_chars x = [48, 120] @ map (\<lambda>i. digits (unat (drop_bit 60 (push_bit (4 * i) x)))) [0..<16]"

definition printptr :: "u64 \<Rightarrow> kst \<Rightarrow> unit k" where
  "printptr x s = for_each (printptr_chars x) consputc s"

text \<open>
  A variable argument is an \<open>int\<close>, a \<open>uint64\<close> or a string pointer that may be null. A conversion
  without a matching argument is undefined in C.
\<close>

datatype va_arg = VInt u32 | VPtr u64 | VStr "bytes option"

fun printf_loop :: "bytes \<Rightarrow> va_arg list \<Rightarrow> kst \<Rightarrow> unit k" where
  "printf_loop [] ap s = Ok () s"
| "printf_loop [c] ap s = (if c \<noteq> 37 then consputc (unat c) s else Ok () s)"
| "printf_loop (c # d # fmt) ap s =
     (if c \<noteq> 37 then bnd (consputc (unat c) s) (\<lambda>_ s. printf_loop (d # fmt) ap s)
      else if d = 100 then
        (case ap of VInt x # ap' \<Rightarrow> bnd (printint x 10 True s) (\<lambda>_ s. printf_loop fmt ap' s) | _ \<Rightarrow> Hang)
      else if d = 120 then
        (case ap of VInt x # ap' \<Rightarrow> bnd (printint x 16 True s) (\<lambda>_ s. printf_loop fmt ap' s) | _ \<Rightarrow> Hang)
      else if d = 112 then
        (case ap of VPtr x # ap' \<Rightarrow> bnd (printptr x s) (\<lambda>_ s. printf_loop fmt ap' s) | _ \<Rightarrow> Hang)
      else if d = 115 then
        (case ap of
           VStr p # ap' \<Rightarrow>
             let str = (case p of None \<Rightarrow> [40, 110, 117, 108, 108, 41] | Some str \<Rightarrow> str) in
             bnd (for_each (map unat str) consputc s) (\<lambda>_ s. printf_loop fmt ap' s)
         | _ \<Rightarrow> Hang)
      else if d = 37 then bnd (consputc 37 s) (\<lambda>_ s. printf_loop fmt ap s)
      else bnd (consputc 37 s) (\<lambda>_ s. bnd (consputc (unat d) s) (\<lambda>_ s. printf_loop fmt ap s)))"

text \<open>The format is never null.\<close>

definition printf :: "bytes \<Rightarrow> va_arg list \<Rightarrow> kst \<Rightarrow> unit k" where
  "printf fmt ap s =
     (let locking = pr_locking s in
      bnd (if locking then acquire Lpr s else Ok () s) (\<lambda>_ s.
      bnd (printf_loop fmt ap s) (\<lambda>_ s.
      if locking then release Lpr s else Ok () s)))"

text \<open>
  \<open>panic\<close> prints, sets \<open>panicked\<close> and spins. Everywhere else in the model a call of \<open>panic\<close> is
  the outcome \<open>Panic\<close> with its message; this is the state in which it then spins for ever.
\<close>

definition panic :: "bytes \<Rightarrow> kst \<Rightarrow> unit k" where
  "panic msg s =
     (let s = s\<lparr>pr_locking := False\<rparr> in
      bnd (printf [112, 97, 110, 105, 99, 58, 32] [] s) (\<lambda>_ s.
      bnd (printf msg [] s) (\<lambda>_ s.
      bnd (printf [10] [] s) (\<lambda>_ s.
      Ok () (s\<lparr>panicked := True\<rparr>)))))"

definition printfinit :: "kst \<Rightarrow> kst" where
  "printfinit s = (initlock Lpr ''pr'' s)\<lparr>pr_locking := True\<rparr>"

section \<open>Process listing\<close>

definition state_name :: "procstate \<Rightarrow> bytes" where
  "state_name st =
     (case st of
        UNUSED \<Rightarrow> [117, 110, 117, 115, 101, 100]
      | USED \<Rightarrow> [63, 63, 63]
      | SLEEPING \<Rightarrow> [115, 108, 101, 101, 112, 32]
      | RUNNABLE \<Rightarrow> [114, 117, 110, 98, 108, 101]
      | RUNNING \<Rightarrow> [114, 117, 110, 32, 32, 32]
      | ZOMBIE \<Rightarrow> [122, 111, 109, 98, 105, 101])"

definition procdump :: "kst \<Rightarrow> unit k" where
  "procdump s =
     bnd (printf [10] [] s) (\<lambda>_ s.
     for_each [0..<NPROC] (\<lambda>p s.
       if p_state (procs s p) = UNUSED then Ok () s
       else
         bnd (printf [37, 100, 32, 37, 115, 32, 37, 115]
                [VInt (of_int (p_pid (procs s p))), VStr (Some (state_name (p_state (procs s p)))),
                 VStr (Some (takeWhile (\<lambda>c. c \<noteq> 0) (p_name (procs s p))))] s) (\<lambda>_ s.
         printf [10] [] s)) s)"

section \<open>Console\<close>

definition upd_cons :: "(cons \<Rightarrow> cons) \<Rightarrow> kst \<Rightarrow> kst" where
  "upd_cons f s = s\<lparr>kcons := f (kcons s)\<rparr>"

fun consolewrite_loop :: "bool \<Rightarrow> u64 \<Rightarrow> nat \<Rightarrow> int \<Rightarrow> kst \<Rightarrow> int k" where
  "consolewrite_loop user_src src 0 i s = Ok i s"
| "consolewrite_loop user_src src (Suc n) i s =
     bnd (either_copyin user_src (src + of_int i) 1 s) (\<lambda>r s.
     if fst r = - 1 then Ok i s
     else bnd (uartputc (hd (snd r)) s) (\<lambda>_ s. consolewrite_loop user_src src n (i + 1) s))"

definition consolewrite :: "bool \<Rightarrow> u64 \<Rightarrow> int \<Rightarrow> kst \<Rightarrow> int k" where
  "consolewrite user_src src n s = consolewrite_loop user_src src (nat n) 0 s"

text \<open>The inner loop of \<open>consoleread\<close>; \<open>False\<close> when the process has been killed.\<close>

function cons_wait :: "kst \<Rightarrow> bool k" where
  "cons_wait s =
     (if cons_r (kcons s) = cons_w (kcons s)
      then bnd (curproc s) (\<lambda>p s.
        if p_killed (procs s p) then Ok False s
        else bnd (sleep Ccons_r Lcons s) (\<lambda>_ s. cons_wait s))
      else Ok True s)"
  by auto
termination
proof (relation "measure turns", simp)
  fix s s1 s2 :: kst and p u
  assume "curproc s = Ok p s1" and sl: "sleep Ccons_r Lcons s1 = Ok u s2"
  then have "turns s1 = turns s" by (auto dest!: curproc_OkD intro!: turns_cong simp: peek_select)
  with sleep_turns[OF sl] show "(s2, s) \<in> measure turns" by simp
qed

declare cons_wait.simps [simp del]

text \<open>\<open>n\<close> counts down; the result \<open>None\<close> is the early \<open>return -1\<close>.\<close>

fun consoleread_loop :: "bool \<Rightarrow> u64 \<Rightarrow> nat \<Rightarrow> nat \<Rightarrow> kst \<Rightarrow> nat option k" where
  "consoleread_loop user_dst dst target 0 s = Ok (Some 0) s"
| "consoleread_loop user_dst dst target (Suc n) s =
     bnd (cons_wait s) (\<lambda>ok s.
     if \<not> ok then Ok None s
     else
       let c = cons_buf (kcons s) (unat (cons_r (kcons s)) mod INPUT_BUF);
           s = upd_cons (\<lambda>x. x\<lparr>cons_r := cons_r x + 1\<rparr>) s
       in
       if c = 4
       then Ok (Some (Suc n)) (if Suc n < target then upd_cons (\<lambda>x. x\<lparr>cons_r := cons_r x - 1\<rparr>) s else s)
       else
         bnd (either_copyout user_dst dst [c] s) (\<lambda>r s.
         if r = - 1 then Ok (Some (Suc n)) s
         else if c = 10 then Ok (Some n) s
         else consoleread_loop user_dst (dst + 1) target n s))"

definition consoleread :: "bool \<Rightarrow> u64 \<Rightarrow> int \<Rightarrow> kst \<Rightarrow> int k" where
  "consoleread user_dst dst n s =
     bnd (acquire Lcons s) (\<lambda>_ s.
     if n \<le> 0 then bnd (release Lcons s) (\<lambda>_ s. Ok 0 s)
     else
       bnd (consoleread_loop user_dst dst (nat n) (nat n) s) (\<lambda>r s.
       bnd (release Lcons s) (\<lambda>_ s.
       case r of None \<Rightarrow> Ok (- 1) s | Some m \<Rightarrow> Ok (n - int m) s)))"

lemma uartputc_sync_kcons: "wlp (uartputc_sync c s) (\<lambda>_ t. kcons t = kcons s)"
  by (auto simp: wlp_iff uartputc_sync_def push_off_def pop_off_def upd_cpu_def intr_off_def intr_on_def
      write_thr_def spin_tx_idle_def upd_uart_def bnd_Ok_iff Let_def split: if_splits)

lemma consputc_kcons: "consputc c s = Ok u t \<Longrightarrow> kcons t = kcons s"
  using uartputc_sync_kcons
  by (auto simp: consputc_def wlp_iff bnd_Ok_iff split: if_splits)

function kill_line :: "kst \<Rightarrow> unit k" where
  "kill_line s =
     (if cons_e (kcons s) \<noteq> cons_w (kcons s) \<and>
         cons_buf (kcons s) (unat (cons_e (kcons s) - 1) mod INPUT_BUF) \<noteq> 10
      then
        let s = upd_cons (\<lambda>x. x\<lparr>cons_e := cons_e x - 1\<rparr>) s in
        bnd (consputc BACKSPACE s) (\<lambda>_ s. kill_line s)
      else Ok () s)"
  by auto
termination
proof (relation "measure (\<lambda>s. unat (cons_e (kcons s) - cons_w (kcons s)))", simp)
  fix s s1 t :: kst and u
  let ?d = "cons_e (kcons s) - cons_w (kcons s)"
  assume "cons_e (kcons s) \<noteq> cons_w (kcons s) \<and>
      cons_buf (kcons s) (unat (cons_e (kcons s) - 1) mod INPUT_BUF) \<noteq> 10"
    and s1: "s1 = upd_cons (\<lambda>x. x\<lparr>cons_e := cons_e x - 1\<rparr>) s" and c: "consputc BACKSPACE s1 = Ok u t"
  then have nz: "?d \<noteq> 0" by simp
  have "cons_e (kcons t) - cons_w (kcons t) = ?d - 1"
    using consputc_kcons[OF c] by (simp add: s1 upd_cons_def)
  moreover have "unat (?d - 1) < unat ?d" using unat_minus_one[OF nz] nz by (simp add: unat_gt_0)
  ultimately show "(t, s) \<in> measure (\<lambda>s. unat (cons_e (kcons s) - cons_w (kcons s)))"
    by (simp only: in_measure)
qed

declare kill_line.simps [simp del]

definition consoleintr :: "u8 \<Rightarrow> kst \<Rightarrow> unit k" where
  "consoleintr c s =
     bnd (acquire Lcons s) (\<lambda>_ s.
     bnd (if c = 16 then procdump s
          else if c = 21 then kill_line s
          else if c = 8 \<or> c = 0x7f then
            (if cons_e (kcons s) \<noteq> cons_w (kcons s)
             then consputc BACKSPACE (upd_cons (\<lambda>x. x\<lparr>cons_e := cons_e x - 1\<rparr>) s)
             else Ok () s)
          else if c \<noteq> 0 \<and> cons_e (kcons s) - cons_r (kcons s) < of_nat INPUT_BUF then
            (let c = (if c = 13 then 10 else c) in
             bnd (consputc (unat c) s) (\<lambda>_ s.
             let s = upd_cons (\<lambda>x. x\<lparr>cons_buf := (cons_buf x)(unat (cons_e x) mod INPUT_BUF := c)\<rparr>) s;
                 s = upd_cons (\<lambda>x. x\<lparr>cons_e := cons_e x + 1\<rparr>) s
             in
             if c = 10 \<or> c = 4 \<or> cons_e (kcons s) = cons_r (kcons s) + of_nat INPUT_BUF
             then wakeup Ccons_r (upd_cons (\<lambda>x. x\<lparr>cons_w := cons_e x\<rparr>) s)
             else Ok () s))
          else Ok () s) (\<lambda>_ s.
     release Lcons s))"

definition consoleinit :: "kst \<Rightarrow> kst" where
  "consoleinit s =
     (let s = initlock Lcons ''cons'' s;
          s = snd (uartinit s)
      in s\<lparr>devsw := (devsw s)(CONSOLE := \<lparr>dv_read = Some Consoleread, dv_write = Some Consolewrite\<rparr>)\<rparr>)"

text \<open>The receive loop of \<open>uartintr\<close>: it handles every byte that is waiting.\<close>

definition uartintr :: "kst \<Rightarrow> unit k" where
  "uartintr s =
     bnd (for_each (rx_fifo (kuart s)) (\<lambda>_ s.
            case uartgetc s of
              (None, s) \<Rightarrow> Ok () s
            | (Some c, s) \<Rightarrow> consoleintr c s) s) (\<lambda>_ s.
     bnd (acquire Luart_tx s) (\<lambda>_ s.
     bnd (uartstart s) (\<lambda>_ s.
     release Luart_tx s)))"

end
