(* ===== verification/File.thy ===== *)
theory File
  imports Fs_Dir Pipe Console
begin

text \<open>
  \<open>kernel/file.c\<close>, the table of open files, and \<open>pipealloc\<close> of \<open>pipe.c\<close>. A pointer to a
  \<open>struct file\<close> is the index of the entry of \<open>ftable\<close>.
\<close>

section \<open>The file table\<close>

definition fileinit :: "kst \<Rightarrow> kst" where
  "fileinit s = initlock Lftable ''ftable'' s"

definition filealloc :: "kst \<Rightarrow> nat option k" where
  "filealloc s =
     bnd (acquire Lftable s) (\<lambda>_ s.
     case List.find (\<lambda>f. f_ref (ftable s f) = 0) [0..<NFILE] of
       Some f \<Rightarrow> bnd (release Lftable (upd_file f (\<lambda>x. x\<lparr>f_ref := 1\<rparr>) s)) (\<lambda>_ s. Ok (Some f) s)
     | None \<Rightarrow> bnd (release Lftable s) (\<lambda>_ s. Ok None s))"

definition filedup :: "nat \<Rightarrow> kst \<Rightarrow> nat k" where
  "filedup f s =
     bnd (acquire Lftable s) (\<lambda>_ s.
     if f_ref (ftable s f) < 1 then Panic ''filedup''
     else bnd (release Lftable (upd_file f (\<lambda>x. x\<lparr>f_ref := f_ref x + 1\<rparr>) s)) (\<lambda>_ s. Ok f s))"

definition fileclose :: "nat \<Rightarrow> kst \<Rightarrow> unit k" where
  "fileclose f s =
     bnd (acquire Lftable s) (\<lambda>_ s.
     if f_ref (ftable s f) < 1 then Panic ''fileclose''
     else
       let s = upd_file f (\<lambda>x. x\<lparr>f_ref := f_ref x - 1\<rparr>) s in
       if f_ref (ftable s f) > 0 then release Lftable s
       else
         let ff = ftable s f;
             s = upd_file f (\<lambda>x. x\<lparr>f_ref := 0, f_type := FD_NONE\<rparr>) s
         in
         bnd (release Lftable s) (\<lambda>_ s.
         if f_type ff = FD_PIPE then pipeclose (f_pipe ff) (f_writable ff) s
         else if f_type ff = FD_INODE \<or> f_type ff = FD_DEVICE
         then bnd (begin_op s) (\<lambda>_ s.
              bnd (iput (f_ip ff) s) (\<lambda>_ s.
              end_op s))
         else Ok () s))"

text \<open>
  \<open>struct stat\<close> as it is copied out: the four bytes of padding before \<open>size\<close> are whatever the
  stack frame of \<open>filestat\<close> held.
\<close>

definition stat_bytes :: "bytes \<Rightarrow> stat \<Rightarrow> bytes" where
  "stat_bytes pad st =
     le_enc 4 (of_int (st_dev st) :: u32) @ le_enc 4 (of_nat (st_ino st) :: u32) @
     le_enc 2 (of_int (st_type st) :: u16) @ le_enc 2 (st_nlink st) @ pad @ le_enc 8 (st_size st)"

definition filestat :: "nat \<Rightarrow> u64 \<Rightarrow> kst \<Rightarrow> int k" where
  "filestat f addr s =
     bnd (curproc s) (\<lambda>p s.
     if f_type (ftable s f) = FD_INODE \<or> f_type (ftable s f) = FD_DEVICE
     then
       let ip = f_ip (ftable s f) in
       bnd (ilock ip s) (\<lambda>_ s.
       let st = stati ip s; pad = mslice (mem s) (local_addr s + 12) 4 in
       bnd (iunlock ip s) (\<lambda>_ s.
       bnd (copyout (p_pagetable (procs s p)) addr (stat_bytes pad st) s) (\<lambda>r s.
       if r < 0 then Ok (- 1) s else Ok 0 s)))
     else Ok (- 1) s)"

section \<open>Reading and writing\<close>

definition dev_read :: "devfun \<Rightarrow> bool \<Rightarrow> u64 \<Rightarrow> int \<Rightarrow> kst \<Rightarrow> int k" where
  "dev_read d user addr n s =
     (case d of Consoleread \<Rightarrow> consoleread user addr n s | Consolewrite \<Rightarrow> consolewrite user addr n s)"

definition fileread :: "nat \<Rightarrow> u64 \<Rightarrow> int \<Rightarrow> kst \<Rightarrow> int k" where
  "fileread f addr n s =
     (let ff = ftable s f in
      if \<not> f_readable ff then Ok (- 1) s
      else case f_type ff of
        FD_PIPE \<Rightarrow> piperead (f_pipe ff) addr n s
      | FD_DEVICE \<Rightarrow>
          if f_major ff < 0 \<or> f_major ff \<ge> int NDEV then Ok (- 1) s
          else (case dv_read (devsw s (nat (f_major ff))) of
                  None \<Rightarrow> Ok (- 1) s
                | Some d \<Rightarrow> dev_read d True addr n s)
      | FD_INODE \<Rightarrow>
          bnd (ilock (f_ip ff) s) (\<lambda>_ s.
          bnd (readi (f_ip ff) True addr (f_off (ftable s f)) (of_int n) s) (\<lambda>r s.
          let s = (if r > 0 then upd_file f (\<lambda>x. x\<lparr>f_off := f_off x + of_int r\<rparr>) s else s) in
          bnd (iunlock (f_ip ff) s) (\<lambda>_ s.
          Ok r s)))
      | FD_NONE \<Rightarrow> Panic ''fileread'')"

text \<open>\<open>max\<close> is \<open>((MAXOPBLOCKS-1-1-2) / 2) * BSIZE\<close>; \<open>n\<close> bytes remain, \<open>i\<close> have been written.\<close>

abbreviation (input) filewrite_max :: nat where "filewrite_max \<equiv> 3072"

function filewrite_loop :: "nat \<Rightarrow> u64 \<Rightarrow> nat \<Rightarrow> int \<Rightarrow> kst \<Rightarrow> int k" where
  "filewrite_loop f addr n i s =
     (if n = 0 then Ok i s
      else
        let n1 = min n filewrite_max in
        bnd (begin_op s) (\<lambda>_ s.
        bnd (ilock (f_ip (ftable s f)) s) (\<lambda>_ s.
        bnd (writei (f_ip (ftable s f)) True (addr + of_int i) (f_off (ftable s f)) (of_nat n1) s) (\<lambda>r s.
        let s = (if r > 0 then upd_file f (\<lambda>x. x\<lparr>f_off := f_off x + of_int r\<rparr>) s else s) in
        bnd (iunlock (f_ip (ftable s f)) s) (\<lambda>_ s.
        bnd (end_op s) (\<lambda>_ s.
        if r \<noteq> int n1 then Ok i s
        else filewrite_loop f addr (n - n1) (i + r) s))))))"
  by auto
termination
  by (relation "measure (\<lambda>(_, _, n, _). n)") auto

declare filewrite_loop.simps [simp del]

definition filewrite :: "nat \<Rightarrow> u64 \<Rightarrow> int \<Rightarrow> kst \<Rightarrow> int k" where
  "filewrite f addr n s =
     (let ff = ftable s f in
      if \<not> f_writable ff then Ok (- 1) s
      else case f_type ff of
        FD_PIPE \<Rightarrow> pipewrite (f_pipe ff) addr n s
      | FD_DEVICE \<Rightarrow>
          if f_major ff < 0 \<or> f_major ff \<ge> int NDEV then Ok (- 1) s
          else (case dv_write (devsw s (nat (f_major ff))) of
                  None \<Rightarrow> Ok (- 1) s
                | Some d \<Rightarrow> dev_read d True addr n s)
      | FD_INODE \<Rightarrow>
          bnd (filewrite_loop f addr (nat n) 0 s) (\<lambda>i s. Ok (if i = n then n else - 1) s)
      | FD_NONE \<Rightarrow> Panic ''filewrite'')"

section \<open>Making a pipe\<close>

text \<open>The \<open>bad\<close> label; the result \<open>None\<close> is \<open>-1\<close>, \<open>Some\<close> carries the two files.\<close>

definition pipealloc_bad :: "nat option \<Rightarrow> nat option \<Rightarrow> kst \<Rightarrow> (nat \<times> nat) option k" where
  "pipealloc_bad f0 f1 s =
     bnd (case f0 of None \<Rightarrow> Ok () s | Some f \<Rightarrow> fileclose f s) (\<lambda>_ s.
     bnd (case f1 of None \<Rightarrow> Ok () s | Some f \<Rightarrow> fileclose f s) (\<lambda>_ s.
     Ok None s))"

definition pipealloc :: "kst \<Rightarrow> (nat \<times> nat) option k" where
  "pipealloc s =
     bnd (filealloc s) (\<lambda>f0 s.
     case f0 of
       None \<Rightarrow> pipealloc_bad None None s
     | Some a \<Rightarrow>
         bnd (filealloc s) (\<lambda>f1 s.
         case f1 of
           None \<Rightarrow> pipealloc_bad (Some a) None s
         | Some b \<Rightarrow>
             bnd (kalloc s) (\<lambda>pi s.
             if pi = 0 then pipealloc_bad (Some a) (Some b) s
             else
               let s = upd_pipe pi (\<lambda>p. p\<lparr>pi_readopen := True, pi_writeopen := True, pi_nwrite := 0,
                                           pi_nread := 0\<rparr>) s;
                   s = initlock (Lpipe pi) ''pipe'' s;
                   s = upd_file a (\<lambda>x. x\<lparr>f_type := FD_PIPE, f_readable := True, f_writable := False,
                                          f_pipe := pi\<rparr>) s;
                   s = upd_file b (\<lambda>x. x\<lparr>f_type := FD_PIPE, f_readable := False, f_writable := True,
                                          f_pipe := pi\<rparr>) s
               in Ok (Some (a, b)) s)))"

end
