(* ===== verification/Proc_Life.thy ===== *)
theory Proc_Life
  imports File
begin

text \<open>
  The life of a process, from \<open>proc.c\<close>: the process table, creation, growth, exit and wait.
\<close>

section \<open>Allocation\<close>

definition procinit :: "kst \<Rightarrow> unit k" where
  "procinit s =
     (let s = initlock Lpid ''nextpid'' s;
          s = initlock Lwait ''wait_lock'' s
      in for_each [0..<NPROC] (\<lambda>p s.
           let s = initlock (Lproc p) ''proc'' s in
           Ok () (upd_proc p (\<lambda>q. q\<lparr>p_kstack := KSTACK p\<rparr>) s)) s)"

definition allocpid :: "kst \<Rightarrow> int k" where
  "allocpid s =
     bnd (acquire Lpid s) (\<lambda>_ s.
     let pid = nextpid s; s = s\<lparr>nextpid := nextpid s + 1\<rparr> in
     bnd (release Lpid s) (\<lambda>_ s. Ok pid s))"

definition proc_pagetable :: "nat \<Rightarrow> kst \<Rightarrow> u64 k" where
  "proc_pagetable p s =
     bnd (uvmcreate s) (\<lambda>pagetable s.
     if pagetable = 0 then Ok 0 s
     else
       bnd (mappages pagetable TRAMPOLINE PGSIZE (sym_trampoline (syms s)) (PTE_R OR PTE_X) s) (\<lambda>r s.
       if r < 0 then bnd (uvmfree pagetable 0 s) (\<lambda>_ s. Ok 0 s)
       else
         bnd (mappages pagetable TRAPFRAME PGSIZE (p_trapframe (procs s p)) (PTE_R OR PTE_W) s) (\<lambda>r s.
         if r < 0
         then bnd (uvmunmap pagetable TRAMPOLINE 1 False s) (\<lambda>_ s.
              bnd (uvmfree pagetable 0 s) (\<lambda>_ s. Ok 0 s))
         else Ok pagetable s)))"

definition proc_freepagetable :: "u64 \<Rightarrow> u64 \<Rightarrow> kst \<Rightarrow> unit k" where
  "proc_freepagetable pagetable sz s =
     bnd (uvmunmap pagetable TRAMPOLINE 1 False s) (\<lambda>_ s.
     bnd (uvmunmap pagetable TRAPFRAME 1 False s) (\<lambda>_ s.
     uvmfree pagetable sz s))"

definition freeproc :: "nat \<Rightarrow> kst \<Rightarrow> unit k" where
  "freeproc p s =
     bnd (if p_trapframe (procs s p) \<noteq> 0 then kfree (p_trapframe (procs s p)) s else Ok () s) (\<lambda>_ s.
     let s = upd_proc p (\<lambda>q. q\<lparr>p_trapframe := 0\<rparr>) s in
     bnd (if p_pagetable (procs s p) \<noteq> 0
          then proc_freepagetable (p_pagetable (procs s p)) (p_sz (procs s p)) s else Ok () s) (\<lambda>_ s.
     Ok () (upd_proc p (\<lambda>q. q\<lparr>p_pagetable := 0, p_sz := 0, p_pid := 0, p_parent := None,
                              p_name := blit (p_name q) 0 [0], p_chan := None, p_killed := False,
                              p_xstate := 0, p_state := UNUSED\<rparr>) s)))"

text \<open>The code after the label \<open>found\<close>.\<close>

definition allocproc_found :: "nat \<Rightarrow> kst \<Rightarrow> nat option k" where
  "allocproc_found p s =
     bnd (allocpid s) (\<lambda>pid s.
     let s = upd_proc p (\<lambda>q. q\<lparr>p_pid := pid, p_state := USED\<rparr>) s in
     bnd (kalloc s) (\<lambda>tf s.
     let s = upd_proc p (\<lambda>q. q\<lparr>p_trapframe := tf\<rparr>) s in
     if tf = 0
     then bnd (freeproc p s) (\<lambda>_ s. bnd (release (Lproc p) s) (\<lambda>_ s. Ok None s))
     else
       bnd (proc_pagetable p s) (\<lambda>pt s.
       let s = upd_proc p (\<lambda>q. q\<lparr>p_pagetable := pt\<rparr>) s in
       if pt = 0
       then bnd (freeproc p s) (\<lambda>_ s. bnd (release (Lproc p) s) (\<lambda>_ s. Ok None s))
       else
         Ok (Some p) (upd_proc p (\<lambda>q. q\<lparr>p_context := \<lparr>ctx_ra = sym_forkret (syms s),
                                            ctx_sp = p_kstack q + PGSIZE, ctx_s = (\<lambda>_. 0)\<rparr>\<rparr>) s))))"

fun allocproc_from :: "nat list \<Rightarrow> kst \<Rightarrow> nat option k" where
  "allocproc_from [] s = Ok None s"
| "allocproc_from (p # ps) s =
     bnd (acquire (Lproc p) s) (\<lambda>_ s.
     if p_state (procs s p) = UNUSED then allocproc_found p s
     else bnd (release (Lproc p) s) (\<lambda>_ s. allocproc_from ps s))"

definition allocproc :: "kst \<Rightarrow> nat option k" where
  "allocproc s = allocproc_from [0..<NPROC] s"

section \<open>The first process\<close>

definition initcode :: bytes where
  "initcode =
     [0x17, 0x05, 0x00, 0x00, 0x13, 0x05, 0x45, 0x02,
      0x97, 0x05, 0x00, 0x00, 0x93, 0x85, 0x35, 0x02,
      0x93, 0x08, 0x70, 0x00, 0x73, 0x00, 0x00, 0x00,
      0x93, 0x08, 0x20, 0x00, 0x73, 0x00, 0x00, 0x00,
      0xef, 0xf0, 0x9f, 0xff, 0x2f, 0x69, 0x6e, 0x69,
      0x74, 0x00, 0x00, 0x24, 0x00, 0x00, 0x00, 0x00,
      0x00, 0x00, 0x00, 0x00]"

text \<open>A null result of \<open>allocproc\<close> is dereferenced.\<close>

definition userinit :: "kst \<Rightarrow> unit k" where
  "userinit s =
     bnd (allocproc s) (\<lambda>r s.
     let s = s\<lparr>initproc := r\<rparr> in
     case r of
       None \<Rightarrow> Panic ''kerneltrap''
     | Some p \<Rightarrow>
         bnd (uvminit (p_pagetable (procs s p)) initcode (of_nat (length initcode)) s) (\<lambda>_ s.
         let s = upd_proc p (\<lambda>q. q\<lparr>p_sz := PGSIZE\<rparr>) s;
             s = upd_tf (p_trapframe (procs s p)) (\<lambda>f. f\<lparr>tf_epc := 0, tf_sp := PGSIZE\<rparr>) s;
             s = upd_proc p (\<lambda>q. q\<lparr>p_name := blit (p_name q) 0
                   (safestrcpy (arr [105, 110, 105, 116, 99, 111, 100, 101]) 16)\<rparr>) s
         in
         bnd (namei [SLASH] s) (\<lambda>cwd s.
         let s = upd_proc p (\<lambda>q. q\<lparr>p_cwd := cwd\<rparr>) s;
             s = upd_proc p (\<lambda>q. q\<lparr>p_state := RUNNABLE\<rparr>) s
         in release (Lproc p) s)))"

section \<open>Growing\<close>

text \<open>The local variable \<open>sz\<close> is a \<open>uint\<close>: sizes are truncated to 32 bits and \<open>sz + n\<close> wraps.\<close>

definition growproc :: "int \<Rightarrow> kst \<Rightarrow> int k" where
  "growproc n s =
     bnd (curproc s) (\<lambda>p s.
     let sz = ucast (p_sz (procs s p)) :: u32 in
     if n > 0
     then
       bnd (uvmalloc (p_pagetable (procs s p)) (ucast sz) (ucast (sz + of_int n)) s) (\<lambda>r s.
       let sz = ucast r :: u32 in
       if sz = 0 then Ok (- 1) s
       else Ok 0 (upd_proc p (\<lambda>q. q\<lparr>p_sz := ucast sz\<rparr>) s))
     else if n < 0
     then
       bnd (uvmdealloc (p_pagetable (procs s p)) (ucast sz) (ucast (sz + of_int n)) s) (\<lambda>r s.
       Ok 0 (upd_proc p (\<lambda>q. q\<lparr>p_sz := ucast (ucast r :: u32)\<rparr>) s))
     else Ok 0 (upd_proc p (\<lambda>q. q\<lparr>p_sz := ucast sz\<rparr>) s))"

section \<open>Fork\<close>

definition fork :: "kst \<Rightarrow> int k" where
  "fork s =
     bnd (curproc s) (\<lambda>p s.
     bnd (allocproc s) (\<lambda>r s.
     case r of
       None \<Rightarrow> Ok (- 1) s
     | Some np \<Rightarrow>
         bnd (uvmcopy (p_pagetable (procs s p)) (p_pagetable (procs s np)) (p_sz (procs s p)) s) (\<lambda>r s.
         if r < 0
         then bnd (freeproc np s) (\<lambda>_ s. bnd (release (Lproc np) s) (\<lambda>_ s. Ok (- 1) s))
         else
           let s = upd_proc np (\<lambda>q. q\<lparr>p_sz := p_sz (procs s p)\<rparr>) s;
               s = upd_tf (p_trapframe (procs s np)) (\<lambda>_. tfs s (p_trapframe (procs s p))) s;
               s = upd_tf (p_trapframe (procs s np)) (\<lambda>f. f\<lparr>tf_a0 := 0\<rparr>) s
           in
           bnd (for_each [0..<NOFILE] (\<lambda>i s.
                  case p_ofile (procs s p) i of
                    None \<Rightarrow> Ok () s
                  | Some f \<Rightarrow>
                      bnd (filedup f s) (\<lambda>f s.
                      Ok () (upd_proc np (\<lambda>q. q\<lparr>p_ofile := (p_ofile q)(i := Some f)\<rparr>) s))) s) (\<lambda>_ s.
           case p_cwd (procs s p) of
             None \<Rightarrow> Panic ''kerneltrap''
           | Some cwd \<Rightarrow>
               bnd (idup cwd s) (\<lambda>cwd s.
               let s = upd_proc np (\<lambda>q. q\<lparr>p_cwd := Some cwd\<rparr>) s;
                   s = upd_proc np (\<lambda>q. q\<lparr>p_name := blit (p_name q) 0
                         (safestrcpy (arr (p_name (procs s p))) 16)\<rparr>) s;
                   pid = p_pid (procs s np)
               in
               bnd (release (Lproc np) s) (\<lambda>_ s.
               bnd (acquire Lwait s) (\<lambda>_ s.
               let s = upd_proc np (\<lambda>q. q\<lparr>p_parent := Some p\<rparr>) s in
               bnd (release Lwait s) (\<lambda>_ s.
               bnd (acquire (Lproc np) s) (\<lambda>_ s.
               let s = upd_proc np (\<lambda>q. q\<lparr>p_state := RUNNABLE\<rparr>) s in
               bnd (release (Lproc np) s) (\<lambda>_ s.
               Ok pid s))))))))))"

section \<open>Exit and wait\<close>

definition proc_chan :: "nat option \<Rightarrow> chan option" where
  "proc_chan p = map_option Cproc p"

definition reparent :: "nat \<Rightarrow> kst \<Rightarrow> unit k" where
  "reparent p s =
     for_each [0..<NPROC] (\<lambda>pp s.
       if p_parent (procs s pp) = Some p
       then
         let s = upd_proc pp (\<lambda>q. q\<lparr>p_parent := initproc s\<rparr>) s in
         wakeup_ptr (proc_chan (initproc s)) s
       else Ok () s) s"

text \<open>
  \<open>exit\<close> in two parts: closing the files and the current directory, and becoming a zombie.
  A null current directory would be dereferenced by \<open>iput\<close>.
\<close>

definition exit_files :: "nat \<Rightarrow> kst \<Rightarrow> unit k" where
  "exit_files p s =
     bnd (for_each [0..<NOFILE] (\<lambda>fd s.
            case p_ofile (procs s p) fd of
              None \<Rightarrow> Ok () s
            | Some f \<Rightarrow>
                bnd (fileclose f s) (\<lambda>_ s.
                Ok () (upd_proc p (\<lambda>q. q\<lparr>p_ofile := (p_ofile q)(fd := None)\<rparr>) s))) s) (\<lambda>_ s.
     bnd (begin_op s) (\<lambda>_ s.
     case p_cwd (procs s p) of
       None \<Rightarrow> Panic ''kerneltrap''
     | Some cwd \<Rightarrow>
         bnd (iput cwd s) (\<lambda>_ s.
         bnd (end_op s) (\<lambda>_ s.
         Ok () (upd_proc p (\<lambda>q. q\<lparr>p_cwd := None\<rparr>) s)))))"

definition exit :: "int \<Rightarrow> kst \<Rightarrow> unit k" where
  "exit status s =
     bnd (curproc s) (\<lambda>p s.
     if initproc s = Some p then Panic ''init exiting''
     else
       bnd (exit_files p s) (\<lambda>_ s.
       bnd (acquire Lwait s) (\<lambda>_ s.
       bnd (reparent p s) (\<lambda>_ s.
       bnd (wakeup_ptr (proc_chan (p_parent (procs s p))) s) (\<lambda>_ s.
       bnd (acquire (Lproc p) s) (\<lambda>_ s.
       let s = upd_proc p (\<lambda>q. q\<lparr>p_xstate := status, p_state := ZOMBIE\<rparr>) s in
       bnd (release Lwait s) (\<lambda>_ s.
       bnd (sched s) (\<lambda>_ s.
       Panic ''zombie exit''))))))))"

text \<open>
  One scan of the process table in \<open>wait\<close>: \<open>Inl\<close> the value the function returns (its locks are
  released), \<open>Inr\<close> whether the process has children.
\<close>

fun wait_scan :: "nat list \<Rightarrow> nat \<Rightarrow> u64 \<Rightarrow> bool \<Rightarrow> kst \<Rightarrow> (int + bool) k" where
  "wait_scan [] p addr havekids s = Ok (Inr havekids) s"
| "wait_scan (np # nps) p addr havekids s =
     (if p_parent (procs s np) = Some p
      then
        bnd (acquire (Lproc np) s) (\<lambda>_ s.
        if p_state (procs s np) = ZOMBIE
        then
          let pid = p_pid (procs s np) in
          bnd (if addr \<noteq> 0
               then copyout (p_pagetable (procs s p)) addr
                      (le_enc 4 (of_int (p_xstate (procs s np)) :: u32)) s
               else Ok 0 s) (\<lambda>r s.
          if r < 0
          then bnd (release (Lproc np) s) (\<lambda>_ s.
               bnd (release Lwait s) (\<lambda>_ s. Ok (Inl (- 1)) s))
          else
            bnd (freeproc np s) (\<lambda>_ s.
            bnd (release (Lproc np) s) (\<lambda>_ s.
            bnd (release Lwait s) (\<lambda>_ s. Ok (Inl pid) s))))
        else bnd (release (Lproc np) s) (\<lambda>_ s. wait_scan nps p addr True s))
      else wait_scan nps p addr havekids s)"

lemma wait_scan_turns: "wait_scan nps p addr h s = Ok (Inr k) t \<Longrightarrow> turns t = turns s"
proof (induction nps p addr h s rule: wait_scan.induct)
  case (2 np nps p addr h s)
  show ?case
  proof (cases "p_parent (procs s np) = Some p")
    case True
    with 2(3) obtain s0 s1 where a: "acquire (Lproc np) s = Ok () s0"
      and st: "p_state (procs s0 np) \<noteq> ZOMBIE" and r: "release (Lproc np) s0 = Ok () s1"
      and w: "wait_scan nps p addr True s1 = Ok (Inr k) t"
      by (auto simp: bnd_Ok_iff Let_def split: if_splits)
    have "turns s1 = turns s"
      using acquire_OkD[OF a] release_OkD[OF r] by (auto intro!: turns_cong simp: rel_select acq_select)
    with 2(1)[OF True a st r w] show ?thesis by simp
  next
    case False
    with 2(2)[OF False] 2(3) show ?thesis by simp
  qed
qed simp

function wait_loop :: "nat \<Rightarrow> u64 \<Rightarrow> kst \<Rightarrow> int k" where
  "wait_loop p addr s =
     bnd (wait_scan [0..<NPROC] p addr False s) (\<lambda>r s.
     case r of
       Inl v \<Rightarrow> Ok v s
     | Inr havekids \<Rightarrow>
         if \<not> havekids \<or> p_killed (procs s p)
         then bnd (release Lwait s) (\<lambda>_ s. Ok (- 1) s)
         else bnd (sleep (Cproc p) Lwait s) (\<lambda>_ s. wait_loop p addr s))"
  by auto
termination
  by (relation "measure (\<lambda>(_, _, s). turns s)") (auto dest!: wait_scan_turns sleep_turns)

declare wait_loop.simps [simp del]

definition wait :: "u64 \<Rightarrow> kst \<Rightarrow> int k" where
  "wait addr s =
     bnd (curproc s) (\<lambda>p s.
     bnd (acquire Lwait s) (\<lambda>_ s.
     wait_loop p addr s))"

end
