(* ===== verification/Sysarg.thy ===== *)
theory Sysarg
  imports Proc_Life
begin

text \<open>
  The argument fetchers of \<open>kernel/syscall.c\<close>. A function that fills a kernel buffer returns the
  bytes it stored; a path argument is the string before the NUL.
\<close>

definition fetchaddr :: "u64 \<Rightarrow> kst \<Rightarrow> (int \<times> u64) k" where
  "fetchaddr addr s =
     bnd (curproc s) (\<lambda>p s.
     if addr \<ge> p_sz (procs s p) \<or> addr + 8 > p_sz (procs s p) then Ok (- 1, 0) s
     else
       bnd (copyin (p_pagetable (procs s p)) addr 8 s) (\<lambda>r s.
       if fst r \<noteq> 0 then Ok (- 1, 0) s else Ok (0, le_dec (snd r)) s))"

definition cstring :: "bytes \<Rightarrow> bytes" where
  "cstring bs = takeWhile (\<lambda>b. b \<noteq> 0) bs"

definition fetchstr :: "u64 \<Rightarrow> nat \<Rightarrow> kst \<Rightarrow> (int \<times> bytes) k" where
  "fetchstr addr lim s =
     bnd (curproc s) (\<lambda>p s.
     bnd (copyinstr (p_pagetable (procs s p)) addr lim s) (\<lambda>r s.
     if fst r < 0 then Ok r s else Ok (int (length (cstring (snd r))), snd r) s))"

definition argraw :: "nat \<Rightarrow> kst \<Rightarrow> u64 k" where
  "argraw n s =
     bnd (curproc s) (\<lambda>p s.
     let f = tfs s (p_trapframe (procs s p)) in
     if n = 0 then Ok (tf_a0 f) s
     else if n = 1 then Ok (tf_a1 f) s
     else if n = 2 then Ok (tf_a2 f) s
     else if n = 3 then Ok (tf_a3 f) s
     else if n = 4 then Ok (tf_a4 f) s
     else if n = 5 then Ok (tf_a5 f) s
     else Panic ''argraw'')"

text \<open>\<open>argint\<close> and \<open>argaddr\<close> always return 0; the result is the value stored.\<close>

definition argint :: "nat \<Rightarrow> kst \<Rightarrow> int k" where
  "argint n s = bnd (argraw n s) (\<lambda>x s. Ok (sint (ucast x :: u32)) s)"

definition argaddr :: "nat \<Rightarrow> kst \<Rightarrow> u64 k" where
  "argaddr n s = argraw n s"

definition argstr :: "nat \<Rightarrow> nat \<Rightarrow> kst \<Rightarrow> (int \<times> bytes) k" where
  "argstr n lim s =
     bnd (argaddr n s) (\<lambda>addr s.
     bnd (fetchstr addr lim s) (\<lambda>r s. Ok (fst r, cstring (snd r)) s))"

end
