(* ===== verification/Exec.thy ===== *)
theory Exec
  imports Sysarg
begin

text \<open>
  \<open>kernel/exec.c\<close>. The ELF headers are read into local variables and decoded from their bytes.
  The argument vector is the list of the addresses of the pages that hold the argument strings
  (the null pointer ends it).
\<close>

record elfhdr =
  e_magic :: u32
  e_entry :: u64
  e_phoff :: u64
  e_phnum :: u16

record proghdr =
  ph_type :: u32
  ph_off :: u64
  ph_vaddr :: u64
  ph_filesz :: u64
  ph_memsz :: u64

abbreviation (input) ELF_MAGIC :: u32 where "ELF_MAGIC \<equiv> 0x464C457F"

definition dec_elfhdr :: "bytes \<Rightarrow> elfhdr" where
  "dec_elfhdr bs = \<lparr>e_magic = rd32 bs 0, e_entry = rd64 bs 24, e_phoff = rd64 bs 32, e_phnum = rd16 bs 56\<rparr>"

definition dec_proghdr :: "bytes \<Rightarrow> proghdr" where
  "dec_proghdr bs = \<lparr>ph_type = rd32 bs 0, ph_off = rd64 bs 8, ph_vaddr = rd64 bs 16,
                     ph_filesz = rd64 bs 32, ph_memsz = rd64 bs 40\<rparr>"

text \<open>\<open>for(i = 0; i < sz; i += PGSIZE)\<close> over the page offsets below \<open>sz\<close>.\<close>

fun loadseg_from :: "nat list \<Rightarrow> u64 \<Rightarrow> u64 \<Rightarrow> nat \<Rightarrow> u32 \<Rightarrow> u32 \<Rightarrow> kst \<Rightarrow> int k" where
  "loadseg_from [] pagetable va ip offset sz s = Ok 0 s"
| "loadseg_from (i # is) pagetable va ip offset sz s =
     bnd (walkaddr pagetable (va + of_nat i) s) (\<lambda>pa s.
     if pa = 0 then Panic ''loadseg: address should exist''
     else
       let n = (if unat sz - i < 4096 then unat sz - i else 4096) in
       bnd (readi ip False pa (offset + of_nat i) (of_nat n) s) (\<lambda>r s.
       if r \<noteq> int n then Ok (- 1) s
       else loadseg_from is pagetable va ip offset sz s))"

definition loadseg :: "u64 \<Rightarrow> u64 \<Rightarrow> nat \<Rightarrow> u32 \<Rightarrow> u32 \<Rightarrow> kst \<Rightarrow> int k" where
  "loadseg pagetable va ip offset sz s =
     loadseg_from (map (\<lambda>k. 4096 * k) [0..<(unat sz + 4095) div 4096]) pagetable va ip offset sz s"

text \<open>
  The loop over the program headers: \<open>n\<close> remain, the next one is at \<open>off\<close>. The result is \<open>Inl sz\<close>
  for \<open>goto bad\<close> with the size mapped so far, \<open>Inr sz\<close> when all segments are loaded.
\<close>

fun load_segments :: "nat \<Rightarrow> u32 \<Rightarrow> u64 \<Rightarrow> u64 \<Rightarrow> nat \<Rightarrow> u64 \<Rightarrow> kst \<Rightarrow> (u64 + u64) k" where
  "load_segments 0 off sz pagetable ip pha s = Ok (Inr sz) s"
| "load_segments (Suc n) off sz pagetable ip pha s =
     bnd (readi ip False pha off 56 s) (\<lambda>r s.
     let ph = dec_proghdr (mslice (mem s) pha 56) in
     if r \<noteq> 56 then Ok (Inl sz) s
     else if ph_type ph \<noteq> 1 then load_segments n (off + 56) sz pagetable ip pha s
     else if ph_memsz ph < ph_filesz ph then Ok (Inl sz) s
     else if ph_vaddr ph + ph_memsz ph < ph_vaddr ph then Ok (Inl sz) s
     else
       bnd (uvmalloc pagetable sz (ph_vaddr ph + ph_memsz ph) s) (\<lambda>sz1 s.
       if sz1 = 0 then Ok (Inl sz) s
       else if ph_vaddr ph mod PGSIZE \<noteq> 0 then Ok (Inl sz1) s
       else
         bnd (loadseg pagetable (ph_vaddr ph) ip (ucast (ph_off ph)) (ucast (ph_filesz ph)) s) (\<lambda>r s.
         if r < 0 then Ok (Inl sz1) s
         else load_segments n (off + 56) sz1 pagetable ip pha s)))"

text \<open>
  Pushing the argument strings; \<open>ustack\<close> collects their user addresses. The result is \<open>None\<close> for
  \<open>goto bad\<close>. A string without a NUL would make \<open>strlen\<close> run on. After \<open>MAXARG\<close> strings \<open>exec\<close> would
  store the terminating null one past the end of the array \<open>ustack\<close>; \<open>sys_exec\<close> passes at most
  \<open>MAXARG - 1\<close>, and the list of the model has no end to run past.
\<close>

fun push_args :: "u64 list \<Rightarrow> nat \<Rightarrow> u64 \<Rightarrow> u64 \<Rightarrow> u64 \<Rightarrow> u64 list \<Rightarrow> kst \<Rightarrow> (u64 \<times> u64 list) option k" where
  "push_args [] argc sp stackbase pagetable ustack s = Ok (Some (sp, ustack)) s"
| "push_args (a # argv) argc sp stackbase pagetable ustack s =
     (if argc \<ge> MAXARG then Ok None s
      else case strlen (ptr (mem s) a) of
        None \<Rightarrow> Hang
      | Some len \<Rightarrow>
          let sp = sp - of_nat (len + 1);
              sp = sp - sp mod 16
          in
          if sp < stackbase then Ok None s
          else
            bnd (copyout pagetable sp (mslice (mem s) a (len + 1)) s) (\<lambda>r s.
            if r < 0 then Ok None s
            else push_args argv (argc + 1) sp stackbase pagetable (ustack @ [sp]) s))"

definition exec_bad :: "u64 \<Rightarrow> u64 \<Rightarrow> nat option \<Rightarrow> kst \<Rightarrow> int k" where
  "exec_bad pagetable sz ip s =
     bnd (if pagetable \<noteq> 0 then proc_freepagetable pagetable sz s else Ok () s) (\<lambda>_ s.
     bnd (case ip of
            None \<Rightarrow> Ok () s
          | Some ip \<Rightarrow> bnd (iunlockput ip s) (\<lambda>_ s. end_op s)) (\<lambda>_ s.
     Ok (- 1) s))"

text \<open>The last path element: what follows the last slash.\<close>

fun last_elem :: "bytes \<Rightarrow> bytes \<Rightarrow> bytes" where
  "last_elem last0 [] = last0"
| "last_elem last0 (c # cs) = last_elem (if c = SLASH then cs else last0) cs"

text \<open>From the allocation of the stack to the end, with the program loaded.\<close>

definition exec_stack :: "bytes \<Rightarrow> u64 list \<Rightarrow> u64 \<Rightarrow> u64 \<Rightarrow> u64 \<Rightarrow> kst \<Rightarrow> int k" where
  "exec_stack path argv pagetable sz entry s =
     bnd (curproc s) (\<lambda>p s.
     let oldsz = p_sz (procs s p); sz = PGROUNDUP sz in
     bnd (uvmalloc pagetable sz (sz + 2 * PGSIZE) s) (\<lambda>sz1 s.
     if sz1 = 0 then exec_bad pagetable sz None s
     else
       let sz = sz1 in
       bnd (uvmclear pagetable (sz - 2 * PGSIZE) s) (\<lambda>_ s.
       let sp = sz; stackbase = sp - PGSIZE in
       bnd (push_args argv 0 sp stackbase pagetable [] s) (\<lambda>r s.
       case r of
         None \<Rightarrow> exec_bad pagetable sz None s
       | Some (sp, ustack) \<Rightarrow>
           let argc = length ustack;
               sp = sp - of_nat ((argc + 1) * 8);
               sp = sp - sp mod 16
           in
           if sp < stackbase then exec_bad pagetable sz None s
           else
             bnd (copyout pagetable sp (concat (map (le_enc 8) (ustack @ [0]))) s) (\<lambda>r s.
             if r < 0 then exec_bad pagetable sz None s
             else
               let s = upd_tf (p_trapframe (procs s p)) (\<lambda>f. f\<lparr>tf_a1 := sp\<rparr>) s;
                   s = upd_proc p (\<lambda>q. q\<lparr>p_name := blit (p_name q) 0
                         (safestrcpy (arr (last_elem path path)) 16)\<rparr>) s;
                   oldpagetable = p_pagetable (procs s p);
                   s = upd_proc p (\<lambda>q. q\<lparr>p_pagetable := pagetable, p_sz := sz\<rparr>) s;
                   s = upd_tf (p_trapframe (procs s p)) (\<lambda>f. f\<lparr>tf_epc := entry, tf_sp := sp\<rparr>) s
               in
               bnd (proc_freepagetable oldpagetable oldsz s) (\<lambda>_ s.
               Ok (int argc) s))))))"

definition exec :: "bytes \<Rightarrow> u64 list \<Rightarrow> kst \<Rightarrow> int k" where
  "exec path argv s =
     bnd (curproc s) (\<lambda>p s.
     bnd (begin_op s) (\<lambda>_ s.
     bnd (namei path s) (\<lambda>r s.
     case r of
       None \<Rightarrow> bnd (end_op s) (\<lambda>_ s. Ok (- 1) s)
     | Some ip \<Rightarrow>
         bnd (ilock ip s) (\<lambda>_ s.
         let elfa = local_addr s in
         bnd (readi ip False elfa 0 64 s) (\<lambda>r s.
         let elf = dec_elfhdr (mslice (mem s) elfa 64) in
         if r \<noteq> 64 then exec_bad 0 0 (Some ip) s
         else if e_magic elf \<noteq> ELF_MAGIC then exec_bad 0 0 (Some ip) s
         else
           bnd (proc_pagetable p s) (\<lambda>pagetable s.
           if pagetable = 0 then exec_bad 0 0 (Some ip) s
           else
             bnd (load_segments (unat (e_phnum elf)) (ucast (e_phoff elf)) 0 pagetable ip (elfa + 64) s) (\<lambda>r s.
             case r of
               Inl sz \<Rightarrow> exec_bad pagetable sz (Some ip) s
             | Inr sz \<Rightarrow>
                 bnd (iunlockput ip s) (\<lambda>_ s.
                 bnd (end_op s) (\<lambda>_ s.
                 exec_stack path argv pagetable sz (e_entry elf) s)))))))))"

end
