(* ===== verification/Sysfile.thy ===== *)
theory Sysfile
  imports Exec
begin

text \<open>
  \<open>kernel/sysfile.c\<close>: the file-system calls. Each returns the 64-bit value that goes to \<open>a0\<close>;
  \<open>fail\<close> is the result \<open>-1\<close>. The four ways of leaving an operation on an inode by
  \<open>iunlockput\<close>, \<open>end_op\<close>, \<open>return -1\<close> share \<open>fail_put\<close>.
\<close>

abbreviation (input) fail :: u64 where "fail \<equiv> - 1"

section \<open>Descriptors\<close>

text \<open>\<open>None\<close> is the result \<open>-1\<close>; otherwise the descriptor and the file.\<close>

definition argfd :: "nat \<Rightarrow> kst \<Rightarrow> (nat \<times> nat) option k" where
  "argfd n s =
     bnd (argint n s) (\<lambda>fd s.
     if fd < 0 \<or> fd \<ge> int NOFILE then Ok None s
     else
       bnd (curproc s) (\<lambda>p s.
       case p_ofile (procs s p) (nat fd) of
         None \<Rightarrow> Ok None s
       | Some f \<Rightarrow> Ok (Some (nat fd, f)) s))"

definition fdalloc :: "nat \<Rightarrow> kst \<Rightarrow> int k" where
  "fdalloc f s =
     bnd (curproc s) (\<lambda>p s.
     case List.find (\<lambda>fd. p_ofile (procs s p) fd = None) [0..<NOFILE] of
       None \<Rightarrow> Ok (- 1) s
     | Some fd \<Rightarrow> Ok (int fd) (upd_proc p (\<lambda>q. q\<lparr>p_ofile := (p_ofile q)(fd := Some f)\<rparr>) s))"

definition clear_fd :: "nat \<Rightarrow> nat \<Rightarrow> kst \<Rightarrow> kst" where
  "clear_fd p fd s = upd_proc p (\<lambda>q. q\<lparr>p_ofile := (p_ofile q)(fd := None)\<rparr>) s"

definition sys_dup :: "kst \<Rightarrow> u64 k" where
  "sys_dup s =
     bnd (argfd 0 s) (\<lambda>r s.
     case r of
       None \<Rightarrow> Ok fail s
     | Some (_, f) \<Rightarrow>
         bnd (fdalloc f s) (\<lambda>fd s.
         if fd < 0 then Ok fail s
         else bnd (filedup f s) (\<lambda>_ s. Ok (of_int fd) s)))"

definition sys_read :: "kst \<Rightarrow> u64 k" where
  "sys_read s =
     bnd (argfd 0 s) (\<lambda>r s.
     case r of
       None \<Rightarrow> Ok fail s
     | Some (_, f) \<Rightarrow>
         bnd (argint 2 s) (\<lambda>n s.
         bnd (argaddr 1 s) (\<lambda>p s.
         bnd (fileread f p n s) (\<lambda>r s. Ok (of_int r) s))))"

definition sys_write :: "kst \<Rightarrow> u64 k" where
  "sys_write s =
     bnd (argfd 0 s) (\<lambda>r s.
     case r of
       None \<Rightarrow> Ok fail s
     | Some (_, f) \<Rightarrow>
         bnd (argint 2 s) (\<lambda>n s.
         bnd (argaddr 1 s) (\<lambda>p s.
         bnd (filewrite f p n s) (\<lambda>r s. Ok (of_int r) s))))"

definition sys_close :: "kst \<Rightarrow> u64 k" where
  "sys_close s =
     bnd (argfd 0 s) (\<lambda>r s.
     case r of
       None \<Rightarrow> Ok fail s
     | Some (fd, f) \<Rightarrow>
         bnd (curproc s) (\<lambda>p s.
         bnd (fileclose f (clear_fd p fd s)) (\<lambda>_ s. Ok 0 s)))"

definition sys_fstat :: "kst \<Rightarrow> u64 k" where
  "sys_fstat s =
     bnd (argfd 0 s) (\<lambda>r s.
     case r of
       None \<Rightarrow> Ok fail s
     | Some (_, f) \<Rightarrow>
         bnd (argaddr 1 s) (\<lambda>st s.
         bnd (filestat f st s) (\<lambda>r s. Ok (of_int r) s)))"

section \<open>Links\<close>

definition fail_op :: "kst \<Rightarrow> u64 k" where
  "fail_op s = bnd (end_op s) (\<lambda>_ s. Ok fail s)"

definition fail_put :: "nat \<Rightarrow> kst \<Rightarrow> u64 k" where
  "fail_put ip s = bnd (iunlockput ip s) (\<lambda>_ s. fail_op s)"

definition link_bad :: "nat \<Rightarrow> kst \<Rightarrow> u64 k" where
  "link_bad ip s =
     bnd (ilock ip s) (\<lambda>_ s.
     bnd (iupdate ip (upd_inode ip (\<lambda>i. i\<lparr>i_nlink := i_nlink i - 1\<rparr>) s)) (\<lambda>_ s.
     fail_put ip s))"

definition sys_link :: "kst \<Rightarrow> u64 k" where
  "sys_link s =
     bnd (argstr 0 MAXPATH s) (\<lambda>a s.
     if fst a < 0 then Ok fail s
     else
     bnd (argstr 1 MAXPATH s) (\<lambda>b s.
     if fst b < 0 then Ok fail s
     else
     bnd (begin_op s) (\<lambda>_ s.
     bnd (namei (snd a) s) (\<lambda>r s.
     case r of
       None \<Rightarrow> fail_op s
     | Some ip \<Rightarrow>
         bnd (ilock ip s) (\<lambda>_ s.
         if i_type (inodes s ip) = T_DIR then fail_put ip s
         else
           bnd (iupdate ip (upd_inode ip (\<lambda>i. i\<lparr>i_nlink := i_nlink i + 1\<rparr>) s)) (\<lambda>_ s.
           bnd (iunlock ip s) (\<lambda>_ s.
           bnd (nameiparent (snd b) s) (\<lambda>r s.
           case fst r of
             None \<Rightarrow> link_bad ip s
           | Some dp \<Rightarrow>
               bnd (ilock dp s) (\<lambda>_ s.
               bnd (if i_dev (inodes s dp) \<noteq> i_dev (inodes s ip) then Ok (- 1) s
                    else dirlink dp (arr (snd r)) (i_inum (inodes s ip)) s) (\<lambda>l s.
               if l < 0 then bnd (iunlockput dp s) (\<lambda>_ s. link_bad ip s)
               else
                 bnd (iunlockput dp s) (\<lambda>_ s.
                 bnd (iput ip s) (\<lambda>_ s.
                 bnd (end_op s) (\<lambda>_ s.
                 Ok 0 s)))))))))))))"

function isdirempty_loop :: "nat \<Rightarrow> u64 \<Rightarrow> u32 \<Rightarrow> kst \<Rightarrow> bool k" where
  "isdirempty_loop dp de off s =
     (if off < i_size (inodes s dp)
      then
        bnd (readi dp False de off 16 s) (\<lambda>r s.
        if r \<noteq> 16 then Panic ''isdirempty: readi''
        else if de_inum (mem s) de \<noteq> 0 then Ok False s
        else isdirempty_loop dp de (off + 16) s)
      else Ok True s)"
  by auto
termination
  by (relation "measure (\<lambda>(_, _, off, _). 2 ^ 32 - unat off)")
     (auto dest: readi_no_wrap intro: dir_measure simp del: power_numeral)

declare isdirempty_loop.simps [simp del]

definition isdirempty :: "nat \<Rightarrow> kst \<Rightarrow> bool k" where
  "isdirempty dp s = isdirempty_loop dp (local_addr s) 32 s"

definition sys_unlink :: "kst \<Rightarrow> u64 k" where
  "sys_unlink s =
     bnd (argstr 0 MAXPATH s) (\<lambda>a s.
     if fst a < 0 then Ok fail s
     else
     bnd (begin_op s) (\<lambda>_ s.
     bnd (nameiparent (snd a) s) (\<lambda>r s.
     case fst r of
       None \<Rightarrow> fail_op s
     | Some dp \<Rightarrow>
         let name = arr (snd r) in
         bnd (ilock dp s) (\<lambda>_ s.
         if namecmp name (arr [46]) = 0 \<or> namecmp name (arr [46, 46]) = 0 then fail_put dp s
         else
           bnd (dirlookup dp name s) (\<lambda>l s.
           case l of
             None \<Rightarrow> fail_put dp s
           | Some (ip, off) \<Rightarrow>
               bnd (ilock ip s) (\<lambda>_ s.
               if sint (i_nlink (inodes s ip)) < 1 then Panic ''unlink: nlink < 1''
               else
                 bnd (if i_type (inodes s ip) = T_DIR then isdirempty ip s else Ok True s) (\<lambda>emp s.
                 if \<not> emp then bnd (iunlockput ip s) (\<lambda>_ s. fail_put dp s)
                 else
                   let de = local_addr s;
                       s = s\<lparr>mem := memset (mem s) de 0 16\<rparr>
                   in
                   bnd (writei dp False de off 16 s) (\<lambda>w s.
                   if w \<noteq> 16 then Panic ''unlink: writei''
                   else
                     bnd (if i_type (inodes s ip) = T_DIR
                          then iupdate dp (upd_inode dp (\<lambda>i. i\<lparr>i_nlink := i_nlink i - 1\<rparr>) s)
                          else Ok () s) (\<lambda>_ s.
                     bnd (iunlockput dp s) (\<lambda>_ s.
                     bnd (iupdate ip (upd_inode ip (\<lambda>i. i\<lparr>i_nlink := i_nlink i - 1\<rparr>) s)) (\<lambda>_ s.
                     bnd (iunlockput ip s) (\<lambda>_ s.
                     bnd (end_op s) (\<lambda>_ s.
                     Ok 0 s)))))))))))))"

section \<open>Creating and opening\<close>

definition create :: "bytes \<Rightarrow> int \<Rightarrow> int \<Rightarrow> int \<Rightarrow> kst \<Rightarrow> nat option k" where
  "create path type major minor s =
     bnd (nameiparent path s) (\<lambda>r s.
     case fst r of
       None \<Rightarrow> Ok None s
     | Some dp \<Rightarrow>
         let name = arr (snd r) in
         bnd (ilock dp s) (\<lambda>_ s.
         bnd (dirlookup dp name s) (\<lambda>l s.
         case l of
           Some (ip, _) \<Rightarrow>
             bnd (iunlockput dp s) (\<lambda>_ s.
             bnd (ilock ip s) (\<lambda>_ s.
             if type = T_FILE \<and> (i_type (inodes s ip) = T_FILE \<or> i_type (inodes s ip) = T_DEVICE)
             then Ok (Some ip) s
             else bnd (iunlockput ip s) (\<lambda>_ s. Ok None s)))
         | None \<Rightarrow>
             bnd (ialloc (i_dev (inodes s dp)) type s) (\<lambda>ip s.
             bnd (ilock ip s) (\<lambda>_ s.
             bnd (iupdate ip (upd_inode ip (\<lambda>i. i\<lparr>i_major := major, i_minor := minor, i_nlink := 1\<rparr>) s)) (\<lambda>_ s.
             bnd (if type = T_DIR
                  then
                    bnd (iupdate dp (upd_inode dp (\<lambda>i. i\<lparr>i_nlink := i_nlink i + 1\<rparr>) s)) (\<lambda>_ s.
                    bnd (dirlink ip (arr [46]) (i_inum (inodes s ip)) s) (\<lambda>r s.
                    if r < 0 then Panic ''create dots''
                    else
                      bnd (dirlink ip (arr [46, 46]) (i_inum (inodes s dp)) s) (\<lambda>r s.
                      if r < 0 then Panic ''create dots'' else Ok () s)))
                  else Ok () s) (\<lambda>_ s.
             bnd (dirlink dp name (i_inum (inodes s ip)) s) (\<lambda>r s.
             if r < 0 then Panic ''create: dirlink''
             else
               bnd (iunlockput dp s) (\<lambda>_ s.
               Ok (Some ip) s)))))))))"

text \<open>The second half of \<open>sys_open\<close>, with the inode locked.\<close>

definition open_file :: "nat \<Rightarrow> u32 \<Rightarrow> kst \<Rightarrow> u64 k" where
  "open_file ip omode s =
     (if i_type (inodes s ip) = T_DEVICE \<and>
         (i_major (inodes s ip) < 0 \<or> i_major (inodes s ip) \<ge> int NDEV)
      then fail_put ip s
      else
        bnd (filealloc s) (\<lambda>f s.
        case f of
          None \<Rightarrow> fail_put ip s
        | Some f \<Rightarrow>
            bnd (fdalloc f s) (\<lambda>fd s.
            if fd < 0 then bnd (fileclose f s) (\<lambda>_ s. fail_put ip s)
            else
              let s = (if i_type (inodes s ip) = T_DEVICE
                       then upd_file f (\<lambda>x. x\<lparr>f_type := FD_DEVICE, f_major := i_major (inodes s ip)\<rparr>) s
                       else upd_file f (\<lambda>x. x\<lparr>f_type := FD_INODE, f_off := 0\<rparr>) s);
                  s = upd_file f (\<lambda>x. x\<lparr>f_ip := ip, f_readable := (omode AND O_WRONLY = 0),
                        f_writable := (omode AND O_WRONLY \<noteq> 0 \<or> omode AND O_RDWR \<noteq> 0)\<rparr>) s
              in
              bnd (if omode AND O_TRUNC \<noteq> 0 \<and> i_type (inodes s ip) = T_FILE
                   then itrunc ip s else Ok () s) (\<lambda>_ s.
              bnd (iunlock ip s) (\<lambda>_ s.
              bnd (end_op s) (\<lambda>_ s.
              Ok (of_int fd) s))))))"

definition sys_open :: "kst \<Rightarrow> u64 k" where
  "sys_open s =
     bnd (argstr 0 MAXPATH s) (\<lambda>a s.
     if fst a < 0 then Ok fail s
     else
     bnd (argint 1 s) (\<lambda>om s.
     let omode = of_int om :: u32 in
     bnd (begin_op s) (\<lambda>_ s.
     if omode AND O_CREATE \<noteq> 0
     then bnd (create (snd a) T_FILE 0 0 s) (\<lambda>r s.
          case r of None \<Rightarrow> fail_op s | Some ip \<Rightarrow> open_file ip omode s)
     else bnd (namei (snd a) s) (\<lambda>r s.
          case r of
            None \<Rightarrow> fail_op s
          | Some ip \<Rightarrow>
              bnd (ilock ip s) (\<lambda>_ s.
              if i_type (inodes s ip) = T_DIR \<and> omode \<noteq> O_RDONLY then fail_put ip s
              else open_file ip omode s)))))"

text \<open>\<open>create\<close> takes \<open>short\<close> arguments.\<close>

definition to_short :: "int \<Rightarrow> int" where
  "to_short x = sint (of_int x :: u16)"

definition sys_mkdir :: "kst \<Rightarrow> u64 k" where
  "sys_mkdir s =
     bnd (begin_op s) (\<lambda>_ s.
     bnd (argstr 0 MAXPATH s) (\<lambda>a s.
     if fst a < 0 then fail_op s
     else
       bnd (create (snd a) T_DIR 0 0 s) (\<lambda>r s.
       case r of
         None \<Rightarrow> fail_op s
       | Some ip \<Rightarrow> bnd (iunlockput ip s) (\<lambda>_ s. bnd (end_op s) (\<lambda>_ s. Ok 0 s)))))"

definition sys_mknod :: "kst \<Rightarrow> u64 k" where
  "sys_mknod s =
     bnd (begin_op s) (\<lambda>_ s.
     bnd (argstr 0 MAXPATH s) (\<lambda>a s.
     if fst a < 0 then fail_op s
     else
       bnd (argint 1 s) (\<lambda>major s.
       bnd (argint 2 s) (\<lambda>minor s.
       bnd (create (snd a) T_DEVICE (to_short major) (to_short minor) s) (\<lambda>r s.
       case r of
         None \<Rightarrow> fail_op s
       | Some ip \<Rightarrow> bnd (iunlockput ip s) (\<lambda>_ s. bnd (end_op s) (\<lambda>_ s. Ok 0 s)))))))"

definition sys_chdir :: "kst \<Rightarrow> u64 k" where
  "sys_chdir s =
     bnd (curproc s) (\<lambda>p s.
     bnd (begin_op s) (\<lambda>_ s.
     bnd (argstr 0 MAXPATH s) (\<lambda>a s.
     if fst a < 0 then fail_op s
     else
       bnd (namei (snd a) s) (\<lambda>r s.
       case r of
         None \<Rightarrow> fail_op s
       | Some ip \<Rightarrow>
           bnd (ilock ip s) (\<lambda>_ s.
           if i_type (inodes s ip) \<noteq> T_DIR then fail_put ip s
           else
             bnd (iunlock ip s) (\<lambda>_ s.
             case p_cwd (procs s p) of
               None \<Rightarrow> Panic ''kerneltrap''
             | Some cwd \<Rightarrow>
                 bnd (iput cwd s) (\<lambda>_ s.
                 bnd (end_op s) (\<lambda>_ s.
                 Ok 0 (upd_proc p (\<lambda>q. q\<lparr>p_cwd := Some ip\<rparr>) s)))))))))"

section \<open>Exec and pipes\<close>

text \<open>
  Fetching the argument vector: \<open>n\<close> slots are left, \<open>argv\<close> holds the pages allocated so far.
  The result is \<open>Inl argv\<close> for \<open>goto bad\<close>, \<open>Inr argv\<close> when the null pointer was found.
\<close>

fun fetch_argv :: "nat \<Rightarrow> u64 \<Rightarrow> u64 list \<Rightarrow> kst \<Rightarrow> (u64 list + u64 list) k" where
  "fetch_argv 0 uargv argv s = Ok (Inl argv) s"
| "fetch_argv (Suc n) uargv argv s =
     bnd (fetchaddr (uargv + 8 * of_nat (length argv)) s) (\<lambda>r s.
     if fst r < 0 then Ok (Inl argv) s
     else if snd r = 0 then Ok (Inr argv) s
     else
       bnd (kalloc s) (\<lambda>pg s.
       if pg = 0 then Ok (Inl argv) s
       else
         bnd (fetchstr (snd r) 4096 s) (\<lambda>f s.
         let s = s\<lparr>mem := mblit (mem s) pg (snd f)\<rparr> in
         if fst f < 0 then Ok (Inl (argv @ [pg])) s
         else fetch_argv n uargv (argv @ [pg]) s)))"

definition sys_exec :: "kst \<Rightarrow> u64 k" where
  "sys_exec s =
     bnd (argstr 0 MAXPATH s) (\<lambda>a s.
     if fst a < 0 then Ok fail s
     else
       bnd (argaddr 1 s) (\<lambda>uargv s.
       bnd (fetch_argv MAXARG uargv [] s) (\<lambda>r s.
       case r of
         Inl argv \<Rightarrow> bnd (for_each argv kfree s) (\<lambda>_ s. Ok fail s)
       | Inr argv \<Rightarrow>
           bnd (exec (snd a) argv s) (\<lambda>ret s.
           bnd (for_each argv kfree s) (\<lambda>_ s.
           Ok (of_int ret) s)))))"

definition sys_pipe :: "kst \<Rightarrow> u64 k" where
  "sys_pipe s =
     bnd (curproc s) (\<lambda>p s.
     bnd (argaddr 0 s) (\<lambda>fdarray s.
     bnd (pipealloc s) (\<lambda>r s.
     case r of
       None \<Rightarrow> Ok fail s
     | Some (rf, wrf) \<Rightarrow>
         let close2 = (\<lambda>s. bnd (fileclose rf s) (\<lambda>_ s. bnd (fileclose wrf s) (\<lambda>_ s. Ok fail s))) in
         bnd (fdalloc rf s) (\<lambda>fd0 s.
         if fd0 < 0 then close2 s
         else
           bnd (fdalloc wrf s) (\<lambda>fd1 s.
           if fd1 < 0 then close2 (clear_fd p (nat fd0) s)
           else
             bnd (copyout (p_pagetable (procs s p)) fdarray (le_enc 4 (of_int fd0 :: u32)) s) (\<lambda>r0 s.
             bnd (if r0 < 0 then Ok (- 1) s
                  else copyout (p_pagetable (procs s p)) (fdarray + 4) (le_enc 4 (of_int fd1 :: u32)) s) (\<lambda>r1 s.
             if r1 < 0 then close2 (clear_fd p (nat fd1) (clear_fd p (nat fd0) s))
             else Ok 0 s)))))))"

end
