(* ===== verification/Syscall.thy ===== *)
theory Syscall
  imports Sysfile
begin

text \<open>
  \<open>kernel/sysproc.c\<close> and the dispatcher of \<open>kernel/syscall.c\<close>.
\<close>

section \<open>Process system calls\<close>

definition sys_exit :: "kst \<Rightarrow> u64 k" where
  "sys_exit s =
     bnd (argint 0 s) (\<lambda>n s.
     bnd (exit n s) (\<lambda>_ s. Ok 0 s))"

definition sys_getpid :: "kst \<Rightarrow> u64 k" where
  "sys_getpid s = bnd (curproc s) (\<lambda>p s. Ok (of_int (p_pid (procs s p))) s)"

definition sys_fork :: "kst \<Rightarrow> u64 k" where
  "sys_fork s = bnd (fork s) (\<lambda>r s. Ok (of_int r) s)"

definition sys_wait :: "kst \<Rightarrow> u64 k" where
  "sys_wait s =
     bnd (argaddr 0 s) (\<lambda>p s.
     bnd (wait p s) (\<lambda>r s. Ok (of_int r) s))"

text \<open>The old size is kept in an \<open>int\<close>: truncated to 32 bits and sign-extended on return.\<close>

definition sys_sbrk :: "kst \<Rightarrow> u64 k" where
  "sys_sbrk s =
     bnd (argint 0 s) (\<lambda>n s.
     bnd (curproc s) (\<lambda>p s.
     let addr = ucast (p_sz (procs s p)) :: u32 in
     bnd (growproc n s) (\<lambda>r s.
     if r < 0 then Ok fail s else Ok (scast addr) s)))"

text \<open>\<open>ticks - ticks0 < n\<close> compares as unsigned 32-bit integers. \<open>False\<close>: the process was killed.\<close>

function sleep_ticks :: "u32 \<Rightarrow> u32 \<Rightarrow> kst \<Rightarrow> bool k" where
  "sleep_ticks ticks0 n s =
     (if ticks s - ticks0 < n
      then bnd (curproc s) (\<lambda>p s.
        if p_killed (procs s p) then Ok False s
        else bnd (sleep Cticks Lticks s) (\<lambda>_ s. sleep_ticks ticks0 n s))
      else Ok True s)"
  by auto
termination
proof (relation "measure (\<lambda>(_, _, s). turns s)", simp)
  fix ticks0 n and s s1 s2 :: kst and p u
  assume "curproc s = Ok p s1" and sl: "sleep Cticks Lticks s1 = Ok u s2"
  then have "turns s1 = turns s" by (auto dest!: curproc_OkD intro!: turns_cong simp: peek_select)
  with sleep_turns[OF sl] show "((ticks0, n, s2), ticks0, n, s) \<in> measure (\<lambda>(_, _, s). turns s)" by simp
qed

declare sleep_ticks.simps [simp del]

definition sys_sleep :: "kst \<Rightarrow> u64 k" where
  "sys_sleep s =
     bnd (argint 0 s) (\<lambda>n s.
     bnd (acquire Lticks s) (\<lambda>_ s.
     bnd (sleep_ticks (ticks s) (of_int n) s) (\<lambda>ok s.
     bnd (release Lticks s) (\<lambda>_ s.
     Ok (if ok then 0 else fail) s))))"

definition sys_kill :: "kst \<Rightarrow> u64 k" where
  "sys_kill s =
     bnd (argint 0 s) (\<lambda>pid s.
     bnd (kill pid s) (\<lambda>r s. Ok (of_int r) s))"

definition sys_uptime :: "kst \<Rightarrow> u64 k" where
  "sys_uptime s =
     bnd (acquire Lticks s) (\<lambda>_ s.
     let xticks = ticks s in
     bnd (release Lticks s) (\<lambda>_ s.
     Ok (ucast xticks) s))"

section \<open>Dispatch\<close>

definition syscalls :: "int \<Rightarrow> (kst \<Rightarrow> u64 k) option" where
  "syscalls num =
     (if num = 1 then Some sys_fork
      else if num = 2 then Some sys_exit
      else if num = 3 then Some sys_wait
      else if num = 4 then Some sys_pipe
      else if num = 5 then Some sys_read
      else if num = 6 then Some sys_kill
      else if num = 7 then Some sys_exec
      else if num = 8 then Some sys_fstat
      else if num = 9 then Some sys_chdir
      else if num = 10 then Some sys_dup
      else if num = 11 then Some sys_getpid
      else if num = 12 then Some sys_sbrk
      else if num = 13 then Some sys_sleep
      else if num = 14 then Some sys_uptime
      else if num = 15 then Some sys_open
      else if num = 16 then Some sys_write
      else if num = 17 then Some sys_mknod
      else if num = 18 then Some sys_unlink
      else if num = 19 then Some sys_link
      else if num = 20 then Some sys_mkdir
      else if num = 21 then Some sys_close
      else None)"

text \<open>\<open>"%d %s: unknown sys call %d\n"\<close>\<close>

definition unknown_call_msg :: bytes where
  "unknown_call_msg =
     [37, 100, 32, 37, 115, 58, 32, 117, 110, 107, 110, 111, 119, 110, 32, 115, 121, 115, 32, 99, 97,
      108, 108, 32, 37, 100, 10]"

definition set_a0 :: "nat \<Rightarrow> u64 \<Rightarrow> kst \<Rightarrow> kst" where
  "set_a0 p v s = upd_tf (p_trapframe (procs s p)) (\<lambda>f. f\<lparr>tf_a0 := v\<rparr>) s"

definition syscall :: "kst \<Rightarrow> unit k" where
  "syscall s =
     bnd (curproc s) (\<lambda>p s.
     let num = sint (ucast (tf_a7 (tfs s (p_trapframe (procs s p)))) :: u32) in
     case syscalls num of
       Some call \<Rightarrow> bnd (call s) (\<lambda>r s. Ok () (set_a0 p r s))
     | None \<Rightarrow>
         bnd (printf unknown_call_msg
                [VInt (of_int (p_pid (procs s p))),
                 VStr (Some (cstring (p_name (procs s p)))), VInt (of_int num)] s) (\<lambda>_ s.
         Ok () (set_a0 p fail s)))"

end
