(* ===== verification/Trap.thy ===== *)
theory Trap
  imports Syscall
begin

text \<open>
  \<open>kernel/trap.c\<close>, \<open>kernel/plic.c\<close>, \<open>forkret\<close> of \<open>proc.c\<close> and the boot sequence of \<open>main.c\<close>. A trap
  from user space starts with the control registers as the hardware left them; \<open>usertrapret\<close>
  ends with the jump to the trampoline, whose address and two arguments are its result.
\<close>

section \<open>Interrupt controller\<close>

abbreviation (input) UART0_IRQ :: nat where "UART0_IRQ \<equiv> 10"
abbreviation (input) VIRTIO0_IRQ :: nat where "VIRTIO0_IRQ \<equiv> 1"

definition PLIC_SENABLE :: "nat \<Rightarrow> u64" where "PLIC_SENABLE hartid = PLIC + 0x2080 + of_nat hartid * 0x100"
definition PLIC_SPRIORITY :: "nat \<Rightarrow> u64" where "PLIC_SPRIORITY hartid = PLIC + 0x201000 + of_nat hartid * 0x2000"
definition PLIC_SCLAIM :: "nat \<Rightarrow> u64" where "PLIC_SCLAIM hartid = PLIC + 0x201004 + of_nat hartid * 0x2000"

text \<open>\<open>plic_writes\<close> records the stores to the controller's registers.\<close>

definition plic_store :: "u64 \<Rightarrow> u32 \<Rightarrow> kst \<Rightarrow> kst" where
  "plic_store a v s = s\<lparr>plic_writes := plic_writes s @ [(a, v)]\<rparr>"

definition plicinit :: "kst \<Rightarrow> kst" where
  "plicinit s = plic_store (PLIC + of_nat VIRTIO0_IRQ * 4) 1 (plic_store (PLIC + of_nat UART0_IRQ * 4) 1 s)"

definition plicinithart :: "kst \<Rightarrow> kst" where
  "plicinithart s =
     plic_store (PLIC_SPRIORITY (cpuid s)) 0
       (plic_store (PLIC_SENABLE (cpuid s)) (push_bit UART0_IRQ 1 OR push_bit VIRTIO0_IRQ 1) s)"

text \<open>Reading the claim register takes the next pending interrupt; 0 when there is none.\<close>

definition plic_claim :: "kst \<Rightarrow> nat \<times> kst" where
  "plic_claim s =
     (case plic_claim_reg s of
        [] \<Rightarrow> (0, s)
      | irq # irqs \<Rightarrow> (unat irq, s\<lparr>plic_claim_reg := irqs\<rparr>))"

definition plic_complete :: "nat \<Rightarrow> kst \<Rightarrow> kst" where
  "plic_complete irq s = plic_store (PLIC_SCLAIM (cpuid s)) (of_nat irq) s"

section \<open>Interrupts\<close>

definition trapinit :: "kst \<Rightarrow> kst" where
  "trapinit s = initlock Lticks ''time'' s"

definition trapinithart :: "kst \<Rightarrow> kst" where
  "trapinithart s = s\<lparr>stvec := sym_kernelvec (syms s)\<rparr>"

definition clockintr :: "kst \<Rightarrow> unit k" where
  "clockintr s =
     bnd (acquire Lticks s) (\<lambda>_ s.
     bnd (wakeup Cticks (s\<lparr>ticks := ticks s + 1\<rparr>)) (\<lambda>_ s.
     release Lticks s))"

text \<open>\<open>"unexpected interrupt irq=%d\n"\<close>\<close>

definition unexpected_irq_msg :: bytes where
  "unexpected_irq_msg =
     [117, 110, 101, 120, 112, 101, 99, 116, 101, 100, 32, 105, 110, 116, 101, 114, 114, 117, 112, 116,
      32, 105, 114, 113, 61, 37, 100, 10]"

definition devintr :: "kst \<Rightarrow> int k" where
  "devintr s =
     (let cause = scause s in
      if cause AND 0x8000000000000000 \<noteq> 0 \<and> cause AND 0xff = 9
      then
        case plic_claim s of (irq, s) \<Rightarrow>
          bnd (if irq = UART0_IRQ then uartintr s
               else if irq = VIRTIO0_IRQ then virtio_disk_intr s
               else if irq \<noteq> 0 then printf unexpected_irq_msg [VInt (of_nat irq)] s
               else Ok () s) (\<lambda>_ s.
          Ok 1 (if irq \<noteq> 0 then plic_complete irq s else s))
      else if cause = 0x8000000000000001
      then
        bnd (if cpuid s = 0 then clockintr s else Ok () s) (\<lambda>_ s.
        Ok 2 (s\<lparr>sip := sip s AND NOT 2\<rparr>))
      else Ok 0 s)"

section \<open>Traps\<close>

definition usertrapret :: "kst \<Rightarrow> (u64 \<times> u64 \<times> u64) k" where
  "usertrapret s =
     bnd (curproc s) (\<lambda>p s.
     let s = intr_off s;
         s = s\<lparr>stvec := TRAMPOLINE + (sym_uservec (syms s) - sym_trampoline (syms s))\<rparr>;
         s = upd_tf (p_trapframe (procs s p))
               (\<lambda>f. f\<lparr>tf_kernel_satp := satp s, tf_kernel_sp := p_kstack (procs s p) + PGSIZE,
                      tf_kernel_trap := sym_usertrap (syms s), tf_kernel_hartid := of_nat (hart s)\<rparr>) s;
         s = s\<lparr>sstatus := (sstatus s AND NOT SSTATUS_SPP) OR SSTATUS_SPIE\<rparr>;
         s = s\<lparr>sepc := tf_epc (tfs s (p_trapframe (procs s p)))\<rparr>
     in Ok (TRAMPOLINE + (sym_userret (syms s) - sym_trampoline (syms s)), TRAPFRAME, MAKE_SATP (p_pagetable (procs s p))) s)"

text \<open>\<open>"usertrap(): unexpected scause %p pid=%d\n"\<close> and \<open>"            sepc=%p stval=%p\n"\<close>\<close>

definition usertrap_msg1 :: bytes where
  "usertrap_msg1 =
     [117, 115, 101, 114, 116, 114, 97, 112, 40, 41, 58, 32, 117, 110, 101, 120, 112, 101, 99, 116, 101,
      100, 32, 115, 99, 97, 117, 115, 101, 32, 37, 112, 32, 112, 105, 100, 61, 37, 100, 10]"

definition usertrap_msg2 :: bytes where
  "usertrap_msg2 =
     replicate 12 32 @ [115, 101, 112, 99, 61, 37, 112, 32, 115, 116, 118, 97, 108, 61, 37, 112, 10]"

definition usertrap :: "kst \<Rightarrow> (u64 \<times> u64 \<times> u64) k" where
  "usertrap s =
     (if sstatus s AND SSTATUS_SPP \<noteq> 0 then Panic ''usertrap: not from user mode''
      else
        let s = s\<lparr>stvec := sym_kernelvec (syms s)\<rparr> in
        bnd (curproc s) (\<lambda>p s.
        let s = upd_tf (p_trapframe (procs s p)) (\<lambda>f. f\<lparr>tf_epc := sepc s\<rparr>) s in
        bnd (if scause s = 8
             then
               bnd (if p_killed (procs s p) then exit (- 1) s else Ok () s) (\<lambda>_ s.
               let s = upd_tf (p_trapframe (procs s p)) (\<lambda>f. f\<lparr>tf_epc := tf_epc f + 4\<rparr>) s in
               bnd (syscall (intr_on s)) (\<lambda>_ s. Ok 0 s))
             else
               bnd (devintr s) (\<lambda>which_dev s.
               if which_dev \<noteq> 0 then Ok which_dev s
               else
                 bnd (printf usertrap_msg1 [VPtr (scause s), VInt (of_int (p_pid (procs s p)))] s) (\<lambda>_ s.
                 bnd (printf usertrap_msg2 [VPtr (sepc s), VPtr (stval s)] s) (\<lambda>_ s.
                 Ok 0 (upd_proc p (\<lambda>q. q\<lparr>p_killed := True\<rparr>) s))))) (\<lambda>which_dev s.
        bnd (if p_killed (procs s p) then exit (- 1) s else Ok () s) (\<lambda>_ s.
        bnd (if which_dev = 2 then yield s else Ok () s) (\<lambda>_ s.
        usertrapret s)))))"

text \<open>\<open>"scause %p\n"\<close> and \<open>"sepc=%p stval=%p\n"\<close>\<close>

definition kerneltrap_msg1 :: bytes where
  "kerneltrap_msg1 = [115, 99, 97, 117, 115, 101, 32, 37, 112, 10]"

definition kerneltrap_msg2 :: bytes where
  "kerneltrap_msg2 = [115, 101, 112, 99, 61, 37, 112, 32, 115, 116, 118, 97, 108, 61, 37, 112, 10]"

definition kerneltrap :: "kst \<Rightarrow> unit k" where
  "kerneltrap s =
     (let epc = sepc s; status = sstatus s; cause = scause s in
      if status AND SSTATUS_SPP = 0 then Panic ''kerneltrap: not from supervisor mode''
      else if intr_get s then Panic ''kerneltrap: interrupts enabled''
      else
        bnd (devintr s) (\<lambda>which_dev s.
        if which_dev = 0
        then
          bnd (printf kerneltrap_msg1 [VPtr cause] s) (\<lambda>_ s.
          bnd (printf kerneltrap_msg2 [VPtr (sepc s), VPtr (stval s)] s) (\<lambda>_ s.
          Panic ''kerneltrap''))
        else
          bnd (if which_dev = 2
               then bnd (myproc s) (\<lambda>mp s.
                    case mp of
                      None \<Rightarrow> Ok () s
                    | Some p \<Rightarrow>
                        bnd (curproc s) (\<lambda>p s.
                        if p_state (procs s p) = RUNNING then yield s else Ok () s))
               else Ok () s) (\<lambda>_ s.
          Ok () (s\<lparr>sepc := epc, sstatus := status\<rparr>))))"

section \<open>Boot\<close>

definition forkret :: "kst \<Rightarrow> (u64 \<times> u64 \<times> u64) k" where
  "forkret s =
     bnd (curproc s) (\<lambda>p s.
     bnd (release (Lproc p) s) (\<lambda>_ s.
     bnd (if forkret_first s
          then fsinit ROOTDEV (s\<lparr>forkret_first := False\<rparr>)
          else Ok () s) (\<lambda>_ s.
     usertrapret s)))"

text \<open>\<open>"xv6 kernel is booting\n"\<close> and \<open>"hart %d starting\n"\<close>\<close>

definition booting_msg :: bytes where
  "booting_msg =
     [120, 118, 54, 32, 107, 101, 114, 110, 101, 108, 32, 105, 115, 32, 98, 111, 111, 116, 105, 110, 103, 10]"

definition hart_msg :: bytes where
  "hart_msg = [104, 97, 114, 116, 32, 37, 100, 32, 115, 116, 97, 114, 116, 105, 110, 103, 10]"

text \<open>
  Up to the call of \<open>scheduler\<close>. The variable \<open>started\<close> is an argument and the result; a CPU
  other than 0 spins until it is set, for ever when it is not.
\<close>

definition main :: "(nat \<Rightarrow> u32) \<Rightarrow> u64 \<Rightarrow> bool \<Rightarrow> kst \<Rightarrow> bool k" where
  "main reg pages started s =
     (if cpuid s = 0
      then
        let s = consoleinit s; s = printfinit s in
        bnd (printf [10] [] s) (\<lambda>_ s.
        bnd (printf booting_msg [] s) (\<lambda>_ s.
        bnd (printf [10] [] s) (\<lambda>_ s.
        bnd (kinit s) (\<lambda>_ s.
        bnd (kvminit s) (\<lambda>_ s.
        let s = kvminithart s in
        bnd (procinit s) (\<lambda>_ s.
        let s = trapinit s; s = trapinithart s; s = plicinit s; s = plicinithart s in
        bnd (binit s) (\<lambda>_ s.
        bnd (iinit s) (\<lambda>_ s.
        let s = fileinit s in
        bnd (virtio_disk_init reg pages s) (\<lambda>_ s.
        bnd (userinit s) (\<lambda>_ s.
        Ok True s))))))))))
      else if started
      then
        bnd (printf hart_msg [VInt (of_nat (cpuid s))] s) (\<lambda>_ s.
        let s = kvminithart s; s = trapinithart s; s = plicinithart s in
        Ok started s)
      else Hang)"

end
