(* ===== verification/Page_Table.thy ===== *)
theory Page_Table
  imports Vm
begin

text \<open>
  Page tables as partial maps. \<open>pt_ok m l pt P\<close> says that the table at \<open>pt\<close> with \<open>l\<close> levels of
  tables below it is a tree whose table pages are exactly \<open>P\<close>, no page being used twice; \<open>leaf\<close>
  reads the last-level entry of a virtual address. A walk that allocates keeps every entry
  (\<open>walk_levels_alloc\<close>), and a store to the entry it returns changes that entry and no other
  (\<open>leaf_write\<close>).
\<close>

section \<open>Entries\<close>

lemma PX_unat: "unat (PX l va) = unat va div 2 ^ (12 + 9 * l) mod 512"
proof -
  have "PX l va = take_bit 9 (drop_bit (12 + 9 * l) va)"
    by (simp add: PX_def take_bit_eq_mask mask_eq_exp_minus_1)
  moreover have "unat (take_bit 9 x) = unat x mod 512" for x :: u64
    by (simp add: take_bit_eq_mod unat_mod)
  moreover have "unat (drop_bit (12 + 9 * l) va) = unat va div 2 ^ (12 + 9 * l)"
    using unat_lt64[of va] by (subst unsigned_drop_bit_eq) (simp add: take_bit_nat_eq_self drop_bit_eq_div)
  ultimately show ?thesis by simp
qed

lemma PX_bound: "unat (PX l va) < 512"
  by (simp add: PX_unat)

lemma PTE2PA_aligned: "PTE2PA e mod 4096 = 0"
  by (simp add: aligned_unat PTE2PA_def push_bit_eq_mult unat_word_ariths dvd_mod)

lemma aligned_bits: "(pa :: u64) mod 4096 = 0 \<Longrightarrow> n < 12 \<Longrightarrow> \<not> bit pa n"
proof -
  assume "pa mod 4096 = 0" and n: "n < 12"
  then have "take_bit 12 pa = 0" by (simp add: take_bit_eq_mod)
  then have "\<not> bit (take_bit 12 pa) n" by simp
  then show "\<not> bit pa n" using n by (simp add: bit_take_bit_iff)
qed

lemma small_bits: "(f :: u64) < 0x400 \<Longrightarrow> 10 \<le> n \<Longrightarrow> \<not> bit f n"
proof -
  assume "f < 0x400" and n: "10 \<le> n"
  then have "unat f < 2 ^ n" using power_increasing[OF n, of "2 :: nat"] by (simp add: word_less_nat_alt)
  then have "\<not> bit (unat f) n" by (simp add: bit_nat_iff bit_iff_odd)
  then show "\<not> bit f n" by (simp add: bit_unsigned_iff)
qed

lemma PTE2PA_PA2PTE:
  assumes "pa mod 4096 = 0" and "f < 0x400"
  shows "PTE2PA (PA2PTE pa OR f) = pa"
proof (rule bit_word_eqI)
  fix n assume "n < LENGTH(64)"
  show "bit (PTE2PA (PA2PTE pa OR f)) n = bit pa n"
  proof (cases "n < 12")
    case True
    then show ?thesis using aligned_bits[OF assms(1) True] by (simp add: PTE2PA_def bit_simps)
  next
    case False
    then have "12 + (n - 12) = n" "\<not> bit f (10 + (n - 12))" using small_bits[OF assms(2)] by auto
    then show ?thesis using False \<open>n < LENGTH(64)\<close> by (auto simp: PTE2PA_def PA2PTE_def bit_simps)
  qed
qed

lemma PTE_FLAGS_PA2PTE:
  assumes "f < 0x400"
  shows "PTE_FLAGS (PA2PTE pa OR f) = f"
proof -
  have "PTE_FLAGS (PA2PTE pa OR f) = take_bit 10 (PA2PTE pa OR f)"
    by (simp add: PTE_FLAGS_def take_bit_eq_mask mask_eq_exp_minus_1)
  also have "\<dots> = f"
    by (rule bit_eqI) (use small_bits[OF assms] in \<open>auto simp: PA2PTE_def bit_simps not_less\<close>)
  finally show ?thesis .
qed

text \<open>C10: A page-table entry built from a page address and flag bits gives both back: for every
  page-aligned address and every set of flags below 2^10, PTE2PA and PTE_FLAGS are the inverses
  of PA2PTE and of the or with the flags.\<close>
theorem pte_roundtrip:
  assumes "pa mod PGSIZE = 0" and "f < 0x400"
  shows "PTE2PA (PA2PTE pa OR f) = pa \<and> PTE_FLAGS (PA2PTE pa OR f) = f"
  using PTE2PA_PA2PTE[OF assms] PTE_FLAGS_PA2PTE[OF assms(2)] by simp

theorem pte_roundtrip_witness:
  "PTE2PA (PA2PTE 0x87654000 OR 0x1f) = 0x87654000 \<and> PTE_FLAGS (PA2PTE 0x87654000 OR 0x1f) = 0x1f"
  using pte_roundtrip[of "0x87654000" "0x1f"] by simp

section \<open>Table pages\<close>

definition same_page :: "memory \<Rightarrow> memory \<Rightarrow> u64 \<Rightarrow> bool" where
  "same_page m m' p \<longleftrightarrow> mslice m p 4096 = mslice m' p 4096"

text \<open>Entry \<open>i\<close> of the table at \<open>pt\<close>.\<close>

definition entry :: "memory \<Rightarrow> u64 \<Rightarrow> nat \<Rightarrow> u64" where
  "entry m pt i = mrd64 m (pt + 8 * of_nat i)"

lemma entry_PX: "entry m pt (unat (PX l va)) = mrd64 m (pt + 8 * PX l va)"
  by (simp add: entry_def)

lemma same_page_at: "same_page m m' p \<Longrightarrow> j < 4096 \<Longrightarrow> m (p + of_nat j) = m' (p + of_nat j)"
  by (simp add: same_page_def mslice_def)

lemma same_page_entry:
  assumes "same_page m m' p" and "i < 512"
  shows "entry m p i = entry m' p i"
proof -
  have "m (p + 8 * of_nat i + of_nat j) = m' (p + 8 * of_nat i + of_nat j)" if "j < 8" for j
  proof -
    have "p + 8 * of_nat i + of_nat j = p + (of_nat (8 * i + j) :: u64)" by (simp add: add.assoc)
    moreover have "8 * i + j < 4096" using assms(2) that by simp
    ultimately show ?thesis using same_page_at[OF assms(1), of "8 * i + j"] by (simp only:)
  qed
  then show ?thesis
    unfolding entry_def mrd64_def mslice_def by (intro arg_cong[where f = le_dec] map_cong) auto
qed

lemma same_page_refl [simp]: "same_page m m p"
  by (simp add: same_page_def)

lemma same_page_trans: "same_page m m1 p \<Longrightarrow> same_page m1 m2 p \<Longrightarrow> same_page m m2 p"
  by (simp add: same_page_def)

lemma same_page_mblit:
  "p mod 4096 = 0 \<Longrightarrow> q mod 4096 = 0 \<Longrightarrow> p \<noteq> q \<Longrightarrow> length bs \<le> 4096 \<Longrightarrow> same_page m (mblit m q bs) p"
  by (simp add: same_page_def mslice_mblit_disjoint page_disjoint_run)

text \<open>Storing entry \<open>i\<close> of a table touches that table only, and no other entry of it.\<close>

lemma run_disjoint_within:
  assumes "a + n \<le> b \<or> b + k \<le> a" and "a + n \<le> 4096" and "b + k \<le> 4096"
  shows "disjoint_run (p + of_nat a) n (p + of_nat b) k"
proof -
  have "\<not> unat (p + of_nat a + of_nat i - (p + of_nat b)) < k" if "i < n" for i
  proof (cases "b \<le> a + i")
    case True
    then have "p + of_nat a + of_nat i - (p + of_nat b) = (of_nat (a + i - b) :: u64)"
      by (simp add: of_nat_diff)
    then show ?thesis using assms that True by (simp add: unat_of_nat_lt64 del: of_nat_diff)
  next
    case False
    have "p + of_nat a + of_nat i - (p + of_nat b) = (of_nat (a + i) - of_nat b :: u64)"
      by simp
    moreover have "unat (of_nat (a + i) - of_nat b :: u64) = a + i + 2 ^ 64 - b"
      using False assms that
      by (simp add: unat_sub_if_size word_size unat_of_nat_lt64 del: of_nat_add)
    moreover have "k \<le> a + i + 2 ^ 64 - b" using assms by simp
    ultimately show ?thesis by (simp only: not_less)
  qed
  then show ?thesis by (simp add: disjoint_run_def)
qed

lemma entry_offset: "(8 :: u64) * of_nat i = of_nat (8 * i)"
  by simp

lemma entry_run_disjoint:
  assumes "i < 512" "j < 512" "i \<noteq> j"
  shows "disjoint_run (p + 8 * of_nat i) 8 (p + 8 * of_nat j) 8"
  unfolding entry_offset using assms by (intro run_disjoint_within) auto

lemma entry_write_same: "entry (mwr64 m (pt + 8 * of_nat i) v) pt i = v"
  by (simp add: entry_def byte_simps)

lemma entry_write_other:
  "i < 512 \<Longrightarrow> j < 512 \<Longrightarrow> i \<noteq> j \<Longrightarrow> entry (mwr64 m (pt + 8 * of_nat i) v) pt j = entry m pt j"
  by (simp add: entry_def byte_simps entry_run_disjoint)

lemma same_page_write:
  assumes "p mod 4096 = 0" "pt mod 4096 = 0" "p \<noteq> pt" "i < 512"
  shows "same_page m (mwr64 m (pt + 8 * of_nat i) v) p"
proof -
  have "\<not> unat (p + of_nat j - (pt + of_nat (8 * i))) < 8" if "j < 4096" for j
  proof -
    let ?d = "p + of_nat j - pt"
    have d: "4096 \<le> unat ?d" using page_disjoint[OF assms(1-3) that] .
    have "of_nat (8 * i) \<le> ?d" using d assms(4) by (simp add: word_le_nat_alt unat_of_nat_lt64 del: of_nat_mult)
    then have "unat (?d - of_nat (8 * i)) = unat ?d - 8 * i"
      using assms(4) by (simp add: unat_sub unat_of_nat_lt64 del: of_nat_mult)
    then have "8 \<le> unat (?d - of_nat (8 * i))" using d assms(4) by simp
    moreover have "p + of_nat j - (pt + of_nat (8 * i)) = ?d - of_nat (8 * i)" by (simp only: diff_diff_eq)
    ultimately show ?thesis by (simp only: not_less)
  qed
  then have "disjoint_run p 4096 (pt + 8 * of_nat i) 8" by (simp add: disjoint_run_def)
  then show ?thesis by (simp add: same_page_def mwr64_def mslice_mblit_disjoint)
qed

section \<open>Trees of tables\<close>

primrec pt_ok :: "memory \<Rightarrow> nat \<Rightarrow> u64 \<Rightarrow> u64 set \<Rightarrow> bool" where
  "pt_ok m 0 pt P \<longleftrightarrow> pt mod 4096 = 0 \<and> P = {pt}"
| "pt_ok m (Suc l) pt P \<longleftrightarrow> pt mod 4096 = 0 \<and>
     (\<exists>Q. P = insert pt (\<Union>i<512. Q i) \<and> pt \<notin> (\<Union>i<512. Q i) \<and>
          (\<forall>i<512. \<forall>j<512. i \<noteq> j \<longrightarrow> Q i \<inter> Q j = {}) \<and>
          (\<forall>i<512. if entry m pt i AND PTE_V \<noteq> 0 then pt_ok m l (PTE2PA (entry m pt i)) (Q i)
                   else Q i = {}))"

primrec leaf :: "memory \<Rightarrow> nat \<Rightarrow> u64 \<Rightarrow> u64 \<Rightarrow> u64" where
  "leaf m 0 pt va = entry m pt (unat (PX 0 va))"
| "leaf m (Suc l) pt va =
     (let e = entry m pt (unat (PX (Suc l) va)) in
      if e AND PTE_V \<noteq> 0 then leaf m l (PTE2PA e) va else 0)"

lemma pt_ok_aligned: "pt_ok m l pt P \<Longrightarrow> p \<in> P \<Longrightarrow> p mod 4096 = 0"
proof (induction l arbitrary: pt P)
  case 0
  then show ?case by simp
next
  case (Suc l)
  then obtain Q where P: "P = insert pt (\<Union>i<512. Q i)" and pt: "pt mod 4096 = 0"
    and Q: "\<forall>i<512. if entry m pt i AND PTE_V \<noteq> 0 then pt_ok m l (PTE2PA (entry m pt i)) (Q i) else Q i = {}"
    by auto
  show ?case
  proof (cases "p = pt")
    case False
    with Suc.prems(2) P obtain i where i: "i < 512" "p \<in> Q i" by auto
    with Q have "pt_ok m l (PTE2PA (entry m pt i)) (Q i)" by (metis empty_iff)
    with Suc.IH i show ?thesis by blast
  qed (use pt in simp)
qed

lemma pt_ok_root: "pt_ok m l pt P \<Longrightarrow> pt \<in> P \<and> pt mod 4096 = 0"
  by (cases l) auto

lemma pt_ok_cong:
  "pt_ok m l pt P \<Longrightarrow> (\<And>p. p \<in> P \<Longrightarrow> same_page m m' p) \<Longrightarrow>
     pt_ok m' l pt P \<and> (\<forall>va. leaf m' l pt va = leaf m l pt va)"
proof (induction l arbitrary: pt P)
  case 0
  then show ?case using same_page_entry[of m m' pt] PX_bound by simp
next
  case (Suc l)
  from Suc.prems(1) obtain Q where P: "P = insert pt (\<Union>i<512. Q i)" and pt: "pt mod 4096 = 0"
    and nin: "pt \<notin> (\<Union>i<512. Q i)" and dj: "\<forall>i<512. \<forall>j<512. i \<noteq> j \<longrightarrow> Q i \<inter> Q j = {}"
    and Q: "\<forall>i<512. if entry m pt i AND PTE_V \<noteq> 0 then pt_ok m l (PTE2PA (entry m pt i)) (Q i) else Q i = {}"
    by auto
  have e: "entry m' pt i = entry m pt i" if "i < 512" for i
    using that same_page_entry[of m m' pt i] Suc.prems(2)[of pt] P by simp
  have IH: "pt_ok m' l (PTE2PA (entry m pt i)) (Q i) \<and>
            (\<forall>va. leaf m' l (PTE2PA (entry m pt i)) va = leaf m l (PTE2PA (entry m pt i)) va)"
    if "i < 512" "entry m pt i AND PTE_V \<noteq> 0" for i
    using that Q P Suc.prems(2) by (intro Suc.IH) auto
  have "pt_ok m' (Suc l) pt P"
    unfolding pt_ok.simps using pt P nin dj Q e IH by (intro conjI exI[of _ Q]) auto
  moreover have "leaf m' (Suc l) pt va = leaf m (Suc l) pt va" for va
    using e IH PX_bound[of "Suc l" va] by (simp add: Let_def)
  ultimately show ?case by blast
qed

text \<open>
  A table seen from its entry \<open>i\<close>: the pages \<open>C\<close> below that entry, the other pages \<open>R\<close>, and what
  is left when only the part below the entry changes.
\<close>

definition pt_rest :: "memory \<Rightarrow> nat \<Rightarrow> u64 \<Rightarrow> nat \<Rightarrow> u64 set \<Rightarrow> bool" where
  "pt_rest m l pt i R \<longleftrightarrow>
     (\<forall>m' C'. (\<forall>p \<in> R. same_page m m' p) \<longrightarrow>
        (\<forall>j < 512. j \<noteq> i \<longrightarrow> entry m' pt j = entry m pt j) \<longrightarrow> entry m' pt i AND PTE_V \<noteq> 0 \<longrightarrow>
        pt_ok m' l (PTE2PA (entry m' pt i)) C' \<longrightarrow> C' \<inter> insert pt R = {} \<longrightarrow>
        pt_ok m' (Suc l) pt (insert pt (C' \<union> R)) \<and>
        (\<forall>va. unat (PX (Suc l) va) \<noteq> i \<longrightarrow> leaf m' (Suc l) pt va = leaf m (Suc l) pt va))"

lemma pt_restD:
  assumes "pt_rest m l pt i R" and "\<And>p. p \<in> R \<Longrightarrow> same_page m m' p"
    and "\<And>j. j < 512 \<Longrightarrow> j \<noteq> i \<Longrightarrow> entry m' pt j = entry m pt j" and "entry m' pt i AND PTE_V \<noteq> 0"
    and "pt_ok m' l (PTE2PA (entry m' pt i)) C'" and "C' \<inter> insert pt R = {}"
  shows "pt_ok m' (Suc l) pt (insert pt (C' \<union> R)) \<and>
         (\<forall>va. unat (PX (Suc l) va) \<noteq> i \<longrightarrow> leaf m' (Suc l) pt va = leaf m (Suc l) pt va)"
  using assms(1)[unfolded pt_rest_def] assms(2-) by blast

lemma pt_split:
  assumes "pt_ok m (Suc l) pt P" and "i < 512"
  obtains C R where "P = insert pt (C \<union> R)" and "pt \<notin> C \<union> R" and "C \<inter> R = {}"
    and "if entry m pt i AND PTE_V \<noteq> 0 then pt_ok m l (PTE2PA (entry m pt i)) C else C = {}"
    and "pt_rest m l pt i R"
proof -
  from assms(1) obtain Q where P: "P = insert pt (\<Union>i<512. Q i)" and pt: "pt mod 4096 = 0"
    and nin: "pt \<notin> (\<Union>i<512. Q i)" and dj: "\<And>i j. i < 512 \<Longrightarrow> j < 512 \<Longrightarrow> i \<noteq> j \<Longrightarrow> Q i \<inter> Q j = {}"
    and Q: "\<And>i. i < 512 \<Longrightarrow> if entry m pt i AND PTE_V \<noteq> 0
             then pt_ok m l (PTE2PA (entry m pt i)) (Q i) else Q i = {}"
    by auto
  let ?R = "\<Union>j\<in>{..<512} - {i}. Q j"
  have U: "(\<Union>j<512. Q j) = Q i \<union> ?R" using assms(2) by auto
  have new: "pt_ok m' (Suc l) pt (insert pt (C' \<union> ?R)) \<and>
      (\<forall>va. unat (PX (Suc l) va) \<noteq> i \<longrightarrow> leaf m' (Suc l) pt va = leaf m (Suc l) pt va)"
    if R: "\<forall>p \<in> ?R. same_page m m' p"
      and ej: "\<forall>j < 512. j \<noteq> i \<longrightarrow> entry m' pt j = entry m pt j" and ei: "entry m' pt i AND PTE_V \<noteq> 0"
      and C': "pt_ok m' l (PTE2PA (entry m' pt i)) C'" "C' \<inter> insert pt ?R = {}" for m' C'
  proof -
    have ch: "pt_ok m' l (PTE2PA (entry m pt j)) (Q j) \<and>
        (\<forall>va. leaf m' l (PTE2PA (entry m pt j)) va = leaf m l (PTE2PA (entry m pt j)) va)"
      if j: "j < 512" "j \<noteq> i" "entry m pt j AND PTE_V \<noteq> 0" for j
      using Q[OF j(1)] j R by (intro pt_ok_cong) auto
    let ?Q = "Q(i := C')"
    have U': "(\<Union>j<512. ?Q j) = C' \<union> ?R" using assms(2) by auto
    have d: "?Q a \<inter> ?Q b = {}" if "a < 512" "b < 512" "a \<noteq> b" for a b
      using that dj[of a b] C'(2) by auto
    have q: "if entry m' pt j AND PTE_V \<noteq> 0 then pt_ok m' l (PTE2PA (entry m' pt j)) (?Q j) else ?Q j = {}"
      if "j < 512" for j
      using that ei C'(1) ch[of j] ej Q[of j] by auto
    have "pt \<notin> C' \<union> ?R" using C'(2) nin U by auto
    then have "pt_ok m' (Suc l) pt (insert pt (C' \<union> ?R))"
      unfolding pt_ok.simps using pt d q by (intro conjI exI[of _ ?Q]) (simp_all only: U', blast+)
    moreover have "leaf m' (Suc l) pt va = leaf m (Suc l) pt va" if "unat (PX (Suc l) va) \<noteq> i" for va
      using that ej PX_bound ch[OF PX_bound that] by (simp add: Let_def)
    ultimately show ?thesis by blast
  qed
  have PR: "P = insert pt (Q i \<union> ?R)" "pt \<notin> Q i \<union> ?R" using P nin U by simp_all
  have D: "Q i \<inter> ?R = {}" using dj[OF assms(2)] by fastforce
  have "pt_rest m l pt i ?R" unfolding pt_rest_def using new by blast
  then show ?thesis by (rule that[OF PR D Q[OF assms(2)]])
qed

text \<open>The page \<open>pt_walk\<close> ends in is one of the tree, and a store to its entry is the only change.\<close>

definition same_va :: "nat \<Rightarrow> u64 \<Rightarrow> u64 \<Rightarrow> bool" where
  "same_va l va va' \<longleftrightarrow> (\<forall>j\<le>l. PX j va = PX j va')"

lemma leaf_write:
  assumes "pt_ok m l pt P" and "pt_walk m l pt va = Some d" and "m' = mwr64 m (d + 8 * PX 0 va) v"
  shows "d \<in> P \<and> pt_ok m' l pt P \<and>
         (\<forall>va'. leaf m' l pt va' = (if same_va l va va' then v else leaf m l pt va'))"
  using assms(1,2)
proof (induction l arbitrary: pt P)
  case 0
  then have d: "d = pt" "P = {pt}" "pt mod 4096 = 0" by auto
  have "m' = mwr64 m (pt + 8 * of_nat (unat (PX 0 va))) v" using assms(3) d by simp
  then have "entry m' pt j = (if j = unat (PX 0 va) then v else entry m pt j)" if "j < 512" for j
    using entry_write_same[of m pt "unat (PX 0 va)"] entry_write_other[OF PX_bound[of 0 va] that] by auto
  moreover have "same_va 0 va va' \<longleftrightarrow> unat (PX 0 va') = unat (PX 0 va)" for va'
    by (auto simp: same_va_def word_unat_eq_iff)
  ultimately show ?case using d PX_bound by auto
next
  case (Suc l)
  let ?i = "unat (PX (Suc l) va)"
  let ?e = "entry m pt ?i"
  have v: "?e AND PTE_V \<noteq> 0" and w: "pt_walk m l (PTE2PA ?e) va = Some d"
    using Suc.prems(2) by (auto simp: entry_PX Let_def split: if_splits)
  obtain C R
    where P: "P = insert pt (C \<union> R)" "pt \<notin> C \<union> R" "C \<inter> R = {}"
      and C: "if ?e AND PTE_V \<noteq> 0 then pt_ok m l (PTE2PA ?e) C else C = {}"
      and rest: "pt_rest m l pt ?i R"
    by (rule pt_split[OF Suc.prems(1) PX_bound[of "Suc l" va]])
  have C': "pt_ok m l (PTE2PA ?e) C" using C v by simp
  note IH = Suc.IH[OF C' w]
  have d: "d mod 4096 = 0" "d \<in> C" using IH pt_ok_aligned[OF C'] by auto
  have same: "same_page m m' p" if "p \<in> insert pt R" for p
    using that P d pt_ok_aligned[OF Suc.prems(1)] same_page_write[of p d "unat (PX 0 va)" m v] PX_bound assms(3)
    by auto
  have e: "entry m' pt j = entry m pt j" if "j < 512" for j
    using same_page_entry[OF same[of pt] that] by simp
  have new: "pt_ok m' (Suc l) pt (insert pt (C \<union> R)) \<and>
        (\<forall>va. unat (PX (Suc l) va) \<noteq> ?i \<longrightarrow> leaf m' (Suc l) pt va = leaf m (Suc l) pt va)"
    using same e v IH P PX_bound[of "Suc l" va] by (intro pt_restD[OF rest]) auto
  have "leaf m' (Suc l) pt va' = (if same_va (Suc l) va va' then v else leaf m (Suc l) pt va')" for va'
  proof (cases "unat (PX (Suc l) va') = ?i")
    case True
    have "PX (Suc l) va = PX (Suc l) va'" using True by (simp only: word_unat_eq_iff)
    then have "same_va (Suc l) va va' = same_va l va va'" by (auto simp: same_va_def le_Suc_eq)
    then show ?thesis using True e[OF PX_bound] v IH by (simp add: Let_def)
  next
    case False
    then have "\<not> same_va (Suc l) va va'" by (auto simp: same_va_def)
    then show ?thesis using False new by simp
  qed
  then show ?case using new P d by simp
qed

section \<open>A walk that allocates\<close>

lemma valid_entry: "(PA2PTE pa OR f OR PTE_V) AND PTE_V \<noteq> 0"
proof
  assume "(PA2PTE pa OR f OR 1) AND 1 = 0"
  then have "\<not> bit ((PA2PTE pa OR f OR 1) AND 1) 0" by simp
  then show False by (simp add: bit_simps)
qed

lemma zero_table:
  assumes "x mod 4096 = 0" and "\<And>i. i < 512 \<Longrightarrow> entry m x i = 0"
  shows "pt_ok m l x {x}" and "leaf m l x va = 0"
proof -
  show "pt_ok m l x {x}"
    using assms by (cases l) (auto intro!: exI[of _ "\<lambda>_. {}"])
  show "leaf m l x va = 0"
    using assms PX_bound by (cases l) (simp_all add: Let_def)
qed

lemma le_dec_zeros: "le_dec (replicate n 0) = 0"
  by (induction n) simp_all

lemma entry_zero_page: "i < 512 \<Longrightarrow> entry (mblit m x (replicate 4096 0)) x i = 0"
proof -
  assume i: "i < 512"
  have "mslice (mblit m x (replicate 4096 0)) (x + of_nat (8 * i)) 8 = replicate 8 0"
  proof (rule nth_equalityI)
    fix j assume "j < length (mslice (mblit m x (replicate 4096 0)) (x + of_nat (8 * i)) 8)"
    then have j: "j < 8" by simp
    have e: "x + of_nat (8 * i) + of_nat j = x + (of_nat (8 * i + j) :: u64)" by (simp add: add.assoc)
    have "mblit m x (replicate 4096 0) (x + of_nat (8 * i) + of_nat j) = 0"
      unfolding e using i j by (simp add: mblit_at del: of_nat_add of_nat_mult)
    then show "mslice (mblit m x (replicate 4096 0)) (x + of_nat (8 * i)) 8 ! j = replicate 8 0 ! j"
      using j by (simp add: mslice_def del: of_nat_mult)
  qed simp
  then show ?thesis unfolding entry_def mrd64_def entry_offset by (simp only: le_dec_zeros)
qed

lemma kavail_mem:
  assumes "kavail s xs" and "\<And>x. x \<in> set xs \<Longrightarrow> same_page (mem s) (mem t) x"
    and "freelist t = freelist s" "syms t = syms s" "locks t = locks s" "cpus t = cpus s"
    "hart t = hart s" "sstatus t = sstatus s"
  shows "kavail t xs"
proof -
  have "mrd64 (mem s) x = mrd64 (mem t) x" if "x \<in> set xs" for x
    using same_page_entry[OF assms(2)[OF that], of 0] by (simp add: entry_def)
  then have "flist (mem s) (freelist s) xs = flist (mem t) (freelist s) xs" by (rule flist_cong)
  then show ?thesis
    using assms by (simp add: kavail_def kmem_inv_def free_lock_def cpu_ok_def intr_get_def)
qed

text \<open>A state in which the table has grown by the pages \<open>ys\<close> and maps the same addresses as before.\<close>

definition grown :: "kst \<Rightarrow> kst \<Rightarrow> nat \<Rightarrow> u64 \<Rightarrow> u64 set \<Rightarrow> u64 list \<Rightarrow> bool" where
  "grown s t l pt P ys \<longleftrightarrow> pt_ok (mem t) l pt (P \<union> set ys) \<and>
     (\<forall>va. leaf (mem t) l pt va = leaf (mem s) l pt va) \<and>
     (\<forall>q. q mod 4096 = 0 \<longrightarrow> q \<notin> P \<union> set ys \<longrightarrow> same_page (mem s) (mem t) q) \<and> syms t = syms s"

lemma grownD:
  assumes "grown s t l pt P ys" and "q mod 4096 = 0" and "q \<notin> P \<union> set ys"
  shows "same_page (mem s) (mem t) q"
  using assms(1)[unfolded grown_def] assms(2,3) by (elim conjE allE[of _ q]) (simp only: simp_thms)

lemma grown_refl: "pt_ok (mem s) l pt P \<Longrightarrow> mem t = mem s \<Longrightarrow> syms t = syms s \<Longrightarrow> grown s t l pt P []"
  by (simp add: grown_def)

text \<open>One level of the walk when the entry is present, from the levels below.\<close>

lemma grown_step:
  assumes "pt_ok (mem s) (Suc l) pt P" and "i = unat (PX (Suc l) va)" and "i < 512"
    and "entry (mem s) pt i AND PTE_V \<noteq> 0"
    and "P = insert pt (C \<union> R)" and "pt \<notin> C \<union> R" and "C \<inter> R = {}" and "pt_rest (mem s) l pt i R"
    and "grown s t l (PTE2PA (entry (mem s) pt i)) C ys" and "P \<inter> set ys = {}"
  shows "grown s t (Suc l) pt P ys" and "entry (mem t) pt i = entry (mem s) pt i"
proof -
  let ?e = "entry (mem s) pt i"
  have al: "p mod 4096 = 0" if "p \<in> P" for p using pt_ok_aligned[OF assms(1) that] .
  have same: "same_page (mem s) (mem t) p" if "p \<in> insert pt R" for p
  proof -
    have "p \<in> P" "p \<notin> C \<union> set ys" using that assms(5-7,10) by auto
    then show ?thesis using assms(9) al by (simp add: grown_def)
  qed
  have e: "entry (mem t) pt j = entry (mem s) pt j" if "j < 512" for j
    using same_page_entry[OF same[of pt] that] by simp
  then show ei: "entry (mem t) pt i = entry (mem s) pt i" using assms(3) by simp
  have ok: "pt_ok (mem t) l (PTE2PA (entry (mem t) pt i)) (C \<union> set ys)"
    using assms(9) ei by (simp add: grown_def)
  have dj: "(C \<union> set ys) \<inter> insert pt R = {}" using assms(5-7,10) by auto
  have new: "pt_ok (mem t) (Suc l) pt (insert pt ((C \<union> set ys) \<union> R)) \<and>
    (\<forall>va. unat (PX (Suc l) va) \<noteq> i \<longrightarrow> leaf (mem t) (Suc l) pt va = leaf (mem s) (Suc l) pt va)"
    using same e assms(4) ei ok dj by (intro pt_restD[OF assms(8)]) auto
  have "leaf (mem t) (Suc l) pt va' = leaf (mem s) (Suc l) pt va'" for va'
  proof (cases "unat (PX (Suc l) va') = i")
    case True
    then show ?thesis using assms(9) ei assms(4) by (simp add: grown_def Let_def)
  qed (use new in blast)
  moreover have "insert pt ((C \<union> set ys) \<union> R) = P \<union> set ys" using assms(5) by auto
  ultimately show "grown s t (Suc l) pt P ys"
    using new assms(5,9) by (auto simp: grown_def)
qed

text \<open>A fresh table page hung below entry \<open>i\<close>.\<close>

definition hang_table :: "u64 \<Rightarrow> u64 \<Rightarrow> nat \<Rightarrow> kst \<Rightarrow> kst" where
  "hang_table x pt i s =
     (let s = fill_page x 0 s in s\<lparr>mem := mwr64 (mem s) (pt + 8 * of_nat i) (PA2PTE x OR PTE_V)\<rparr>)"

lemma hang_table_spec:
  assumes "kavail s (x # xs)" and "pt mod 4096 = 0" and "pt \<notin> set (x # xs)" and "i < 512"
  defines "t \<equiv> hang_table x pt i (settle (popped s))"
  shows "x mod 4096 = 0" and "kavail t xs" and "syms t = syms s"
    and "entry (mem t) pt i = PA2PTE x OR PTE_V"
    and "\<And>j. j < 512 \<Longrightarrow> j \<noteq> i \<Longrightarrow> entry (mem t) pt j = entry (mem s) pt j"
    and "\<And>j. j < 512 \<Longrightarrow> entry (mem t) x j = 0"
    and "\<And>q. q mod 4096 = 0 \<Longrightarrow> q \<noteq> x \<Longrightarrow> q \<noteq> pt \<Longrightarrow> same_page (mem s) (mem t) q"
proof -
  have inv: "kmem_inv s (x # xs)" using assms(1) by (simp add: kavail_def)
  have "\<forall>y \<in> set (x # xs). page_ok (sym_end (syms s)) y" using inv unfolding kmem_inv_def by blast
  then have al: "y mod 4096 = 0" if "y \<in> set (x # xs)" for y
    using that by (simp only: page_ok_def)
  show x: "x mod 4096 = 0" using al by simp
  have x0: "freelist s = x" "x \<noteq> 0" "distinct (x # xs)" using inv by (auto simp: kmem_inv_def)
  let ?m1 = "mblit (mblit (mem s) x (replicate 4096 5)) x (replicate 4096 0)"
  have m: "mem t = mwr64 ?m1 (pt + 8 * of_nat i) (PA2PTE x OR PTE_V)"
    using x0 by (simp add: t_def hang_table_def popped_def lock_simps Let_def)
  have 1: "same_page (mem s) ?m1 q" if "q mod 4096 = 0" "q \<noteq> x" for q
    using same_page_trans[OF same_page_mblit same_page_mblit] that x by simp
  have 2: "same_page ?m1 (mem t) q" if "q mod 4096 = 0" "q \<noteq> pt" for q
    unfolding m using that(1) assms(2) that(2) assms(4) by (rule same_page_write)
  show sp: "same_page (mem s) (mem t) q" if "q mod 4096 = 0" "q \<noteq> x" "q \<noteq> pt" for q
    using same_page_trans[OF 1 2] that by simp
  show "entry (mem t) pt i = PA2PTE x OR PTE_V" unfolding m by (rule entry_write_same)
  show "entry (mem t) pt j = entry (mem s) pt j" if "j < 512" "j \<noteq> i" for j
    using entry_write_other[of i j ?m1 pt] same_page_entry[OF 1[OF assms(2)] that(1)] that assms(3,4)
    unfolding m by simp
  show "entry (mem t) x j = 0" if "j < 512" for j
  proof -
    have "x \<noteq> pt" using assms(3) by auto
    then show ?thesis using same_page_entry[OF 2[OF x] that] entry_zero_page[OF that] by simp
  qed
  show "syms t = syms s" by (simp add: t_def hang_table_def lock_simps Let_def)
  have "kavail (settle (popped s)) xs"
    using assms(1) kmem_inv_popped[of s x xs] by (simp add: kavail_def lock_simps)
  then show "kavail t xs"
  proof (rule kavail_mem)
    fix y assume y: "y \<in> set xs"
    then have "y \<noteq> x" "y \<noteq> pt" "y mod 4096 = 0" using x0 assms(3) al by auto
    moreover have "mem (settle (popped s)) = mblit (mem s) x (replicate 4096 5)"
      using x0 by (simp add: popped_def lock_simps)
    ultimately show "same_page (mem (settle (popped s))) (mem t) y"
      using same_page_trans[OF same_page_mblit 2] x by simp
  qed (simp_all add: t_def hang_table_def fill_page_def lock_simps Let_def)
qed

lemma grown_hang:
  assumes "pt_ok (mem s) (Suc l) pt P" and "i < 512" and "entry (mem s) pt i AND PTE_V = 0"
    and "P = insert pt (C \<union> R)" and "pt \<notin> C \<union> R" and "C \<inter> R = {}" and "pt_rest (mem s) l pt i R"
    and "kavail s (x # xs)"  and "P \<inter> set (x # xs) = {}"
    and "grown (hang_table x pt i (settle (popped s))) t l x {x} ys" and "set ys \<subseteq> set xs" and "C = {}"
  shows "grown s t (Suc l) pt P (x # ys)" and "entry (mem t) pt i = PA2PTE x OR PTE_V"
proof -
  let ?s = "hang_table x pt i (settle (popped s))"
  have pt: "pt mod 4096 = 0" "pt \<notin> set (x # xs)" using pt_ok_root[OF assms(1)] assms(9) by auto
  note h = hang_table_spec[OF assms(8) pt assms(2)]
  have al: "p mod 4096 = 0" if "p \<in> P" for p using pt_ok_aligned[OF assms(1) that] .
  have g: "\<And>q. q mod 4096 = 0 \<Longrightarrow> q \<notin> {x} \<union> set ys \<Longrightarrow> same_page (mem ?s) (mem t) q"
    by (rule grownD[OF assms(10)])
  have same: "same_page (mem ?s) (mem t) p" if "p \<in> P" for p
    using g[OF al[OF that]] assms(9,11) that by auto
  have sameR: "same_page (mem s) (mem t) p" if p: "p \<in> R" for p
  proof -
    have ne: "p \<in> P" "p \<noteq> x" "p \<noteq> pt" using p assms(4,5,9) by auto
    show ?thesis by (rule same_page_trans[OF h(7)[OF al[OF ne(1)] ne(2,3)] same[OF ne(1)]])
  qed
  have e: "entry (mem t) pt j = entry (mem ?s) pt j" if "j < 512" for j
    using same_page_entry[OF same[of pt] that] assms(4) by simp
  then show ei: "entry (mem t) pt i = PA2PTE x OR PTE_V" using h(4) assms(2) by simp
  have x: "PTE2PA (entry (mem t) pt i) = x" using PTE2PA_PA2PTE[OF h(1), of 1] ei by simp
  have new: "pt_ok (mem t) (Suc l) pt (insert pt (set (x # ys) \<union> R)) \<and>
    (\<forall>va. unat (PX (Suc l) va) \<noteq> i \<longrightarrow> leaf (mem t) (Suc l) pt va = leaf (mem s) (Suc l) pt va)"
    using sameR e h(5) ei valid_entry[of x 0] x assms(4,9-11)
    by (intro pt_restD[OF assms(7)]) (auto simp: grown_def)
  have lf: "leaf (mem t) (Suc l) pt va' = leaf (mem s) (Suc l) pt va'" for va'
  proof (cases "unat (PX (Suc l) va') = i")
    case True
    have "leaf (mem ?s) l x va' = 0" by (rule zero_table(2)[OF h(1)]) (rule h(6))
    then have "leaf (mem t) l x va' = 0" using assms(10) by (simp add: grown_def)
    then show ?thesis using True ei x valid_entry[of x 0] assms(3) by (simp add: Let_def)
  qed (use new in blast)
  have pages: "insert pt (set (x # ys) \<union> R) = P \<union> set (x # ys)" using assms(4,12) by auto
  have sp: "same_page (mem s) (mem t) q" if q: "q mod 4096 = 0" "q \<notin> P \<union> set (x # ys)" for q
  proof -
    have ne: "q \<noteq> x" "q \<noteq> pt" "q \<notin> {x} \<union> set ys" using q(2) assms(4) by auto
    show ?thesis by (rule same_page_trans[OF h(7)[OF q(1) ne(1,2)] g[OF q(1) ne(3)]])
  qed
  have "syms t = syms s" using h(3) assms(10) by (simp add: grown_def)
  then show "grown s t (Suc l) pt P (x # ys)"
    unfolding grown_def using new[unfolded pages] lf by (intro conjI allI impI sp) simp_all
qed

lemma walk_levels_alloc:
  assumes "pt_ok (mem s) l pt P" and "kavail s xs" and "P \<inter> set xs = {}"
  shows "\<exists>t k r. walk_levels l pt va True s = Ok r t \<and> k \<le> length xs \<and> k \<le> l \<and> kavail t (drop k xs) \<and>
           grown s t l pt P (take k xs) \<and>
           (case r of Some d \<Rightarrow> pt_walk (mem t) l pt va = Some d | None \<Rightarrow> k = length xs \<and> k < l)"
  using assms
proof (induction l arbitrary: s pt P xs)
  case 0
  then show ?case
    using grown_refl[of s 0 pt P s] by (intro exI[of _ s] exI[of _ 0] exI[of _ "Some pt"]) simp
next
  case (Suc l)
  let ?i = "unat (PX (Suc l) va)"
  let ?e = "entry (mem s) pt ?i"
  obtain C R
    where P: "P = insert pt (C \<union> R)" "pt \<notin> C \<union> R" "C \<inter> R = {}"
      and C: "if ?e AND PTE_V \<noteq> 0 then pt_ok (mem s) l (PTE2PA ?e) C else C = {}"
      and rest: "pt_rest (mem s) l pt ?i R"
    by (rule pt_split[OF Suc.prems(1) PX_bound[of "Suc l" va]])
  show ?case
  proof (cases "?e AND PTE_V = 0")
    case False
    have ok: "pt_ok (mem s) l (PTE2PA ?e) C" "C \<inter> set xs = {}" using C False P Suc.prems(3) by auto
    from Suc.IH[OF ok(1) Suc.prems(2) ok(2)] obtain t k r
      where t: "walk_levels l (PTE2PA ?e) va True s = Ok r t" "k \<le> length xs" "k \<le> l" "kavail t (drop k xs)"
        and g: "grown s t l (PTE2PA ?e) C (take k xs)"
        and r: "case r of Some d \<Rightarrow> pt_walk (mem t) l (PTE2PA ?e) va = Some d | None \<Rightarrow> k = length xs \<and> k < l"
      by (elim exE conjE) (rule that; assumption)
    have dj: "P \<inter> set (take k xs) = {}" using Suc.prems(3) set_take_subset[of k xs] by auto
    note g' = grown_step[OF Suc.prems(1) refl PX_bound False P rest g dj]
    have w: "walk_levels (Suc l) pt va True s = Ok r t"
      using t(1) False by (simp add: entry_PX Let_def)
    have res: "case r of Some d \<Rightarrow> pt_walk (mem t) (Suc l) pt va = Some d | None \<Rightarrow> k = length xs \<and> k < Suc l"
      using r False g'(2) by (cases r) (simp_all add: entry_PX Let_def)
    show ?thesis
      using t(3) by (intro exI[of _ t] exI[of _ k] exI[of _ r]) (intro conjI w t(2,4) g'(1) res, simp)
  next
    case True
    then have inv: "mrd64 (mem s) (pt + 8 * PX (Suc l) va) AND PTE_V = 0" by (simp add: entry_PX)
    show ?thesis
    proof (cases xs)
      case Nil
      then have k: "kalloc s = Ok 0 (settle s)"
        using kalloc_Ok[of s] Suc.prems(2) by (simp add: kavail_def kmem_inv_def popped_def)
      then have w: "walk_levels (Suc l) pt va True s = Ok None (settle s)" using inv by (simp add: Let_def)
      show ?thesis
        using w Nil Suc.prems(1,2) grown_refl[of s "Suc l" pt P "settle s"]
        by (intro exI[of _ "settle s"] exI[of _ 0] exI[of _ None]) (simp add: lock_simps)
    next
      case (Cons x ys)
      let ?s = "hang_table x pt ?i (settle (popped s))"
      have av: "kavail s (x # ys)" and pt: "pt mod 4096 = 0" "pt \<notin> set (x # ys)"
        using Suc.prems Cons pt_ok_root by auto
      note h = hang_table_spec[OF av pt PX_bound[of "Suc l" va]]
      have k: "kalloc s = Ok x (settle (popped s))" "x \<noteq> 0"
        using kalloc_Ok[of s] av by (auto simp: kavail_def kmem_inv_def)
      have z: "pt_ok (mem ?s) l x {x}" by (rule zero_table(1)[OF h(1)]) (rule h(6))
      have "{x} \<inter> set ys = {}" using av by (simp add: kavail_def kmem_inv_def)
      from Suc.IH[OF z h(2) this] obtain t k r
        where t: "walk_levels l x va True ?s = Ok r t" "k \<le> length ys" "k \<le> l" "kavail t (drop k ys)"
          and g: "grown ?s t l x {x} (take k ys)"
          and r: "case r of Some d \<Rightarrow> pt_walk (mem t) l x va = Some d | None \<Rightarrow> k = length ys \<and> k < l"
        by (elim exE conjE) (rule that; assumption)
      have w: "walk_levels (Suc l) pt va True s = Ok r t"
        using t(1) inv k by (simp add: hang_table_def fill_page_def lock_simps Let_def)
      have gr: "grown s t (Suc l) pt P (x # take k ys)" and e: "entry (mem t) pt ?i = PA2PTE x OR PTE_V"
        using grown_hang[OF Suc.prems(1) PX_bound[of "Suc l" va] True P rest av _ g] Suc.prems(3) Cons
          set_take_subset[of k ys] C True by auto
      have "pt_walk (mem t) (Suc l) pt va = pt_walk (mem t) l x va"
        using e valid_entry[of x 0] PTE2PA_PA2PTE[OF h(1), of 1] by (simp add: entry_PX Let_def)
      then have res: "case r of Some d \<Rightarrow> pt_walk (mem t) (Suc l) pt va = Some d | None \<Rightarrow> Suc k = length xs \<and> Suc k < Suc l"
        using r Cons by (cases r) simp_all
      show ?thesis
        using w t(2-4) gr res Cons by (intro exI[of _ t] exI[of _ "Suc k"] exI[of _ r]) simp
    qed
  qed
qed

end
