(* ===== verification/Page_Map.thy ===== *)
theory Page_Map
  imports Page_Table
begin

text \<open>
  The mapping of a page table under \<open>mappages\<close> and \<open>uvmunmap\<close>, and copying between kernel and user
  memory through it.
\<close>

section \<open>Mapping pages\<close>

text \<open>The number of the page of a virtual address.\<close>

definition vpn :: "u64 \<Rightarrow> nat" where "vpn va = unat va div 4096"

lemma digits512:
  assumes "x mod 512 = y mod 512" and "x div 512 mod 512 = y div 512 mod 512"
    and "x div 512 div 512 = y div 512 div (512 :: nat)"
  shows "x = y"
proof -
  have "x div 512 = x div 512 div 512 * 512 + x div 512 mod 512" by (simp only: div_mult_mod_eq)
  also have "\<dots> = y div 512" unfolding assms by (simp only: div_mult_mod_eq)
  finally have h: "x div 512 = y div 512" .
  have "x = x div 512 * 512 + x mod 512" by (simp only: div_mult_mod_eq)
  also have "\<dots> = y" unfolding h assms(1) by (simp only: div_mult_mod_eq)
  finally show ?thesis .
qed

lemma PX_vpn: "unat (PX 0 x) = vpn x mod 512" "unat (PX 1 x) = vpn x div 512 mod 512"
    "unat (PX 2 x) = vpn x div 512 div 512 mod 512"
  using div_mult2_eq[of "unat x" 4096 512] div_mult2_eq[of "unat x" "4096 * 512" 512]
  by (simp_all add: PX_unat vpn_def)

lemma vpn_top: "va < MAXVA \<Longrightarrow> vpn va div 512 div 512 < 512"
  using div_mult2_eq[of "unat va" 4096 512] div_mult2_eq[of "unat va" "4096 * 512" 512]
  by (simp add: vpn_def word_less_nat_alt less_mult_imp_div_less)

lemma same_va_vpn:
  assumes "va < MAXVA" and "va' < MAXVA"
  shows "same_va 2 va va' \<longleftrightarrow> vpn va = vpn va'"
proof -
  have "same_va 2 va va' \<longleftrightarrow> PX 0 va = PX 0 va' \<and> PX 1 va = PX 1 va' \<and> PX 2 va = PX 2 va'"
    by (auto simp: same_va_def le_Suc_eq numeral_2_eq_2)
  also have "\<dots> \<longleftrightarrow> unat (PX 0 va) = unat (PX 0 va') \<and> unat (PX 1 va) = unat (PX 1 va') \<and>
          unat (PX 2 va) = unat (PX 2 va')"
    by (simp only: word_unat_eq_iff)
  also have "\<dots> \<longleftrightarrow> vpn va = vpn va'"
    unfolding PX_vpn using vpn_top[OF assms(1)] vpn_top[OF assms(2)] digits512[of "vpn va" "vpn va'"]
    by (auto simp only: mod_less)
  finally show ?thesis .
qed

text \<open>The table, its pages and the allocator, ready for a change of the mapping.\<close>

definition pt_ready :: "kst \<Rightarrow> u64 \<Rightarrow> u64 set \<Rightarrow> u64 list \<Rightarrow> bool" where
  "pt_ready s pt P xs \<longleftrightarrow> pt_ok (mem s) 2 pt P \<and> 0 \<notin> P \<and> kavail s xs \<and> P \<inter> set xs = {}"

text \<open>\<open>t\<close> differs from \<open>s\<close> in the mapping of the pages \<open>N\<close> only, given by \<open>f\<close>, and in the tables.\<close>

definition remapped :: "kst \<Rightarrow> kst \<Rightarrow> u64 \<Rightarrow> u64 set \<Rightarrow> nat set \<Rightarrow> (nat \<Rightarrow> u64) \<Rightarrow> bool" where
  "remapped s t pt P N f \<longleftrightarrow>
     (\<forall>va < MAXVA. leaf (mem t) 2 pt va = (if vpn va \<in> N then f (vpn va) else leaf (mem s) 2 pt va)) \<and>
     (\<forall>q. q mod 4096 = 0 \<longrightarrow> q \<notin> P \<longrightarrow> same_page (mem s) (mem t) q) \<and> syms t = syms s"

lemma leaf_walk: "pt_walk m l pt va = Some d \<Longrightarrow> leaf m l pt va = mrd64 m (d + 8 * PX 0 va)"
  by (induction l arbitrary: pt) (auto simp: entry_PX Let_def split: if_splits)

lemma entry_nonzero:
  assumes "d mod 4096 = 0" and "d \<noteq> 0"
  shows "d + 8 * PX l va \<noteq> 0"
proof -
  have "unat (d + of_nat (8 * unat (PX l va)) - 0) \<ge> 4096"
    using PX_bound[of l va] assms by (intro page_disjoint) simp_all
  then have "unat (d + 8 * PX l va) \<noteq> 0" by simp
  then show ?thesis by (simp only: unat_eq_0 not_False_eq_True)
qed

text \<open>Storing to the entry a walk has found.\<close>

lemma entry_store:
  assumes "pt_ready s pt P xs" and "pt_walk (mem s) 2 pt va = Some d" and "va < MAXVA"
  shows "d + 8 * PX 0 va \<noteq> 0" and "pt_ready (s\<lparr>mem := mwr64 (mem s) (d + 8 * PX 0 va) v\<rparr>) pt P xs"
    and "remapped s (s\<lparr>mem := mwr64 (mem s) (d + 8 * PX 0 va) v\<rparr>) pt P {vpn va} (\<lambda>_. v)"
proof -
  have ok: "pt_ok (mem s) 2 pt P" "kavail s xs" "P \<inter> set xs = {}" "0 \<notin> P"
    using assms(1) by (simp_all add: pt_ready_def)
  let ?m = "mwr64 (mem s) (d + 8 * PX 0 va) v"
  note lw = leaf_write[OF ok(1) assms(2) refl, of v]
  have d: "d \<in> P" "d mod 4096 = 0" using lw pt_ok_aligned[OF ok(1)] by auto
  show "d + 8 * PX 0 va \<noteq> 0" using d ok(4) by (intro entry_nonzero) auto
  have same: "same_page (mem s) ?m q" if "q mod 4096 = 0" "q \<noteq> d" for q
    using same_page_write[OF that(1) d(2) that(2) PX_bound[of 0 va]] by simp
  have "kavail (s\<lparr>mem := ?m\<rparr>) xs"
  proof (rule kavail_mem[OF ok(2)])
    fix x assume x: "x \<in> set xs"
    have "x mod 4096 = 0" using kmem.avail_pages[OF ok(2)] x unfolding kpage_def page_ok_def by blast
    moreover have "x \<noteq> d" using x d ok(3) by auto
    ultimately show "same_page (mem s) (mem (s\<lparr>mem := ?m\<rparr>)) x" using same by simp
  qed simp_all
  then show "pt_ready (s\<lparr>mem := ?m\<rparr>) pt P xs" using lw ok by (simp add: pt_ready_def)
  have "same_page (mem s) ?m q" if "q mod 4096 = 0" "q \<notin> P" for q
    using same[OF that(1)] that(2) d(1) by auto
  moreover have "leaf ?m 2 pt va' = (if vpn va' \<in> {vpn va} then v else leaf (mem s) 2 pt va')"
    if "va' < MAXVA" for va'
    using lw same_va_vpn[OF assms(3) that] by auto
  ultimately show "remapped s (s\<lparr>mem := ?m\<rparr>) pt P {vpn va} (\<lambda>_. v)"
    unfolding remapped_def by (intro conjI allI impI) simp_all
qed

lemma remappedD:
  assumes "remapped s t pt P N f"
  shows "\<And>va. va < MAXVA \<Longrightarrow> leaf (mem t) 2 pt va = (if vpn va \<in> N then f (vpn va) else leaf (mem s) 2 pt va)"
    and "\<And>q. q mod 4096 = 0 \<Longrightarrow> q \<notin> P \<Longrightarrow> same_page (mem s) (mem t) q"
    and "syms t = syms s"
  using assms[unfolded remapped_def] by ((elim conjE allE; simp only: simp_thms)+)[2] (simp add: assms[unfolded remapped_def])

lemma remapped_trans:
  assumes "remapped s t pt P N f" and "remapped t u pt P' N' f'" and "P \<subseteq> P'"
    and "\<And>n. n \<in> N \<Longrightarrow> h n = f n" "\<And>n. n \<in> N' \<Longrightarrow> h n = f' n" and "N \<inter> N' = {}"
  shows "remapped s u pt P' (N \<union> N') h"
  unfolding remapped_def
proof (intro conjI allI impI)
  fix va assume va: "va < MAXVA"
  show "leaf (mem u) 2 pt va = (if vpn va \<in> N \<union> N' then h (vpn va) else leaf (mem s) 2 pt va)"
    using remappedD(1)[OF assms(1) va] remappedD(1)[OF assms(2) va] assms(4-6) by auto
next
  fix q :: u64 assume q: "q mod 4096 = 0" "q \<notin> P'"
  then have "q \<notin> P" using assms(3) by blast
  from same_page_trans[OF remappedD(2)[OF assms(1) q(1) this] remappedD(2)[OF assms(2) q]]
  show "same_page (mem s) (mem u) q" .
qed (simp add: remappedD(3)[OF assms(1)] remappedD(3)[OF assms(2)])

lemma walk_alloc:
  assumes "pt_ready s pt P xs" and "va < MAXVA"
  shows "\<exists>t k pte. walk pt va True s = Ok pte t \<and> k \<le> length xs \<and> k \<le> 2 \<and>
           pt_ready t pt (P \<union> set (take k xs)) (drop k xs) \<and>
           remapped s t pt (P \<union> set (take k xs)) {} (\<lambda>_. 0) \<and>
           (pte = 0 \<and> k = length xs \<and> k < 2 \<or>
            pte \<noteq> 0 \<and> mrd64 (mem t) pte = leaf (mem s) 2 pt va \<and>
            (\<forall>v. let t' = t\<lparr>mem := mwr64 (mem t) pte v\<rparr> in
               pt_ready t' pt (P \<union> set (take k xs)) (drop k xs) \<and>
               remapped s t' pt (P \<union> set (take k xs)) {vpn va} (\<lambda>_. v)))"
proof -
  have ok: "pt_ok (mem s) 2 pt P" "kavail s xs" "P \<inter> set xs = {}" "0 \<notin> P"
    using assms(1) by (simp_all add: pt_ready_def)
  from walk_levels_alloc[OF ok(1-3), of va] obtain t k r
    where t: "walk_levels 2 pt va True s = Ok r t" "k \<le> length xs" "k \<le> 2" "kavail t (drop k xs)"
      and g: "grown s t 2 pt P (take k xs)"
      and r: "case r of Some d \<Rightarrow> pt_walk (mem t) 2 pt va = Some d | None \<Rightarrow> k = length xs \<and> k < 2"
    by (elim exE conjE) (rule that; assumption)
  have d: "distinct xs" "0 \<notin> set xs" using kmem.avail_pages[OF ok(2)] by auto
  have rd: "pt_ready t pt (P \<union> set (take k xs)) (drop k xs)"
    using g t(4) ok(3,4) d set_take_disj_set_drop_if_distinct[OF d(1), of k k] set_drop_subset[of k xs]
      set_take_subset[of k xs] by (auto simp: pt_ready_def grown_def)
  have rm: "remapped s t pt (P \<union> set (take k xs)) {} (\<lambda>_. 0)"
    unfolding remapped_def using g by (intro conjI allI impI grownD[OF g]) (simp_all add: grown_def)
  show ?thesis
  proof (cases r)
    case None
    then have "walk pt va True s = Ok 0 t" using t(1) assms(2) by (simp add: walk_def not_le)
    then show ?thesis using rd rm r None t(2,3) by (intro exI[of _ t] exI[of _ k] exI[of _ 0]) simp
  next
    case (Some d')
    let ?pte = "d' + 8 * PX 0 va"
    have w: "walk pt va True s = Ok ?pte t" using t(1) assms(2) Some by (simp add: walk_def not_le)
    have pw: "pt_walk (mem t) 2 pt va = Some d'" using r Some by simp
    have "?pte \<noteq> 0 \<and> mrd64 (mem t) ?pte = leaf (mem s) 2 pt va \<and>
            (\<forall>v. let t' = t\<lparr>mem := mwr64 (mem t) ?pte v\<rparr> in
               pt_ready t' pt (P \<union> set (take k xs)) (drop k xs) \<and>
               remapped s t' pt (P \<union> set (take k xs)) {vpn va} (\<lambda>_. v))"
    proof (intro conjI allI)
      show "?pte \<noteq> 0" by (rule entry_store(1)[OF rd pw assms(2)])
      show "mrd64 (mem t) ?pte = leaf (mem s) 2 pt va"
        using leaf_walk[OF pw] remappedD(1)[OF rm assms(2)] by simp
      fix v
      show "let t' = t\<lparr>mem := mwr64 (mem t) ?pte v\<rparr> in pt_ready t' pt (P \<union> set (take k xs)) (drop k xs) \<and>
               remapped s t' pt (P \<union> set (take k xs)) {vpn va} (\<lambda>_. v)"
        using entry_store(2)[OF rd pw assms(2), of v]
          remapped_trans[OF rm entry_store(3)[OF rd pw assms(2), of v] order_refl, of "\<lambda>_. v"]
        by (simp add: Let_def)
    qed
    then show ?thesis using w rd rm t(2,3) by (intro exI[of _ t] exI[of _ k] exI[of _ ?pte]) simp
  qed
qed

text \<open>The entry of page number \<open>i\<close> of a range of pages that starts at number \<open>i0\<close> and at \<open>pa\<close>.\<close>

definition range_pte :: "u64 \<Rightarrow> u64 \<Rightarrow> nat \<Rightarrow> nat \<Rightarrow> u64" where
  "range_pte pa perm i0 i = PA2PTE (pa + of_nat (4096 * (i - i0))) OR perm OR PTE_V"

lemma range_pte_Suc: "Suc i0 \<le> i \<Longrightarrow> range_pte (pa + 4096) perm (Suc i0) i = range_pte pa perm i0 i"
proof -
  assume "Suc i0 \<le> i"
  then have "4096 * (i - i0) = 4096 + 4096 * (i - Suc i0)" by simp
  then have "pa + 4096 + of_nat (4096 * (i - Suc i0)) = pa + of_nat (4096 * (i - i0))"
    by (simp only: of_nat_add) (simp add: add.assoc)
  then show ?thesis by (simp only: range_pte_def)
qed

lemma page_at:
  assumes "unat a = 4096 * m" and "m < 0x4000000"
  shows "a < MAXVA" and "vpn a = m" and "unat (a + 4096) = 4096 * Suc m"
  using assms unat_add_of_nat[of a 4096] by (simp_all add: word_less_nat_alt vpn_def)

definition unmapped :: "memory \<Rightarrow> u64 \<Rightarrow> nat set \<Rightarrow> bool" where
  "unmapped m pt N \<longleftrightarrow> (\<forall>va < MAXVA. vpn va \<in> N \<longrightarrow> leaf m 2 pt va AND PTE_V = 0)"

lemma unmappedD: "unmapped m pt N \<Longrightarrow> va < MAXVA \<Longrightarrow> vpn va \<in> N \<Longrightarrow> leaf m 2 pt va AND PTE_V = 0"
  unfolding unmapped_def by blast

lemma mappages_step:
  assumes "pt_ready s pt P xs" and "a < MAXVA" and "leaf (mem s) 2 pt a AND PTE_V = 0"
  shows "\<exists>t k. k \<le> length xs \<and> k \<le> 2 \<and> pt_ready t pt (P \<union> set (take k xs)) (drop k xs) \<and>
           (k = length xs \<and> k < 2 \<and> mappages_loop pt a last_a pa perm s = Ok (- 1) t \<and>
            remapped s t pt (P \<union> set (take k xs)) {} (\<lambda>_. 0) \<or>
            mappages_loop pt a last_a pa perm s =
              (if a = last_a then Ok 0 t else mappages_loop pt (a + PGSIZE) last_a (pa + PGSIZE) perm t) \<and>
            remapped s t pt (P \<union> set (take k xs)) {vpn a} (\<lambda>_. PA2PTE pa OR perm OR PTE_V))"
proof -
  from walk_alloc[OF assms(1,2)] obtain t k pte where w: "walk pt a True s = Ok pte t" "k \<le> length xs" "k \<le> 2"
    "pt_ready t pt (P \<union> set (take k xs)) (drop k xs)"
    "remapped s t pt (P \<union> set (take k xs)) {} (\<lambda>_. 0)"
    and pte: "pte = 0 \<and> k = length xs \<and> k < 2 \<or>
            pte \<noteq> 0 \<and> mrd64 (mem t) pte = leaf (mem s) 2 pt a \<and>
            (\<forall>v. let t' = t\<lparr>mem := mwr64 (mem t) pte v\<rparr> in
               pt_ready t' pt (P \<union> set (take k xs)) (drop k xs) \<and>
               remapped s t' pt (P \<union> set (take k xs)) {vpn a} (\<lambda>_. v))"
    by (elim exE conjE) (rule that; assumption)
  show ?thesis
  proof (cases "pte = 0")
    case True
    then have "mappages_loop pt a last_a pa perm s = Ok (- 1) t"
      using w(1) by (subst mappages_loop.simps) simp
    with True pte w(2-5) show ?thesis by (intro exI[of _ t] exI[of _ k]) simp
  next
    case False
    let ?t = "t\<lparr>mem := mwr64 (mem t) pte (PA2PTE pa OR perm OR PTE_V)\<rparr>"
    have "mappages_loop pt a last_a pa perm s =
        (if a = last_a then Ok 0 ?t else mappages_loop pt (a + PGSIZE) last_a (pa + PGSIZE) perm ?t)"
      using w(1) False pte assms(3) by (subst mappages_loop.simps) (simp add: Let_def)
    moreover have "pt_ready ?t pt (P \<union> set (take k xs)) (drop k xs)"
      "remapped s ?t pt (P \<union> set (take k xs)) {vpn a} (\<lambda>_. PA2PTE pa OR perm OR PTE_V)"
      using pte False by (simp_all add: Let_def)
    ultimately show ?thesis using w(2,3) by (intro exI[of _ ?t] exI[of _ k]) simp
  qed
qed

lemma mappages_loop_spec:
  assumes "pt_ready s pt P xs" and "unat a = 4096 * m" and "m + n < 0x4000000"
    and "unmapped (mem s) pt {m..m + n}"
  shows "\<exists>t k r j. mappages_loop pt a (a + of_nat (4096 * n)) pa perm s = Ok r t \<and> k \<le> length xs \<and>
           pt_ready t pt (P \<union> set (take k xs)) (drop k xs) \<and>
           remapped s t pt (P \<union> set (take k xs)) {m..<m + j} (range_pte pa perm m) \<and>
           (r = 0 \<and> j = Suc n \<or> r = - 1 \<and> j \<le> n \<and> k = length xs)"
  using assms
proof (induction n arbitrary: s P xs a m pa)
  case (0 s P xs a m pa)
  have a: "a < MAXVA" "vpn a = m" using page_at[OF 0(2)] 0(3) by simp_all
  obtain t k where w: "k \<le> length xs" "pt_ready t pt (P \<union> set (take k xs)) (drop k xs)"
    "k = length xs \<and> mappages_loop pt a a pa perm s = Ok (- 1) t \<and>
       remapped s t pt (P \<union> set (take k xs)) {} (\<lambda>_. 0) \<or>
     mappages_loop pt a a pa perm s = Ok 0 t \<and>
       remapped s t pt (P \<union> set (take k xs)) {vpn a} (\<lambda>_. PA2PTE pa OR perm OR PTE_V)"
    using mappages_step[OF 0(1) a(1), of a pa perm] unmappedD[OF 0(4) a(1)] a(2) by auto
  from w(3) show ?case
  proof
    assume "k = length xs \<and> mappages_loop pt a a pa perm s = Ok (- 1) t \<and>
       remapped s t pt (P \<union> set (take k xs)) {} (\<lambda>_. 0)"
    then show ?case
      using w(1,2) by (intro exI[of _ t] exI[of _ k] exI[of _ "- 1"] exI[of _ 0]) (simp add: remapped_def)
  next
    assume "mappages_loop pt a a pa perm s = Ok 0 t \<and>
       remapped s t pt (P \<union> set (take k xs)) {vpn a} (\<lambda>_. PA2PTE pa OR perm OR PTE_V)"
    then show ?case
      using w(1,2) a(2)
      by (intro exI[of _ t] exI[of _ k] exI[of _ 0] exI[of _ 1]) (auto simp: remapped_def range_pte_def)
  qed
next
  case (Suc n s P xs a m pa)
  have a: "a < MAXVA" "vpn a = m" "unat (a + 4096) = 4096 * Suc m" using page_at[OF Suc.prems(2)] Suc.prems(3) by simp_all
  let ?last = "a + of_nat (4096 * Suc n)"
  have last: "?last = (a + 4096) + of_nat (4096 * n)" by simp
  have "unat (of_nat (4096 * Suc n) :: u64) = 4096 * Suc n"
    using Suc.prems(3) by (intro unat_of_nat_lt64) simp
  then have ne: "a \<noteq> ?last" by (metis add_cancel_right_right mult_eq_0_iff nat.distinct(1) unat_0 zero_neq_numeral)
  obtain t k where w: "k \<le> length xs" "pt_ready t pt (P \<union> set (take k xs)) (drop k xs)"
    "k = length xs \<and> mappages_loop pt a ?last pa perm s = Ok (- 1) t \<and>
       remapped s t pt (P \<union> set (take k xs)) {} (\<lambda>_. 0) \<or>
     mappages_loop pt a ?last pa perm s = mappages_loop pt (a + 4096) ?last (pa + 4096) perm t \<and>
       remapped s t pt (P \<union> set (take k xs)) {vpn a} (\<lambda>_. PA2PTE pa OR perm OR PTE_V)"
    using mappages_step[OF Suc.prems(1) a(1), of ?last pa perm] unmappedD[OF Suc.prems(4) a(1)] a(2) ne by auto
  from w(3) show ?case
  proof
    assume "k = length xs \<and> mappages_loop pt a ?last pa perm s = Ok (- 1) t \<and>
       remapped s t pt (P \<union> set (take k xs)) {} (\<lambda>_. 0)"
    then show ?case
      using w(1,2) by (intro exI[of _ t] exI[of _ k] exI[of _ "- 1"] exI[of _ 0]) (simp add: remapped_def)
  next
    assume "mappages_loop pt a ?last pa perm s = mappages_loop pt (a + 4096) ?last (pa + 4096) perm t \<and>
       remapped s t pt (P \<union> set (take k xs)) {vpn a} (\<lambda>_. PA2PTE pa OR perm OR PTE_V)"
    then have l: "mappages_loop pt a ?last pa perm s =
        mappages_loop pt (a + 4096) ((a + 4096) + of_nat (4096 * n)) (pa + 4096) perm t"
      and rm: "remapped s t pt (P \<union> set (take k xs)) {m} (\<lambda>_. PA2PTE pa OR perm OR PTE_V)"
      unfolding last a(2) by blast+
    have "leaf (mem t) 2 pt va AND PTE_V = 0" if "va < MAXVA" "vpn va \<in> {Suc m..Suc m + n}" for va
      using remappedD(1)[OF rm that(1)] unmappedD[OF Suc.prems(4) that(1)] that(2) by simp
    then have inv: "unmapped (mem t) pt {Suc m..Suc m + n}" unfolding unmapped_def by blast
    have "Suc m + n < 0x4000000" using Suc.prems(3) by simp
    from Suc.IH[OF w(2) a(3) this inv, of "pa + 4096"] obtain u k2 r j
      where u: "mappages_loop pt (a + 4096) (a + 4096 + of_nat (4096 * n)) (pa + 4096) perm t = Ok r u"
        "k2 \<le> length (drop k xs)" "pt_ready u pt (P \<union> set (take k xs) \<union> set (take k2 (drop k xs))) (drop k2 (drop k xs))"
        "remapped t u pt (P \<union> set (take k xs) \<union> set (take k2 (drop k xs))) {Suc m..<Suc m + j}
           (range_pte (pa + 4096) perm (Suc m))"
        "r = 0 \<and> j = Suc n \<or> r = - 1 \<and> j \<le> n \<and> k2 = length (drop k xs)"
      by (elim exE conjE) (rule that; assumption)
    have P: "P \<union> set (take k xs) \<union> set (take k2 (drop k xs)) = P \<union> set (take (k + k2) xs)"
      by (auto simp: take_add)
    have "remapped s u pt (P \<union> set (take (k + k2) xs)) ({m} \<union> {Suc m..<Suc m + j}) (range_pte pa perm m)"
      by (rule remapped_trans[OF rm u(4)[unfolded P]])
         (auto simp: take_add range_pte_Suc, simp add: range_pte_def)
    moreover have "{m} \<union> {Suc m..<Suc m + j} = {m..<m + Suc j}" by auto
    ultimately show ?case
      using w(1) u(1-3,5) l P
      by (intro exI[of _ u] exI[of _ "k + k2"] exI[of _ r] exI[of _ "Suc j"]) (auto simp: add.commute)
  qed
qed

lemma vpn_mono: "va \<le> va' \<Longrightarrow> vpn va \<le> vpn va'"
  by (simp add: vpn_def word_le_nat_alt div_le_mono)

lemma vpn_lt: "va < MAXVA \<Longrightarrow> vpn va < 0x4000000"
  by (simp add: vpn_def word_less_nat_alt less_mult_imp_div_less)

lemma round_vpn: "unat (PGROUNDDOWN va) = 4096 * vpn va"
  by (simp add: PGROUNDDOWN_unat vpn_def)

lemma round_last:
  assumes "va \<le> va'" and "va' < MAXVA"
  shows "PGROUNDDOWN va' = PGROUNDDOWN va + of_nat (4096 * (vpn va' - vpn va))"
proof -
  have "unat (PGROUNDDOWN va + of_nat (4096 * (vpn va' - vpn va))) = 4096 * vpn va + 4096 * (vpn va' - vpn va)"
    using vpn_lt[OF assms(2)] vpn_mono[OF assms(1)] round_vpn[of va]
    by (subst unat_add_of_nat) simp_all
  also have "\<dots> = unat (PGROUNDDOWN va')" using vpn_mono[OF assms(1)] round_vpn[of va'] by simp
  finally show ?thesis by (simp only: word_unat_eq_iff)
qed

text \<open>C11: mappages establishes exactly the requested mapping. On a well-formed table whose pages are
  not free, for a range that ends below MAXVA and has no valid entry yet, it returns; with
  result 0 every page of the range is mapped to consecutive physical pages with the requested
  permissions, and with result -1, which it returns only when memory has run out, a prefix of
  the range is. In both cases every other address keeps its entry, no page outside the tables
  and the newly taken table pages changes, and the table is again well formed.\<close>
theorem mappages_maps_range:
  assumes "pt_ready s pt P xs" and "sz \<noteq> 0" and "va \<le> va + sz - 1" and "va + sz - 1 < MAXVA"
    and "unmapped (mem s) pt {vpn va..vpn (va + sz - 1)}"
  shows "\<exists>t k r j. mappages pt va sz pa perm s = Ok r t \<and> k \<le> length xs \<and>
           pt_ready t pt (P \<union> set (take k xs)) (drop k xs) \<and>
           remapped s t pt (P \<union> set (take k xs)) {vpn va..<vpn va + j} (range_pte pa perm (vpn va)) \<and>
           (r = 0 \<and> vpn va + j = Suc (vpn (va + sz - 1)) \<or>
            r = - 1 \<and> vpn va + j \<le> vpn (va + sz - 1) \<and> k = length xs)"
proof -
  let ?m = "vpn va" and ?l = "vpn (va + sz - 1)"
  have ml: "?m + (?l - ?m) = ?l" using vpn_mono[OF assms(3)] by simp
  have lt: "?m + (?l - ?m) < 0x4000000" using vpn_lt[OF assms(4)] ml by simp
  note sp = mappages_loop_spec[OF assms(1) round_vpn lt, unfolded ml, OF assms(5), of pa perm]
  have "mappages pt va sz pa perm s =
      mappages_loop pt (PGROUNDDOWN va) (PGROUNDDOWN va + of_nat (4096 * (?l - ?m))) pa perm s"
    using assms(2) round_last[OF assms(3,4)] by (simp only: mappages_def if_False)
  with sp show ?thesis using ml by (elim exE conjE) (intro exI conjI, auto)
qed

text \<open>A machine with an empty table and two free pages, for the examples.\<close>

definition demo_pt :: kst where
  "demo_pt = freed 0x80024000 (freed 0x80023000 zero_kst)"

lemma freed_same_page:
  assumes "pa mod 4096 = 0" and "q mod 4096 = 0" and "q \<noteq> pa"
  shows "same_page (mem s) (mem (freed pa s)) q"
proof -
  have "same_page (mem s) (mblit (mem s) pa (replicate 4096 1)) q"
    using assms by (intro same_page_mblit) simp_all
  moreover have "same_page (mblit (mem s) pa (replicate 4096 1)) (mem (freed pa s)) q"
    unfolding freed_def mwr64_def using assms by (simp add: same_page_mblit)
  ultimately show ?thesis by (rule same_page_trans)
qed

lemma demo_pt_ready: "pt_ready demo_pt 0x80030000 {0x80030000} [0x80024000, 0x80023000]"
    and demo_pt_unmapped: "unmapped (mem demo_pt) 0x80030000 N"
proof -
  have z: "entry (mem zero_kst) x i = 0" for x i
    unfolding entry_def mrd64_def mslice_def by (simp add: zero_kst_def map_replicate_const le_dec_zeros)
  have "same_page (mem zero_kst) (mem demo_pt) 0x80030000"
    unfolding demo_pt_def by (rule same_page_trans[OF freed_same_page freed_same_page]) simp_all
  from same_page_entry[OF this] have e: "entry (mem demo_pt) 0x80030000 i = 0" if "i < 512" for i
    using that z by simp
  have "kmem_inv zero_kst []" using zero_kst_avail by (simp add: kavail_def)
  then have "kmem_inv (freed 0x80023000 zero_kst) [0x80023000]"
    by (rule kmem_inv_freed) (simp_all add: page_ok_def)
  then have "kmem_inv demo_pt [0x80024000, 0x80023000]"
    unfolding demo_pt_def by (rule kmem_inv_freed) (simp_all add: page_ok_def)
  then have "kavail demo_pt [0x80024000, 0x80023000]" by (simp add: kavail_def demo_pt_def)
  moreover have "pt_ok (mem demo_pt) 2 0x80030000 {0x80030000}" by (rule zero_table(1)) (use e in auto)
  ultimately show "pt_ready demo_pt 0x80030000 {0x80030000} [0x80024000, 0x80023000]"
    by (simp add: pt_ready_def)
  have "leaf (mem demo_pt) 2 0x80030000 va = 0" for va by (rule zero_table(2)) (use e in auto)
  then show "unmapped (mem demo_pt) 0x80030000 N" by (simp add: unmapped_def)
qed

theorem mappages_maps_range_witness:
  "pt_ready demo_pt 0x80030000 {0x80030000} [0x80024000, 0x80023000] \<and>
   (\<exists>t k r j. mappages 0x80030000 0x5000 0x2000 0x80100000 0x16 demo_pt = Ok r t \<and>
      remapped demo_pt t 0x80030000 ({0x80030000} \<union> set (take k [0x80024000, 0x80023000])) {5..<5 + j}
        (range_pte 0x80100000 0x16 5))"
  using demo_pt_ready demo_pt_unmapped
    mappages_maps_range[of demo_pt "0x80030000" "{0x80030000}" "[0x80024000, 0x80023000]" "0x2000" "0x5000" "0x80100000" "0x16"]
  by (auto simp: vpn_def)

end
