(* ===== verification/Page_Unmap.thy ===== *)
theory Page_Unmap
  imports Page_Map
begin

text \<open>
  Removing mappings: \<open>uvmunmap\<close> clears exactly the entries of its range and gives the frames
  back to the allocator, and growing an address space with \<open>uvmalloc\<close> and shrinking it again
  loses no page.
\<close>

text \<open>The virtual address and the frame of page number \<open>i\<close>.\<close>

definition page_va :: "nat \<Rightarrow> u64" where "page_va i = of_nat (4096 * i)"

definition frame :: "memory \<Rightarrow> u64 \<Rightarrow> nat \<Rightarrow> u64" where
  "frame m pt i = PTE2PA (leaf m 2 pt (page_va i))"

text \<open>A page that \<open>uvmunmap\<close> accepts: a valid entry with more than the valid bit.\<close>

definition leaf_mapped :: "memory \<Rightarrow> u64 \<Rightarrow> nat \<Rightarrow> bool" where
  "leaf_mapped m pt i \<longleftrightarrow>
     leaf m 2 pt (page_va i) AND PTE_V \<noteq> 0 \<and> PTE_FLAGS (leaf m 2 pt (page_va i)) \<noteq> PTE_V"

lemma page_va_unat: "i < 0x4000000 \<Longrightarrow> unat (page_va i) = 4096 * i"
  unfolding page_va_def by (rule unat_of_nat_lt64) simp

lemma page_va_at: "i < 0x4000000 \<Longrightarrow> page_va i < MAXVA \<and> vpn (page_va i) = i"
  using page_at[OF page_va_unat, of i] by simp

lemma walk_leaf:
  assumes "pt_ready s pt P xs" and "va < MAXVA" and "leaf (mem s) 2 pt va \<noteq> 0"
  obtains d where "pt_walk (mem s) 2 pt va = Some d" and "walk pt va False s = Ok (d + 8 * PX 0 va) s"
    and "mrd64 (mem s) (d + 8 * PX 0 va) = leaf (mem s) 2 pt va" and "d + 8 * PX 0 va \<noteq> 0"
proof -
  have "pt_walk m l q va = None \<Longrightarrow> leaf m l q va = 0" for m l q
    by (induction l arbitrary: q) (auto simp: entry_PX Let_def split: if_splits)
  with assms(3) obtain d where d: "pt_walk (mem s) 2 pt va = Some d"
    by (cases "pt_walk (mem s) 2 pt va") auto
  show ?thesis
    using that[OF d] walk_noalloc[OF assms(2), of pt s] leaf_walk[OF d] entry_store(1)[OF assms(1) d assms(2)] d
    by (simp add: pte_addr_def)
qed

lemma kfree_ready:
  assumes "pt_ready s pt P xs" and "kpage s f" and "f \<notin> P" and "f \<notin> set xs"
  shows "\<exists>t. kfree f s = Ok () t \<and> pt_ready t pt P (f # xs) \<and> remapped s t pt (insert f P) {} (\<lambda>_. 0) \<and>
             kpage t = kpage s \<and> (\<forall>p \<in> P. same_page (mem s) (mem t) p)"
proof -
  have ok: "pt_ok (mem s) 2 pt P" "kavail s xs" "P \<inter> set xs = {}" "0 \<notin> P"
    using assms(1) by (simp_all add: pt_ready_def)
  let ?t = "settle (freed f s)"
  have k: "kfree f s = Ok () ?t" "kavail ?t (f # xs)" "kpage ?t = kpage s"
    using kfree_Ok[of s f] kmem_inv_freed[of s xs f] assms(2,4) ok(2)
    by (simp_all add: kavail_def kpage_def lock_simps)
  have f: "f mod 4096 = 0" using assms(2) unfolding kpage_def page_ok_def by blast
  have same: "same_page (mem s) (mem ?t) q" if "q mod 4096 = 0" "q \<noteq> f" for q
    using freed_same_page[OF f that] by (simp add: lock_simps)
  have sP: "same_page (mem s) (mem ?t) p" if "p \<in> P" for p
    using same[OF pt_ok_aligned[OF ok(1) that]] that assms(3) by auto
  note c = pt_ok_cong[OF ok(1) sP]
  have "remapped s ?t pt (insert f P) {} (\<lambda>_. 0)"
    unfolding remapped_def using c same by (intro conjI allI impI) (auto simp: lock_simps)
  moreover have "pt_ready ?t pt P (f # xs)" using c k(2) ok assms(3) by (simp add: pt_ready_def)
  ultimately show ?thesis using k sP by blast
qed

lemma pt_walk_cong:
  assumes "pt_ok m l pt P" and "\<And>p. p \<in> P \<Longrightarrow> same_page m m' p"
  shows "pt_walk m' l pt va = pt_walk m l pt va"
  using assms
proof (induction l arbitrary: pt P)
  case 0
  then show ?case by simp
next
  case (Suc l)
  let ?e = "entry m pt (unat (PX (Suc l) va))"
  have e: "entry m' pt (unat (PX (Suc l) va)) = ?e"
    using same_page_entry[OF Suc.prems(2) PX_bound] pt_ok_root[OF Suc.prems(1)] by simp
  obtain C R where P: "P = insert pt (C \<union> R)"
    and C: "if ?e AND PTE_V \<noteq> 0 then pt_ok m l (PTE2PA ?e) C else C = {}"
    by (rule pt_split[OF Suc.prems(1) PX_bound[of "Suc l" va]])
  show ?case
  proof (cases "?e AND PTE_V = 0")
    case False
    then have "pt_ok m l (PTE2PA ?e) C" using C by simp
    from Suc.IH[OF this] Suc.prems(2) P False e show ?thesis by (simp add: entry_PX Let_def)
  qed (use e in \<open>simp add: entry_PX Let_def\<close>)
qed

lemma page_va_Suc: "page_va (Suc m) = page_va m + 4096"
  by (simp add: page_va_def)

lemma page_va_less: "m < n \<Longrightarrow> n \<le> 0x4000000 \<Longrightarrow> page_va m < page_va n"
  unfolding page_va_def word_less_nat_alt by (simp add: unat_of_nat_lt64 del: of_nat_mult)

lemma remapped_mono:
  assumes "remapped s t pt P N f" and "P \<subseteq> P'"
  shows "remapped s t pt P' N f"
  unfolding remapped_def
proof (intro conjI allI impI)
  fix q :: u64 assume "q mod 4096 = 0" "q \<notin> P'"
  with assms(2) show "same_page (mem s) (mem t) q" by (intro remappedD(2)[OF assms(1)]) blast+
qed (erule remappedD(1)[OF assms(1)], rule remappedD(3)[OF assms(1)])

text \<open>One round of the loop.\<close>

lemma uvmunmap_step:
  assumes "pt_ready s pt P xs" and "m < n" and "n \<le> 0x4000000" and "leaf_mapped (mem s) pt m"
    and "f = frame (mem s) pt m" and "do_free \<Longrightarrow> kpage s f \<and> f \<notin> P \<and> f \<notin> set xs"
  shows "\<exists>t. uvmunmap_loop pt (page_va m) (page_va n) do_free s =
               uvmunmap_loop pt (page_va (Suc m)) (page_va n) do_free t \<and>
             pt_ready t pt P ((if do_free then [f] else []) @ xs) \<and> kpage t = kpage s \<and>
             remapped s t pt (P \<union> (if do_free then {f} else {})) {m} (\<lambda>_. 0)"
proof -
  let ?va = "page_va m"
  have va: "?va < MAXVA" "vpn ?va = m" using page_va_at[of m] assms(2,3) by auto
  have lv: "leaf (mem s) 2 pt ?va AND PTE_V \<noteq> 0" "PTE_FLAGS (leaf (mem s) 2 pt ?va) \<noteq> PTE_V"
    using assms(4) by (simp_all add: leaf_mapped_def)
  then have "leaf (mem s) 2 pt ?va \<noteq> 0" by auto
  then obtain d where d: "pt_walk (mem s) 2 pt ?va = Some d" "walk pt ?va False s = Ok (d + 8 * PX 0 ?va) s"
      "mrd64 (mem s) (d + 8 * PX 0 ?va) = leaf (mem s) 2 pt ?va" "d + 8 * PX 0 ?va \<noteq> 0"
    by (rule walk_leaf[OF assms(1) va(1)])
  let ?pte = "d + 8 * PX 0 ?va"
  obtain u where u: "(if do_free then kfree f s else Ok () s) = Ok () u"
    and ur: "pt_ready u pt P ((if do_free then [f] else []) @ xs)" "kpage u = kpage s"
      "remapped s u pt (P \<union> (if do_free then {f} else {})) {} (\<lambda>_. 0)"
    and uP: "\<And>p. p \<in> P \<Longrightarrow> same_page (mem s) (mem u) p"
  proof (cases do_free)
    case True
    with kfree_ready[OF assms(1), of f] assms(6) obtain t where "kfree f s = Ok () t" "pt_ready t pt P (f # xs)"
      "remapped s t pt (insert f P) {} (\<lambda>_. 0)" "kpage t = kpage s" "\<forall>p\<in>P. same_page (mem s) (mem t) p"
      by blast
    with True show ?thesis by (intro that[of t]) auto
  next
    case False
    have "remapped s s pt P {} (\<lambda>_. 0)" by (simp add: remapped_def)
    with False assms(1) show ?thesis by (intro that[of s]) auto
  qed
  have "pt_ok (mem s) 2 pt P" using assms(1) by (simp add: pt_ready_def)
  from pt_walk_cong[OF this uP] d(1) have du: "pt_walk (mem u) 2 pt ?va = Some d" by simp
  let ?t = "u\<lparr>mem := mwr64 (mem u) ?pte 0\<rparr>"
  have "uvmunmap_loop pt ?va (page_va n) do_free s = uvmunmap_loop pt (page_va (Suc m)) (page_va n) do_free ?t"
    using page_va_less[OF assms(2,3)] d(2-4) lv u assms(5)
    by (subst uvmunmap_loop.simps) (auto simp: frame_def page_va_Suc Let_def)
  moreover note entry_store(2)[OF ur(1) du va(1), of 0]
  moreover have "kpage ?t = kpage s" using ur(2) by (simp add: kpage_def)
  moreover have "remapped s ?t pt (P \<union> (if do_free then {f} else {})) ({} \<union> {m}) (\<lambda>_. 0)"
    using ur(3) remapped_mono[OF entry_store(3)[OF ur(1) du va(1), of 0], of "P \<union> (if do_free then {f} else {})"] va(2)
    by (intro remapped_trans[where P = "P \<union> (if do_free then {f} else {})"]) simp_all
  ultimately show ?thesis by (intro exI[of _ ?t]) simp
qed

lemma uvmunmap_loop_spec:
  assumes "pt_ready s pt P xs" and "m + n \<le> 0x4000000" and "\<forall>i \<in> {m..<m + n}. leaf_mapped (mem s) pt i"
    and "fs = map (frame (mem s) pt) [m..<m + n]"
    and "do_free \<Longrightarrow> distinct fs \<and> set fs \<inter> (P \<union> set xs) = {} \<and> (\<forall>f \<in> set fs. kpage s f)"
  shows "\<exists>t. uvmunmap_loop pt (page_va m) (page_va (m + n)) do_free s = Ok () t \<and>
             pt_ready t pt P ((if do_free then rev fs else []) @ xs) \<and> kpage t = kpage s \<and>
             remapped s t pt (P \<union> (if do_free then set fs else {})) {m..<m + n} (\<lambda>_. 0)"
  using assms
proof (induction n arbitrary: s xs m fs)
  case 0
  have "uvmunmap_loop pt (page_va m) (page_va m) do_free s = Ok () s" by (subst uvmunmap_loop.simps) simp
  with 0 show ?case by (intro exI[of _ s]) (simp add: remapped_def)
next
  case (Suc n)
  let ?f = "frame (mem s) pt m"
  let ?D = "if do_free then {?f} else {}"
  have fs: "fs = ?f # map (frame (mem s) pt) [Suc m..<Suc m + n]"
    using Suc.prems(4) by (simp add: upt_conv_Cons del: upt_Suc)
  have f: "do_free \<Longrightarrow> kpage s ?f \<and> ?f \<notin> P \<and> ?f \<notin> set xs" using Suc.prems(5) fs by auto
  obtain t where t: "uvmunmap_loop pt (page_va m) (page_va (m + Suc n)) do_free s =
               uvmunmap_loop pt (page_va (Suc m)) (page_va (m + Suc n)) do_free t"
      "pt_ready t pt P ((if do_free then [?f] else []) @ xs)" "kpage t = kpage s"
      "remapped s t pt (P \<union> ?D) {m} (\<lambda>_. 0)"
    using uvmunmap_step[OF Suc.prems(1) _ _ _ refl f, of "m + Suc n"] Suc.prems(2,3) by auto
  have lf: "leaf (mem t) 2 pt (page_va i) = leaf (mem s) 2 pt (page_va i)" if "i \<in> {Suc m..<Suc m + n}" for i
    using remappedD(1)[OF t(4), of "page_va i"] page_va_at[of i] that Suc.prems(2) by simp
  then have lm: "\<forall>i \<in> {Suc m..<Suc m + n}. leaf_mapped (mem t) pt i"
    using Suc.prems(3) by (auto simp: leaf_mapped_def)
  have fr: "map (frame (mem s) pt) [Suc m..<Suc m + n] = map (frame (mem t) pt) [Suc m..<Suc m + n]"
    using lf by (intro map_cong refl) (simp add: frame_def del: upt_Suc)
  let ?gs = "map (frame (mem t) pt) [Suc m..<Suc m + n]"
  have gs: "do_free \<Longrightarrow> distinct ?gs \<and> set ?gs \<inter> (P \<union> set ((if do_free then [?f] else []) @ xs)) = {} \<and>
      (\<forall>f \<in> set ?gs. kpage t f)"
    using Suc.prems(5) unfolding fs fr t(3) by auto
  have "Suc m + n \<le> 0x4000000" using Suc.prems(2) by simp
  from Suc.IH[OF t(2) this lm refl gs] obtain u
    where u: "uvmunmap_loop pt (page_va (Suc m)) (page_va (Suc m + n)) do_free t = Ok () u"
      "pt_ready u pt P ((if do_free then rev ?gs else []) @ (if do_free then [?f] else []) @ xs)"
      "kpage u = kpage t" "remapped t u pt (P \<union> (if do_free then set ?gs else {})) {Suc m..<Suc m + n} (\<lambda>_. 0)"
    by blast
  let ?P = "P \<union> (if do_free then set fs else {})"
  have fs': "fs = ?f # ?gs" using fs fr by (simp only:)
  then have sf: "set fs = insert ?f (set ?gs)" by (simp only: list.set)
  have sub: "P \<union> ?D \<subseteq> ?P" "P \<union> (if do_free then set ?gs else {}) \<subseteq> ?P" unfolding sf by auto
  have "remapped s u pt ?P ({m} \<union> {Suc m..<Suc m + n}) (\<lambda>_. 0)"
    by (rule remapped_trans[OF remapped_mono[OF t(4) sub(1)] remapped_mono[OF u(4) sub(2)] order_refl]) auto
  moreover have "{m} \<union> {Suc m..<Suc m + n} = {m..<m + Suc n}" by auto
  ultimately show ?case
    using t(1,3) u unfolding fs' by (intro exI[of _ u]) (auto simp: add.commute simp del: upt_Suc)
qed

lemma page_va_range: "page_va m + of_nat n * PGSIZE = page_va (m + n)"
  by (simp add: page_va_def algebra_simps)

lemma page_va_mod: "page_va m mod PGSIZE = 0"
  by (simp add: page_va_def aligned_unat unat_word_ariths unat_of_nat dvd_mod)

lemma uvmunmap_range:
  assumes "pt_ready s pt P xs" and "m + n \<le> 0x4000000" and "\<forall>i \<in> {m..<m + n}. leaf_mapped (mem s) pt i"
    and "fs = map (frame (mem s) pt) [m..<m + n]"
    and "distinct fs" and "set fs \<inter> (P \<union> set xs) = {}" and "\<forall>f \<in> set fs. kpage s f"
  shows "\<exists>t. uvmunmap pt (page_va m) (of_nat n) True s = Ok () t \<and> pt_ready t pt P (rev fs @ xs) \<and>
             kpage t = kpage s \<and> remapped s t pt (P \<union> set fs) {m..<m + n} (\<lambda>_. 0)"
  using uvmunmap_loop_spec[OF assms(1-4), of True] assms(5-7) page_va_mod[of m] page_va_range[of m n]
  by (simp add: uvmunmap_def)

text \<open>C12: uvmunmap removes exactly the pages it is asked to remove and returns each of their
  frames to the allocator. On a well-formed table, for a page-aligned range of mapped leaf
  pages whose frames are distinct allocatable pages in use, it returns, the entries of the
  range are cleared, every other address keeps its entry, and the free list has grown by the
  frames.\<close>
theorem uvmunmap_frees_range:
  assumes "pt_ready s pt P xs" and "m + n \<le> 0x4000000" and "\<forall>i \<in> {m..<m + n}. leaf_mapped (mem s) pt i"
    and "fs = map (frame (mem s) pt) [m..<m + n]"
    and "distinct fs" and "set fs \<inter> (P \<union> set xs) = {}" and "\<forall>f \<in> set fs. kpage s f"
  shows "\<exists>t. uvmunmap pt (page_va m) (of_nat n) True s = Ok () t \<and> pt_ready t pt P (rev fs @ xs) \<and>
             remapped s t pt (P \<union> set fs) {m..<m + n} (\<lambda>_. 0)"
  using uvmunmap_range[OF assms] by blast

lemma round_page:
  assumes "i < 0x4000000"
  shows "PGROUNDDOWN (page_va i) = page_va i" and "PGROUNDDOWN (page_va i + PGSIZE - 1) = page_va i"
proof -
  have u: "unat (page_va i) = 4096 * i" using page_va_unat[OF assms] .
  then have "unat (page_va i + of_nat 4095) = 4096 * i + 4095"
    using assms by (subst unat_add_of_nat) simp_all
  then have "unat (page_va i + 4096 - 1) = 4096 * i + 4095" by (simp add: add.commute)
  then show "PGROUNDDOWN (page_va i + PGSIZE - 1) = page_va i"
    using u by (simp add: word_unat_eq_iff PGROUNDDOWN_unat)
  show "PGROUNDDOWN (page_va i) = page_va i"
    using u by (simp add: word_unat_eq_iff PGROUNDDOWN_unat)
qed

lemma mappages_one:
  assumes "pt_ready s pt P xs" and "i < 0x4000000" and "unmapped (mem s) pt {i}"
  shows "\<exists>t k r. mappages pt (page_va i) PGSIZE pa perm s = Ok r t \<and> k \<le> length xs \<and> k \<le> 2 \<and>
           pt_ready t pt (P \<union> set (take k xs)) (drop k xs) \<and>
           (r = 0 \<and> remapped s t pt (P \<union> set (take k xs)) {i} (\<lambda>_. PA2PTE pa OR perm OR PTE_V) \<or>
            r = - 1 \<and> k = length xs \<and> k < 2 \<and> remapped s t pt (P \<union> set (take k xs)) {} (\<lambda>_. 0))"
proof -
  have m: "mappages pt (page_va i) PGSIZE pa perm s = mappages_loop pt (page_va i) (page_va i) pa perm s"
    using round_page[OF assms(2)] by (simp add: mappages_def)
  have va: "page_va i < MAXVA" "vpn (page_va i) = i" using page_va_at[OF assms(2)] by simp_all
  then have "leaf (mem s) 2 pt (page_va i) AND PTE_V = 0" by (intro unmappedD[OF assms(3)]) simp_all
  from mappages_step[OF assms(1) va(1) this, of "page_va i" pa perm] show ?thesis
    unfolding m va(2) by (elim exE conjE disjE) auto
qed

text \<open>A machine with one user page mapped, for the example: page 5 in the table of \<open>demo_pt\<close>.\<close>

lemma demo_mapped:
  obtains t P' xs' where "pt_ready t 0x80030000 P' xs'" and "leaf_mapped (mem t) 0x80030000 5"
    and "frame (mem t) 0x80030000 5 = 0x80100000" and "0x80100000 \<notin> P' \<union> set xs'" and "kpage t 0x80100000"
    and "leaf (mem t) 2 0x80030000 0x5000 = PA2PTE 0x80100000 OR 0x17"
    and "leaf (mem t) 2 0x80030000 0x6000 AND PTE_V = 0"
proof -
  let ?pt = "0x80030000 :: u64" and ?xs = "[0x80024000, 0x80023000] :: u64 list"
  from mappages_one[OF demo_pt_ready, of 5 "0x80100000" "0x16"] demo_pt_unmapped obtain t k
    where t: "pt_ready t ?pt ({?pt} \<union> set (take k ?xs)) (drop k ?xs)"
      "remapped demo_pt t ?pt ({?pt} \<union> set (take k ?xs)) {5} (\<lambda>_. PA2PTE 0x80100000 OR 0x16 OR PTE_V)"
    by auto
  have "leaf (mem t) 2 ?pt (page_va 5) = PA2PTE 0x80100000 OR 0x17"
    using remappedD(1)[OF t(2), of "page_va 5"] page_va_at[of 5] by (simp add: or.assoc)
  moreover have "leaf (mem t) 2 ?pt 0x6000 AND PTE_V = 0"
    using remappedD(1)[OF t(2), of "0x6000"] unmappedD[OF demo_pt_unmapped, of "0x6000" "{6}"] by (simp add: vpn_def)
  moreover have "kpage t 0x80100000"
    using remappedD(3)[OF t(2)] by (simp add: kpage_def page_ok_def demo_pt_def)
  moreover have "set (take k ?xs) \<subseteq> set ?xs" "set (drop k ?xs) \<subseteq> set ?xs"
    by (rule set_take_subset, rule set_drop_subset)
  then have "0x80100000 \<notin> {?pt} \<union> set (take k ?xs) \<union> set (drop k ?xs)" by auto
  ultimately show ?thesis
    using PTE2PA_PA2PTE[of "0x80100000" "0x17"] PTE_FLAGS_PA2PTE[of "0x17" "0x80100000"]
      valid_entry[of "0x80100000" "0x16"] t(1)
    by (intro that[of t "{?pt} \<union> set (take k ?xs)" "drop k ?xs"])
       (simp_all add: leaf_mapped_def frame_def page_va_def or.assoc)
qed

theorem uvmunmap_frees_range_witness:
  "\<exists>s t P xs. pt_ready s 0x80030000 P xs \<and> leaf_mapped (mem s) 0x80030000 5 \<and>
     uvmunmap 0x80030000 0x5000 1 True s = Ok () t \<and> pt_ready t 0x80030000 P (0x80100000 # xs)"
proof -
  obtain s P xs where s: "pt_ready s 0x80030000 P xs" "leaf_mapped (mem s) 0x80030000 5"
    "frame (mem s) 0x80030000 5 = 0x80100000" "0x80100000 \<notin> P \<union> set xs" "kpage s 0x80100000"
    by (rule demo_mapped)
  have "{5..<5 + 1} = {5 :: nat}" by auto
  with uvmunmap_frees_range[OF s(1), of 5 1 "[0x80100000]"] s(2-5)
  have "\<exists>t. uvmunmap 0x80030000 (page_va 5) (of_nat 1) True s = Ok () t \<and>
            pt_ready t 0x80030000 P (rev [0x80100000] @ xs)" by auto
  then show ?thesis using s(1,2) by (auto simp: page_va_def)
qed

section \<open>Growing an address space\<close>

abbreviation (input) user_perm :: u64 where "user_perm \<equiv> PTE_W OR PTE_X OR PTE_R OR PTE_U"

text \<open>
  The state of the loop of \<open>uvmalloc\<close>: since \<open>s\<close>, the frames \<open>fs\<close> have been mapped at page \<open>m\<close> and
  up, filled with zeros; table pages and free pages are now \<open>P'\<close> and \<open>xs'\<close>.
\<close>

definition grow_inv :: "kst \<Rightarrow> u64 \<Rightarrow> u64 set \<Rightarrow> u64 list \<Rightarrow> nat \<Rightarrow> kst \<Rightarrow> u64 set \<Rightarrow> u64 list \<Rightarrow> u64 list \<Rightarrow> bool" where
  "grow_inv s pt P xs m t P' xs' fs \<longleftrightarrow>
     pt_ready t pt P' xs' \<and> kpage t = kpage s \<and> distinct fs \<and> set fs \<inter> (P' \<union> set xs') = {} \<and>
     (\<forall>f \<in> set fs. kpage s f \<and> mslice (mem t) f 4096 = replicate 4096 0) \<and>
     P' \<union> set xs' \<union> set fs = P \<union> set xs \<and> P \<subseteq> P' \<and>
     remapped s t pt (P \<union> set xs) {m..<m + length fs}
       (\<lambda>i. PA2PTE (fs ! (i - m)) OR (user_perm OR PTE_V))"

lemma grow_inv_frames:
  assumes "grow_inv s pt P xs m t P' xs' fs" and "m + length fs \<le> 0x4000000"
  shows "map (frame (mem t) pt) [m..<m + length fs] = fs" and "\<forall>i \<in> {m..<m + length fs}. leaf_mapped (mem t) pt i"
proof -
  have rm: "remapped s t pt (P \<union> set xs) {m..<m + length fs} (\<lambda>i. PA2PTE (fs ! (i - m)) OR (user_perm OR PTE_V))"
    using assms(1) by (simp add: grow_inv_def)
  have lf: "leaf (mem t) 2 pt (page_va i) = PA2PTE (fs ! (i - m)) OR (user_perm OR PTE_V)"
    if "i \<in> {m..<m + length fs}" for i
    using remappedD(1)[OF rm, of "page_va i"] page_va_at[of i] that assms(2) by auto
  have al: "f mod 4096 = 0" if "f \<in> set fs" for f
    using assms(1) that unfolding grow_inv_def kpage_def page_ok_def by blast
  show "map (frame (mem t) pt) [m..<m + length fs] = fs"
  proof (rule nth_equalityI)
    fix i assume "i < length (map (frame (mem t) pt) [m..<m + length fs])"
    then have i: "i < length fs" by simp
    have "frame (mem t) pt (m + i) = fs ! i"
      using lf[of "m + i"] i PTE2PA_PA2PTE[OF al[OF nth_mem[OF i]], of "0x1f"] by (simp add: frame_def)
    then show "map (frame (mem t) pt) [m..<m + length fs] ! i = fs ! i" using i by simp
  qed simp
  show "\<forall>i \<in> {m..<m + length fs}. leaf_mapped (mem t) pt i"
  proof
    fix i assume "i \<in> {m..<m + length fs}"
    from lf[OF this] show "leaf_mapped (mem t) pt i"
      using valid_entry[of "fs ! (i - m)" user_perm] PTE_FLAGS_PA2PTE[of "0x1f" "fs ! (i - m)"]
      by (simp add: leaf_mapped_def)
  qed
qed

lemma PGROUNDUP_page: "i < 0x4000000 \<Longrightarrow> PGROUNDUP (page_va i) = page_va i"
  using page_va_unat[of i] PGROUNDUP_unat[of "page_va i"]
  by (simp add: word_unat_eq_iff)

lemma uvmdealloc_page:
  assumes "m + n < 0x4000000"
  shows "uvmdealloc pt (page_va (m + n)) (page_va m) s =
           (if n = 0 then Ok (page_va m) s
            else bnd (uvmunmap pt (page_va m) (of_nat n) True s) (\<lambda>_ s. Ok (page_va m) s))"
proof (cases "n = 0")
  case True
  then show ?thesis by (simp add: uvmdealloc_def)
next
  case False
  have lt: "page_va m < page_va (m + n)" using False assms by (intro page_va_less) simp_all
  have "page_va (m + n) - page_va m = of_nat (4096 * n)" by (simp add: page_va_def algebra_simps)
  then have "unat ((page_va (m + n) - page_va m) div 4096) = n"
    using assms by (simp add: unat_div unat_of_nat_lt64 del: of_nat_mult)
  then have w: "(page_va (m + n) - page_va m) div 4096 = of_nat n"
    using assms by (simp add: u64_eq_of_nat)
  have "take_bit 64 n = n" "signed_take_bit 31 (int n) = int n"
    using assms by (simp_all add: take_bit_nat_eq_self signed_take_bit_int_eq_self)
  then have c: "scast (ucast (of_nat n :: u64) :: u32) = (of_nat n :: u64)"
    by (simp add: unsigned_of_nat signed_of_nat)
  have "\<not> page_va (m + n) \<le> page_va m" using lt by (simp only: not_le)
  then show ?thesis
    using False lt c w PGROUNDUP_page[of m] PGROUNDUP_page[of "m + n"] assms
    by (simp add: uvmdealloc_def Let_def)
qed

text \<open>Undoing what has been grown so far.\<close>

lemma grow_undo:
  assumes "grow_inv s pt P xs m t P' xs' fs" and "m + length fs < 0x4000000"
  shows "\<exists>u. uvmdealloc pt (page_va (m + length fs)) (page_va m) t = Ok (page_va m) u \<and>
             pt_ready u pt P' (rev fs @ xs') \<and> remapped s u pt (P \<union> set xs) {m..<m + length fs} (\<lambda>_. 0)"
proof -
  have g: "pt_ready t pt P' xs'" "kpage t = kpage s" "distinct fs" "set fs \<inter> (P' \<union> set xs') = {}"
    "\<forall>f \<in> set fs. kpage t f" "P' \<union> set fs \<subseteq> P \<union> set xs"
    and rm: "remapped s t pt (P \<union> set xs) {m..<m + length fs} (\<lambda>i. PA2PTE (fs ! (i - m)) OR (user_perm OR PTE_V))"
    using assms(1) by (auto simp: grow_inv_def)
  have le: "m + length fs \<le> 0x4000000" using assms(2) by simp
  note fr = grow_inv_frames[OF assms(1) le]
  from uvmunmap_range[OF g(1) le fr(2) fr(1)[symmetric] g(3-5)] obtain u
    where u: "uvmunmap pt (page_va m) (of_nat (length fs)) True t = Ok () u" "pt_ready u pt P' (rev fs @ xs')"
      "remapped t u pt (P' \<union> set fs) {m..<m + length fs} (\<lambda>_. 0)" by blast
  have "remapped s u pt (P \<union> set xs) {m..<m + length fs} (\<lambda>_. 0)"
    unfolding remapped_def
  proof (intro conjI allI impI)
    fix va assume "va < MAXVA"
    then show "leaf (mem u) 2 pt va = (if vpn va \<in> {m..<m + length fs} then 0 else leaf (mem s) 2 pt va)"
      using remappedD(1)[OF rm] remappedD(1)[OF u(3)] by simp
  next
    fix q :: u64 assume q: "q mod 4096 = 0" "q \<notin> P \<union> set xs"
    then have "q \<notin> P' \<union> set fs" using g(6) by blast
    from same_page_trans[OF remappedD(2)[OF rm q] remappedD(2)[OF u(3) q(1) this]]
    show "same_page (mem s) (mem u) q" .
  qed (simp add: remappedD(3)[OF rm] remappedD(3)[OF u(3)])
  moreover have "uvmdealloc pt (page_va (m + length fs)) (page_va m) t = Ok (page_va m) u" if "fs \<noteq> []"
    using uvmdealloc_page[OF assms(2), of pt t] u(1) that by simp
  moreover have "uvmdealloc pt (page_va (m + length fs)) (page_va m) t = Ok (page_va m) t" if "fs = []"
    using uvmdealloc_page[OF assms(2), of pt t] that by simp
  moreover have "remapped s t pt (P \<union> set xs) {m..<m + length fs} (\<lambda>_. 0)" if "fs = []"
    using rm that by (simp add: remapped_def)
  ultimately show ?thesis using u(2) g(1) by (cases "fs = []") auto
qed

text \<open>One more page: a fresh frame, filled with zeros.\<close>

lemma fresh_page_ready:
  assumes "pt_ready t pt P (x # ys)"
  defines "u \<equiv> fill_page x 0 (settle (popped t))"
  shows "kalloc t = Ok x (settle (popped t))" and "x \<noteq> 0" and "pt_ready u pt P ys" and "kpage t x" and "kpage u = kpage t"
    and "mslice (mem u) x 4096 = replicate 4096 0" and "remapped t u pt (insert x P) {} (\<lambda>_. 0)"
    and "\<And>q. q mod 4096 = 0 \<Longrightarrow> q \<noteq> x \<Longrightarrow> same_page (mem t) (mem u) q"
proof -
  have ok: "pt_ok (mem t) 2 pt P" "kavail t (x # ys)" "P \<inter> set (x # ys) = {}" "0 \<notin> P"
    using assms(1) by (simp_all add: pt_ready_def)
  show k: "kalloc t = Ok x (settle (popped t))" and x0: "x \<noteq> 0"
    using kalloc_Ok[of t] ok(2) by (auto simp: kavail_def kmem_inv_def)
  show kx: "kpage t x" using kmem.avail_pages[OF ok(2)] by simp
  then have x: "x mod 4096 = 0" unfolding kpage_def page_ok_def by blast
  have fl: "freelist t = x" using ok(2) by (simp add: kavail_def kmem_inv_def)
  have m: "mem u = mblit (mblit (mem t) x (replicate 4096 5)) x (replicate 4096 0)"
    using fl x0 by (simp add: u_def popped_def lock_simps)
  show same: "same_page (mem t) (mem u) q" if "q mod 4096 = 0" "q \<noteq> x" for q
    unfolding m using same_page_trans[OF same_page_mblit same_page_mblit] that x by simp
  show "mslice (mem u) x 4096 = replicate 4096 0" unfolding m by (simp add: byte_simps)
  show "kpage u = kpage t" by (simp add: u_def kpage_def lock_simps)
  have sP: "same_page (mem t) (mem u) p" if "p \<in> P" for p
    using same[OF pt_ok_aligned[OF ok(1) that]] that ok(3) by auto
  note c = pt_ok_cong[OF ok(1) sP]
  have "kavail (settle (popped t)) ys" using ok(2) kmem_inv_popped[of t x ys] by (simp add: kavail_def lock_simps)
  then have "kavail u ys"
  proof (rule kavail_mem)
    fix y assume y: "y \<in> set ys"
    have "y mod 4096 = 0" using kmem.avail_pages[OF ok(2)] y unfolding kpage_def page_ok_def by auto
    moreover have "y \<noteq> x" using y ok(2) by (auto simp: kavail_def kmem_inv_def)
    moreover have "mem (settle (popped t)) = mblit (mem t) x (replicate 4096 5)"
      using fl x0 by (simp add: popped_def lock_simps)
    ultimately show "same_page (mem (settle (popped t))) (mem u) y" using x m by (simp add: same_page_mblit)
  qed (simp_all add: u_def fill_page_def lock_simps)
  then show "pt_ready u pt P ys" using c ok by (simp add: pt_ready_def)
  show "remapped t u pt (insert x P) {} (\<lambda>_. 0)"
    unfolding remapped_def using c same by (intro conjI allI impI) (auto simp: u_def lock_simps)
qed

lemma pt_ready_take:
  assumes "pt_ready t pt P ys"
  shows "P \<inter> set (take k ys) = {}" and "set (take k ys) \<inter> set (drop k ys) = {}"
    and "P \<union> set (take k ys) \<union> set (drop k ys) = P \<union> set ys"
proof -
  have "kavail t ys" "P \<inter> set ys = {}" using assms by (simp_all add: pt_ready_def)
  moreover have "distinct ys" using kmem.avail_pages[OF \<open>kavail t ys\<close>] by simp
  ultimately show "P \<inter> set (take k ys) = {}" "set (take k ys) \<inter> set (drop k ys) = {}"
    using set_take_subset[of k ys] set_take_disj_set_drop_if_distinct[of ys k k] by auto
  have "set (take k ys) \<union> set (drop k ys) = set ys" by (metis append_take_drop_id set_append)
  then show "P \<union> set (take k ys) \<union> set (drop k ys) = P \<union> set ys" by blast
qed

lemma same_page_slice: "same_page m m' p \<Longrightarrow> mslice m p 4096 = mslice m' p 4096"
  by (simp add: same_page_def)

text \<open>The frames mapped before are untouched by what happens to table pages and to the new frame.\<close>

lemma grow_more:
  assumes "grow_inv s pt P xs m t P' (x # ys) fs" and "u = fill_page x 0 (settle (popped t))"
    and "pt_ready v pt (P' \<union> set (take k ys)) (drop k ys)" and "kpage v = kpage t"
    and "remapped u v pt (P' \<union> set (take k ys)) {m + length fs} (\<lambda>_. PA2PTE x OR user_perm OR PTE_V)"
  shows "grow_inv s pt P xs m v (P' \<union> set (take k ys)) (drop k ys) (fs @ [x])"
proof -
  have g: "pt_ready t pt P' (x # ys)" "kpage t = kpage s" "distinct fs" "set fs \<inter> (P' \<union> set (x # ys)) = {}"
    "\<forall>f \<in> set fs. kpage s f \<and> mslice (mem t) f 4096 = replicate 4096 0"
    "P' \<union> set (x # ys) \<union> set fs = P \<union> set xs" "P \<subseteq> P'"
    and rm: "remapped s t pt (P \<union> set xs) {m..<m + length fs} (\<lambda>i. PA2PTE (fs ! (i - m)) OR (user_perm OR PTE_V))"
    using assms(1) by (auto simp: grow_inv_def)
  note f = fresh_page_ready[OF g(1), folded assms(2)]
  note tk = pt_ready_take[OF f(3), of k]
  have dx: "x \<notin> P'" "x \<notin> set ys"
    using g(1) kmem.avail_pages[of t "x # ys"] by (auto simp: pt_ready_def)
  have al: "q mod 4096 = 0" if "kpage s q" for q using that unfolding kpage_def page_ok_def by blast
  have z: "mslice (mem v) q 4096 = replicate 4096 0" if "q \<in> set (fs @ [x])" for q
  proof -
    have qs: "kpage s q" using that g(2,5) f(4) by auto
    have "q \<notin> P' \<union> set (take k ys)" using that g(4) dx set_take_subset[of k ys] by auto
    then have 1: "same_page (mem u) (mem v) q" using remappedD(2)[OF assms(5) al[OF qs]] by simp
    have "mslice (mem u) q 4096 = replicate 4096 0"
    proof (cases "q = x")
      case False
      then have "q \<in> set fs" using that by simp
      then show ?thesis using g(5) same_page_slice[OF f(8)[OF al[OF qs] False]] by simp
    qed (use f(6) in simp)
    then show ?thesis using same_page_slice[OF 1] by simp
  qed
  have "remapped s v pt (P \<union> set xs) ({m..<m + length fs} \<union> ({} \<union> {m + length fs}))
      (\<lambda>i. PA2PTE ((fs @ [x]) ! (i - m)) OR (user_perm OR PTE_V))"
  proof (rule remapped_trans[OF rm])
    have "insert x P' \<union> set (take k ys) \<subseteq> P \<union> set xs" using g(6) set_take_subset[of k ys] by auto
    moreover have "remapped t v pt (insert x P' \<union> set (take k ys)) ({} \<union> {m + length fs})
        (\<lambda>_. PA2PTE x OR user_perm OR PTE_V)"
      by (rule remapped_trans[OF remapped_mono[OF f(7), of "insert x P' \<union> set (take k ys)"] remapped_mono[OF assms(5)]]) auto
    ultimately show "remapped t v pt (P \<union> set xs) ({} \<union> {m + length fs}) (\<lambda>_. PA2PTE x OR user_perm OR PTE_V)"
      by (rule remapped_mono[rotated])
  qed (auto simp: nth_append or.assoc)
  moreover have "{m..<m + length fs} \<union> ({} \<union> {m + length fs}) = {m..<m + length (fs @ [x])}" by auto
  ultimately show ?thesis
    using assms(3,4) g(2-4,6,7) dx z f(4) tk set_take_subset[of k ys] set_drop_subset[of k ys] g(5)
    unfolding grow_inv_def by auto
qed

lemma grow_fail:
  assumes "grow_inv s pt P xs m t P' (x # ys) fs" and "u = fill_page x 0 (settle (popped t))"
    and "pt_ready v pt (P' \<union> set (take k ys)) (drop k ys)"
    and "remapped u v pt (P' \<union> set (take k ys)) {} (\<lambda>_. 0)"
  shows "\<exists>w. kfree x v = Ok () w \<and> grow_inv s pt P xs m w (P' \<union> set (take k ys)) (x # drop k ys) fs"
proof -
  have g: "pt_ready t pt P' (x # ys)" "kpage t = kpage s" "distinct fs" "set fs \<inter> (P' \<union> set (x # ys)) = {}"
    "\<forall>f \<in> set fs. kpage s f \<and> mslice (mem t) f 4096 = replicate 4096 0"
    "P' \<union> set (x # ys) \<union> set fs = P \<union> set xs" "P \<subseteq> P'"
    and rm: "remapped s t pt (P \<union> set xs) {m..<m + length fs} (\<lambda>i. PA2PTE (fs ! (i - m)) OR (user_perm OR PTE_V))"
    using assms(1) by (auto simp: grow_inv_def)
  note f = fresh_page_ready[OF g(1), folded assms(2)]
  note tk = pt_ready_take[OF f(3), of k]
  let ?P = "P' \<union> set (take k ys)"
  have dx: "x \<notin> P'" "x \<notin> set ys" using g(1) kmem.avail_pages[of t "x # ys"] by (auto simp: pt_ready_def)
  have kv: "kpage v = kpage t" using remappedD(3)[OF assms(4)] f(5) by (simp add: kpage_def)
  have "x \<notin> ?P" "x \<notin> set (drop k ys)" using dx set_take_subset[of k ys] set_drop_subset[of k ys] by auto
  from kfree_ready[OF assms(3) _ this] f(4) kv obtain w where w: "kfree x v = Ok () w"
    "pt_ready w pt ?P (x # drop k ys)" "remapped v w pt (insert x ?P) {} (\<lambda>_. 0)" "kpage w = kpage v"
    by auto
  have sub: "insert x ?P \<subseteq> P \<union> set xs" using g(6) set_take_subset[of k ys] by auto
  have uw: "remapped t w pt (insert x ?P) ({} \<union> {} \<union> {}) (\<lambda>_. 0)"
    by (rule remapped_trans[OF remapped_trans[OF remapped_mono[OF f(7), of "insert x ?P"]
              remapped_mono[OF assms(4), of "insert x ?P"]] w(3)]) auto
  have al: "q mod 4096 = 0" if "kpage s q" for q using that unfolding kpage_def page_ok_def by blast
  have z: "mslice (mem w) q 4096 = replicate 4096 0" if "q \<in> set fs" for q
  proof -
    have q: "kpage s q" "mslice (mem t) q 4096 = replicate 4096 0" using that g(5) by auto
    have "q \<notin> insert x ?P" using that g(4) set_take_subset[of k ys] by auto
    from remappedD(2)[OF uw al[OF q(1)] this] show ?thesis using q(2) by (simp add: same_page_def)
  qed
  have "remapped s w pt (P \<union> set xs) ({m..<m + length fs} \<union> ({} \<union> {} \<union> {}))
      (\<lambda>i. PA2PTE (fs ! (i - m)) OR (user_perm OR PTE_V))"
    by (rule remapped_trans[OF rm remapped_mono[OF uw sub]]) auto
  then have "grow_inv s pt P xs m w ?P (x # drop k ys) fs"
    using w(2,4) kv g(2-4,6,7) dx z tk g(5) set_take_subset[of k ys] set_drop_subset[of k ys]
    unfolding grow_inv_def by auto
  with w(1) show ?thesis by blast
qed

lemma grow_inv_settle: "grow_inv s pt P xs m t P' xs' fs \<Longrightarrow> grow_inv s pt P xs m (settle t) P' xs' fs"
  by (simp add: grow_inv_def pt_ready_def remapped_def lock_simps)

text \<open>
  How \<open>uvmalloc\<close> can end: all pages mapped, or nothing mapped and no page lost. A page takes at
  most two new table pages besides itself, so the second happens only with fewer than three
  free pages per page asked for.
\<close>

definition grow_result :: "kst \<Rightarrow> u64 \<Rightarrow> u64 set \<Rightarrow> u64 list \<Rightarrow> nat \<Rightarrow> nat \<Rightarrow> u64 \<Rightarrow> u64 \<Rightarrow> kst \<Rightarrow> bool" where
  "grow_result s pt P xs m n newsz r t \<longleftrightarrow>
     (\<exists>P' xs'.
        (r = newsz \<and> (\<exists>fs. length fs = n \<and> grow_inv s pt P xs m t P' xs' fs)) \<or>
        (r = 0 \<and> length xs < 3 * n \<and> pt_ready t pt P' xs' \<and> P \<subseteq> P' \<and> P' \<union> set xs' = P \<union> set xs \<and>
         (\<exists>N \<subseteq> {m..<m + n}. remapped s t pt (P \<union> set xs) N (\<lambda>_. 0))))"

lemma grow_undo_result:
  assumes "grow_inv s pt P xs m t P' xs' fs" and "m + length fs < 0x4000000" and "length fs \<le> n"
    and "length xs < 3 * n"
  shows "\<exists>u. bnd (uvmdealloc pt (page_va (m + length fs)) (page_va m) t) (\<lambda>_ s. Ok 0 s) = Ok 0 u \<and>
             grow_result s pt P xs m n newsz 0 u"
proof -
  from grow_undo[OF assms(1,2)] obtain u
    where u: "uvmdealloc pt (page_va (m + length fs)) (page_va m) t = Ok (page_va m) u"
      "pt_ready u pt P' (rev fs @ xs')" "remapped s u pt (P \<union> set xs) {m..<m + length fs} (\<lambda>_. 0)" by blast
  have "P' \<union> set (rev fs @ xs') = P \<union> set xs" "P \<subseteq> P'" using assms(1) by (auto simp: grow_inv_def)
  moreover have "{m..<m + length fs} \<subseteq> {m..<m + n}" using assms(3) by auto
  ultimately have "grow_result s pt P xs m n newsz 0 u" using u(2,3) assms(4) unfolding grow_result_def by blast
  with u(1) show ?thesis by auto
qed

lemma uvmalloc_loop_spec:
  assumes "grow_inv s pt P xs m t P' xs' fs" and "m + length fs + n < 0x4000000"
    and "unat newsz \<le> 4096 * (m + length fs + n)" and "n = 0 \<or> 4096 * (m + length fs + n - 1) < unat newsz"
    and "unmapped (mem s) pt {m..<m + length fs + n}" and "length xs \<le> length xs' + 3 * length fs"
  shows "\<exists>r u. uvmalloc_loop pt (page_va (m + length fs)) (page_va m) newsz t = Ok r u \<and>
               grow_result s pt P xs m (length fs + n) newsz r u"
  using assms
proof (induction n arbitrary: t P' xs' fs)
  case 0
  have "\<not> page_va (m + length fs) < newsz"
    using 0(2,3) page_va_unat[of "m + length fs"] by (simp add: word_less_nat_alt)
  then have "uvmalloc_loop pt (page_va (m + length fs)) (page_va m) newsz t = Ok newsz t"
    by (subst uvmalloc_loop.simps) simp
  then show ?case using 0(1) unfolding grow_result_def by auto
next
  case (Suc n)
  let ?a = "page_va (m + length fs)"
  have i: "m + length fs < 0x4000000" using Suc.prems(2) by simp
  have lt: "?a < newsz" using Suc.prems(4) page_va_unat[OF i] by (simp add: word_less_nat_alt)
  have len: "length fs \<le> length fs + Suc n" by simp
  show ?case
  proof (cases xs')
    case Nil
    then have "kavail t []" using Suc.prems(1) by (simp add: grow_inv_def pt_ready_def)
    then have "kalloc t = Ok 0 (settle t)"
      using kalloc_Ok[of t] by (simp add: kavail_def kmem_inv_def popped_def)
    then have "uvmalloc_loop pt ?a (page_va m) newsz t = bnd (uvmdealloc pt ?a (page_va m) (settle t)) (\<lambda>_ s. Ok 0 s)"
      using lt by (subst uvmalloc_loop.simps) simp
    moreover have "length xs < 3 * (length fs + Suc n)" using Suc.prems(6) Nil by simp
    ultimately show ?thesis using grow_undo_result[OF grow_inv_settle[OF Suc.prems(1)] i len, of newsz] by auto
  next
    case (Cons x ys)
    let ?u = "fill_page x 0 (settle (popped t))"
    have g: "grow_inv s pt P xs m t P' (x # ys) fs" using Suc.prems(1) Cons by simp
    then have gt: "pt_ready t pt P' (x # ys)" by (simp add: grow_inv_def)
    note f = fresh_page_ready[OF gt]
    have "leaf (mem ?u) 2 pt va AND PTE_V = 0" if "va < MAXVA" "vpn va \<in> {m + length fs}" for va
      using remappedD(1)[OF f(7) that(1)] that unmappedD[OF Suc.prems(5) that(1)] g
        remappedD(1)[of s t pt "P \<union> set xs" "{m..<m + length fs}" _ va]
      by (auto simp: grow_inv_def)
    then have "unmapped (mem ?u) pt {m + length fs}" unfolding unmapped_def by blast
    from mappages_one[OF f(3) i this, of x user_perm] obtain v k r
      where v: "mappages pt ?a PGSIZE x user_perm ?u = Ok r v" "k \<le> length ys" "k \<le> 2" "pt_ready v pt (P' \<union> set (take k ys)) (drop k ys)"
        and r: "r = 0 \<and> remapped ?u v pt (P' \<union> set (take k ys)) {m + length fs} (\<lambda>_. PA2PTE x OR user_perm OR PTE_V) \<or>
            r = - 1 \<and> k = length ys \<and> k < 2 \<and> remapped ?u v pt (P' \<union> set (take k ys)) {} (\<lambda>_. 0)"
      by (elim exE conjE) (rule that; assumption)
    have step: "uvmalloc_loop pt ?a (page_va m) newsz t =
        (if r \<noteq> 0 then bnd (kfree x v) (\<lambda>_ s. bnd (uvmdealloc pt ?a (page_va m) s) (\<lambda>_ s. Ok 0 s))
         else uvmalloc_loop pt (?a + PGSIZE) (page_va m) newsz v)"
      using lt f(1,2) v(1) by (subst uvmalloc_loop.simps) (simp add: Let_def)
    from r show ?thesis
    proof
      assume "r = - 1 \<and> k = length ys \<and> k < 2 \<and> remapped ?u v pt (P' \<union> set (take k ys)) {} (\<lambda>_. 0)"
      then have few: "length xs < 3 * (length fs + Suc n)" using Suc.prems(6) Cons by simp
      from \<open>r = - 1 \<and> _\<close> grow_fail[OF g refl v(4)] obtain w where w: "kfree x v = Ok () w"
        "grow_inv s pt P xs m w (P' \<union> set (take k ys)) (x # drop k ys) fs" and "r = - 1" by blast
      with grow_undo_result[OF w(2) i len few, of newsz] step show ?thesis by auto
    next
      assume "r = 0 \<and> remapped ?u v pt (P' \<union> set (take k ys)) {m + length fs} (\<lambda>_. PA2PTE x OR user_perm OR PTE_V)"
      then have r0: "r = 0"
        and rm: "remapped ?u v pt (P' \<union> set (take k ys)) {m + length fs} (\<lambda>_. PA2PTE x OR user_perm OR PTE_V)" by auto
      have "kpage v = kpage t" using remappedD(3)[OF rm] f(5) by (simp add: kpage_def)
      note g' = grow_more[OF g refl v(4) this rm]
      have ln: "length xs \<le> length (drop k ys) + 3 * length (fs @ [x])" using Suc.prems(6) Cons v(2,3) by simp
      have "uvmalloc_loop pt ?a (page_va m) newsz t = uvmalloc_loop pt (page_va (m + length (fs @ [x]))) (page_va m) newsz v"
        using step r0 by (simp add: page_va_Suc)
      with Suc.IH[OF g'] Suc.prems(2-5) ln show ?thesis by simp
    qed
  qed
qed

text \<open>C13: uvmalloc is all or nothing. On a well-formed table, asked to grow from page m to a new
  size of at most n more pages that are not mapped yet, it always returns. Either the result is
  the new size and the n pages are mapped with all user permissions to distinct frames filled
  with zeros that came from the free list; or the result is 0, no user page is mapped, and every
  frame is back on the free list: table pages and free pages together are the pages there were
  before. The second happens only when memory has run out: a page needs at most two new table
  pages besides its frame, and fewer than 3n pages were free. Nothing else is remapped in
  either case.\<close>
theorem uvmalloc_all_or_nothing:
  assumes "pt_ready s pt P xs" and "m + n < 0x4000000" and "PGROUNDUP oldsz = page_va m" and "oldsz \<le> newsz"
    and "unat newsz \<le> 4096 * (m + n)" and "n = 0 \<or> 4096 * (m + n - 1) < unat newsz"
    and "unmapped (mem s) pt {m..<m + n}"
  shows "\<exists>r t. uvmalloc pt oldsz newsz s = Ok r t \<and> grow_result s pt P xs m n newsz r t"
proof -
  have "grow_inv s pt P xs m s P xs []" using assms(1) by (simp add: grow_inv_def remapped_def)
  from uvmalloc_loop_spec[OF this, of n newsz] assms(2,5-7) obtain r t
    where "uvmalloc_loop pt (page_va m) (page_va m) newsz s = Ok r t" "grow_result s pt P xs m n newsz r t"
    by auto
  moreover have "\<not> newsz < oldsz" using assms(4) by (simp only: not_less)
  ultimately show ?thesis using assms(3) by (simp add: uvmalloc_def)
qed

lemma grow_result_few:
  assumes "grow_result s pt P xs m n newsz r t" and "length xs < n"
  shows "r = 0"
proof (rule ccontr)
  assume "r \<noteq> 0"
  with assms(1) obtain P' xs' fs where "length fs = n" and g: "grow_inv s pt P xs m t P' xs' fs"
    unfolding grow_result_def by blast
  moreover have "set fs \<subseteq> set xs" "distinct fs" using g by (auto simp: grow_inv_def)
  ultimately have "n \<le> length xs"
    by (metis card_mono distinct_card card_length le_trans List.finite_set)
  with assms(2) show False by simp
qed

text \<open>With three free pages the process gets a page; with two it does not get three.\<close>
theorem uvmalloc_all_or_nothing_witness:
  "(\<exists>s t. kfree 0x80025000 demo_pt = Ok () s \<and> uvmalloc 0x80030000 0 0x1000 s = Ok 0x1000 t \<and>
          grow_result s 0x80030000 {0x80030000} [0x80025000, 0x80024000, 0x80023000] 0 1 0x1000 0x1000 t) \<and>
   (\<exists>t. uvmalloc 0x80030000 0 0x2800 demo_pt = Ok 0 t \<and>
        grow_result demo_pt 0x80030000 {0x80030000} [0x80024000, 0x80023000] 0 3 0x2800 0 t)"
proof (intro conjI)
  have z: "PGROUNDUP 0 = page_va 0" by (simp add: PGROUNDUP_def page_va_def)
  let ?pt = "0x80030000 :: u64" and ?xs = "[0x80025000, 0x80024000, 0x80023000] :: u64 list"
  have "kpage demo_pt 0x80025000" by (simp add: kpage_def page_ok_def demo_pt_def)
  then obtain s where s: "kfree 0x80025000 demo_pt = Ok () s" "pt_ready s ?pt {?pt} ?xs"
    "remapped demo_pt s ?pt (insert 0x80025000 {?pt}) {} (\<lambda>_. 0)"
    using kfree_ready[OF demo_pt_ready, of "0x80025000"] by auto
  have "unmapped (mem s) ?pt N" for N
    using demo_pt_unmapped[of N] remappedD(1)[OF s(3)] by (auto simp: unmapped_def)
  then obtain r t where t: "uvmalloc ?pt 0 0x1000 s = Ok r t" "grow_result s ?pt {?pt} ?xs 0 1 0x1000 r t"
    using uvmalloc_all_or_nothing[OF s(2), of 0 1 0 "0x1000"] z by auto
  then have "r = 0x1000" by (auto simp: grow_result_def)
  with s(1) t show "\<exists>s t. kfree 0x80025000 demo_pt = Ok () s \<and> uvmalloc ?pt 0 0x1000 s = Ok 0x1000 t \<and>
          grow_result s ?pt {?pt} ?xs 0 1 0x1000 0x1000 t" by blast
  obtain r t where u: "uvmalloc ?pt 0 0x2800 demo_pt = Ok r t"
    "grow_result demo_pt ?pt {?pt} [0x80024000, 0x80023000] 0 3 0x2800 r t"
    using uvmalloc_all_or_nothing[OF demo_pt_ready, of 0 3 0 "0x2800"] demo_pt_unmapped z by auto
  then have "r = 0" using grow_result_few[OF u(2)] by simp
  with u show "\<exists>t. uvmalloc ?pt 0 0x2800 demo_pt = Ok 0 t \<and>
        grow_result demo_pt ?pt {?pt} [0x80024000, 0x80023000] 0 3 0x2800 0 t" by blast
qed

end
