(* ===== verification/User_Copy.thy ===== *)
theory User_Copy
  imports Page_Unmap
begin

text \<open>
  \<open>copyin\<close>, \<open>copyout\<close> and \<open>copyinstr\<close> byte by byte: \<open>upa\<close> is the physical address of a user
  virtual address. Copying out and in again is the identity, copying out touches only the
  bytes the range maps to, and a range with a page that is not mapped for the user is refused.
\<close>

definition upa :: "memory \<Rightarrow> u64 \<Rightarrow> u64 \<Rightarrow> u64" where
  "upa m pt v = uva m pt (PGROUNDDOWN v) + (v - PGROUNDDOWN v)"

lemma uva_leaf:
  assumes "pt_ok m 2 pt P" and "0 \<notin> P"
  shows "uva m pt va =
    (let e = leaf m 2 pt va in if va \<ge> MAXVA \<or> e AND PTE_V = 0 \<or> e AND PTE_U = 0 then 0 else PTE2PA e)"
proof (cases "pt_walk m 2 pt va")
  case None
  have "pt_walk m l q va = None \<Longrightarrow> leaf m l q va = 0" for l q
    by (induction l arbitrary: q) (auto simp: entry_PX Let_def split: if_splits)
  then show ?thesis using None by (simp add: uva_def pte_addr_def)
next
  case (Some d)
  have "d \<in> P" "d mod 4096 = 0" using leaf_write[OF assms(1) Some refl] pt_ok_aligned[OF assms(1)] by auto
  then have "d + 8 * PX 0 va \<noteq> 0" using assms(2) by (intro entry_nonzero) auto
  then show ?thesis using Some leaf_walk[OF Some] by (simp add: uva_def pte_addr_def Let_def)
qed

lemma uva_cong:
  assumes "pt_ok m 2 pt P" and "0 \<notin> P" and "\<And>p. p \<in> P \<Longrightarrow> same_page m m' p"
  shows "uva m' pt va = uva m pt va"
proof -
  note c = pt_ok_cong[OF assms(1,3)]
  have "pt_ok m' 2 pt P" using c by blast
  then show ?thesis using uva_leaf[OF assms(1,2)] uva_leaf[of m' pt P va] assms(2) c by simp
qed

lemma uva_aligned: "uva m pt va mod 4096 = 0"
  by (simp add: uva_def Let_def PTE2PA_aligned)

section \<open>Within a page\<close>

lemma round_in_page:
  assumes "unat va mod 4096 + i < 4096"
  shows "unat (va + of_nat i) = unat va + i" and "PGROUNDDOWN (va + of_nat i) = PGROUNDDOWN va"
proof -
  let ?q = "unat va div 4096" and ?r = "unat va mod 4096"
  have e: "unat va = 4096 * ?q + ?r" by simp
  have "?q < 4503599627370496" using unat_lt64[of va] by (simp add: less_mult_imp_div_less)
  then have "4096 * ?q + 4096 \<le> 2 ^ 64" by simp
  with e assms have "unat va + i < 2 ^ 64" by linarith
  then show u: "unat (va + of_nat i) = unat va + i" by (rule unat_add_of_nat)
  have "(unat va + i) div 4096 = (?r + i + 4096 * ?q) div 4096" by (subst e) (simp add: algebra_simps)
  also have "\<dots> = ?q" using assms by (subst div_mult_self2) simp_all
  finally show "PGROUNDDOWN (va + of_nat i) = PGROUNDDOWN va" by (simp add: word_unat_eq_iff PGROUNDDOWN_unat u)
qed

lemma upa_in_page:
  assumes "unat va mod 4096 + i < 4096"
  shows "upa m pt (va + of_nat i) = uva m pt (PGROUNDDOWN va) + (va - PGROUNDDOWN va) + of_nat i"
  by (simp add: upa_def round_in_page[OF assms])

lemma chunk_in_page: "i < chunk va len \<Longrightarrow> unat va mod 4096 + i < 4096"
  unfolding chunk_eq by linarith

lemma chunk_within: "unat va mod 4096 + chunk va len \<le> 4096"
  unfolding chunk_eq using mod_less_divisor[of 4096 "unat va"] by linarith

text \<open>The remaining bytes start at the next page.\<close>

lemma chunk_next:
  assumes "i < len - chunk va len" and "0 < len"
  shows "PGROUNDDOWN va + PGSIZE + of_nat i = va + of_nat (chunk va len + i)"
proof -
  let ?r = "unat va mod 4096"
  have c: "chunk va len = 4096 - ?r" using assms by (simp add: chunk_eq)
  have "va - PGROUNDDOWN va = of_nat ?r" using page_offset[of va] u64_eq_of_nat[of ?r] by simp
  then have v: "va = PGROUNDDOWN va + of_nat ?r" by (simp only: diff_eq_eq add.commute)
  have "(of_nat ?r + of_nat (4096 - ?r) :: u64) = of_nat (?r + (4096 - ?r))" by (simp only: of_nat_add)
  also have "?r + (4096 - ?r) = 4096" by (simp add: less_imp_le)
  finally have "PGROUNDDOWN va + (of_nat ?r + of_nat (4096 - ?r)) = PGROUNDDOWN va + 4096" by simp
  then have "va + of_nat (4096 - ?r) = PGROUNDDOWN va + 4096" by (subst v) (simp only: add.assoc)
  then show ?thesis unfolding c by (simp only: of_nat_add add.assoc[symmetric])
qed

text \<open>Every page of the range is mapped for the user.\<close>

definition user_range :: "memory \<Rightarrow> u64 \<Rightarrow> u64 \<Rightarrow> nat \<Rightarrow> bool" where
  "user_range m pt va len \<longleftrightarrow> (\<forall>i < len. uva m pt (PGROUNDDOWN (va + of_nat i)) \<noteq> 0)"

lemma user_range_split:
  assumes "0 < len"
  shows "user_range m pt va len \<longleftrightarrow>
     uva m pt (PGROUNDDOWN va) \<noteq> 0 \<and> user_range m pt (PGROUNDDOWN va + PGSIZE) (len - chunk va len)"
    (is "?L \<longleftrightarrow> ?R")
proof
  let ?n = "chunk va len"
  have n: "?n \<le> len" by (rule chunk_le)
  assume L: ?L
  have "uva m pt (PGROUNDDOWN (PGROUNDDOWN va + PGSIZE + of_nat i)) \<noteq> 0" if "i < len - ?n" for i
  proof -
    have "?n + i < len" using that n by simp
    then show ?thesis using L unfolding chunk_next[OF that assms] user_range_def by blast
  qed
  then show ?R using L assms unfolding user_range_def by force
next
  let ?n = "chunk va len"
  assume R: ?R
  show ?L unfolding user_range_def
  proof (intro allI impI)
    fix i assume i: "i < len"
    show "uva m pt (PGROUNDDOWN (va + of_nat i)) \<noteq> 0"
    proof (cases "i < ?n")
      case True
      then have "unat va mod 4096 + i < 4096" by (rule chunk_in_page)
      then show ?thesis using R by (simp add: round_in_page)
    next
      case False
      then have "i - ?n < len - ?n" "?n + (i - ?n) = i" using i by auto
      then show ?thesis using R chunk_next[of "i - ?n" len va] assms unfolding user_range_def by metis
    qed
  qed
qed

lemma uread_spec:
  "uread m pt va len =
     (if user_range m pt va len then (0, map (\<lambda>i. m (upa m pt (va + of_nat i))) [0..<len])
      else (- 1, snd (uread m pt va len)))"
proof (induction len arbitrary: va rule: less_induct)
  case (less len)
  let ?n = "chunk va len" and ?pa = "uva m pt (PGROUNDDOWN va)" and ?v = "PGROUNDDOWN va + PGSIZE"
  show ?case
  proof (cases "len = 0")
    case True
    then show ?thesis by (subst uread.simps) (simp add: user_range_def)
  next
    case False
    then have pos: "0 < len" by simp
    have n: "0 < ?n" "?n \<le> len" using chunk_pos[OF pos] chunk_le[of va len] by auto
    have u: "uread m pt va len = (if ?pa = 0 then (- 1, [])
        else (fst (uread m pt ?v (len - ?n)), mslice m (?pa + (va - PGROUNDDOWN va)) ?n @ snd (uread m pt ?v (len - ?n))))"
      using False by (subst uread.simps) (simp add: Let_def)
    have IH: "uread m pt ?v (len - ?n) =
       (if user_range m pt ?v (len - ?n) then (0, map (\<lambda>i. m (upa m pt (?v + of_nat i))) [0..<len - ?n])
        else (- 1, snd (uread m pt ?v (len - ?n))))"
      by (rule less.IH) (use n pos in simp)
    show ?thesis
    proof (cases "user_range m pt va len")
      case True
      then have R: "?pa \<noteq> 0" "user_range m pt ?v (len - ?n)" using user_range_split[OF pos] by auto
      have tl: "map (\<lambda>i. m (upa m pt (?v + of_nat i))) [0..<len - ?n] = map (\<lambda>i. m (upa m pt (va + of_nat i))) [?n..<len]"
        using chunk_next[OF _ pos, of _ va] n by (intro nth_equalityI) (auto simp: add.assoc)
      have hd: "mslice m (?pa + (va - PGROUNDDOWN va)) ?n = map (\<lambda>i. m (upa m pt (va + of_nat i))) [0..<?n]"
        unfolding mslice_def by (intro map_cong refl) (simp add: upa_in_page chunk_in_page)
      have "[0..<len] = [0..<?n] @ [?n..<len]" using upt_add_eq_append[of 0 ?n "len - ?n"] n by simp
      then show ?thesis using u IH R True tl hd by simp
    next
      case F: False
      then have "?pa = 0 \<or> \<not> user_range m pt ?v (len - ?n)" using user_range_split[OF pos] by blast
      then have "fst (uread m pt va len) = - 1" using u IH by (auto simp: prod_eq_iff)
      then show ?thesis using F by (simp add: prod_eq_iff)
    qed
  qed
qed

text \<open>The memory after copying \<open>src\<close> out: the bytes of the range hold it, all others are as before.\<close>

definition copied :: "memory \<Rightarrow> memory \<Rightarrow> u64 \<Rightarrow> u64 \<Rightarrow> bytes \<Rightarrow> bool" where
  "copied m m' pt va src \<longleftrightarrow>
     (\<forall>i < length src. m' (upa m pt (va + of_nat i)) = src ! i) \<and>
     (\<forall>x. (\<forall>i < length src. x \<noteq> upa m pt (va + of_nat i)) \<longrightarrow> m' x = m x)"

text \<open>The frames of the range are not table pages, and no two bytes of it share a physical byte.\<close>

definition plain_range :: "memory \<Rightarrow> u64 \<Rightarrow> u64 set \<Rightarrow> u64 \<Rightarrow> nat \<Rightarrow> bool" where
  "plain_range m pt P va len \<longleftrightarrow>
     (\<forall>i < len. uva m pt (PGROUNDDOWN (va + of_nat i)) \<notin> P) \<and>
     inj_on (\<lambda>i. upa m pt (va + of_nat i)) {..<len}"

definition off_tables :: "memory \<Rightarrow> u64 \<Rightarrow> u64 set \<Rightarrow> u64 \<Rightarrow> nat \<Rightarrow> bool" where
  "off_tables m pt P va len \<longleftrightarrow> (\<forall>i < len. uva m pt (PGROUNDDOWN (va + of_nat i)) \<notin> P)"

lemma plain_range_off: "plain_range m pt P va len \<Longrightarrow> off_tables m pt P va len"
  by (simp add: plain_range_def off_tables_def)

lemma off_tables_next:
  assumes "off_tables m pt P va len" and "0 < len"
  shows "off_tables m pt P (PGROUNDDOWN va + PGSIZE) (len - chunk va len)"
  unfolding off_tables_def
proof (intro allI impI)
  fix i assume i: "i < len - chunk va len"
  then have "chunk va len + i < len" using chunk_le[of va len] by simp
  then show "uva m pt (PGROUNDDOWN (PGROUNDDOWN va + PGSIZE + of_nat i)) \<notin> P"
    using assms(1) unfolding chunk_next[OF i assms(2)] off_tables_def by blast
qed

lemma blit_chunk:
  assumes "n \<le> length src" and "unat va mod 4096 + n \<le> 4096" and "pa = uva m pt (PGROUNDDOWN va)"
    and "m1 = mblit m (pa + (va - PGROUNDDOWN va)) (take n src)"
  shows "\<And>i. i < n \<Longrightarrow> m1 (upa m pt (va + of_nat i)) = src ! i"
    and "\<And>x. (\<And>i. i < n \<Longrightarrow> x \<noteq> upa m pt (va + of_nat i)) \<Longrightarrow> m1 x = m x"
    and "\<And>q. q mod 4096 = 0 \<Longrightarrow> q \<noteq> pa \<Longrightarrow> same_page m m1 q"
proof -
  let ?a = "pa + (va - PGROUNDDOWN va)"
  have up: "upa m pt (va + of_nat i) = ?a + of_nat i" if "i < n" for i
    using upa_in_page[of va i m pt] that assms(2,3) by simp
  show "m1 (upa m pt (va + of_nat i)) = src ! i" if "i < n" for i
    unfolding up[OF that] assms(4) using that assms(1,2) by (simp add: mblit_at)
  show out: "m1 x = m x" if "\<And>i. i < n \<Longrightarrow> x \<noteq> upa m pt (va + of_nat i)" for x
  proof (cases "unat (x - ?a) < n")
    case True
    have "x = ?a + of_nat (unat (x - ?a))" by simp
    with that[OF True] up[OF True] show ?thesis by simp
  next
    case False
    then show ?thesis unfolding assms(4) using assms(1) by (simp add: mblit_def)
  qed
  show "same_page m m1 q" if "q mod 4096 = 0" "q \<noteq> pa" for q
  proof -
    have "m1 (q + of_nat j) = m (q + of_nat j)" if j: "j < 4096" for j
    proof (rule out)
      fix i assume i: "i < n"
      have va: "va - PGROUNDDOWN va = of_nat (unat va mod 4096)"
        using page_offset[of va] u64_eq_of_nat[of "unat va mod 4096"] by simp
      have "upa m pt (va + of_nat i) = pa + of_nat (unat va mod 4096 + i)"
        using up[OF i] va by (simp add: add.assoc)
      moreover have "4096 \<le> unat (q + of_nat j - pa)"
        using uva_aligned[of m pt] assms(3) that j \<open>q mod 4096 = 0\<close> \<open>q \<noteq> pa\<close> by (intro page_disjoint) simp_all
      moreover have "unat (of_nat (unat va mod 4096 + i) :: u64) < 4096"
        using i assms(2) by (simp add: unat_of_nat_lt64 del: of_nat_add)
      ultimately show "q + of_nat j \<noteq> upa m pt (va + of_nat i)" by (auto simp del: of_nat_add)
    qed
    then show ?thesis by (simp add: same_page_def mslice_def)
  qed
qed

lemma plain_range_next:
  assumes "plain_range m pt P va len" and "0 < len"
  shows "plain_range m pt P (PGROUNDDOWN va + PGSIZE) (len - chunk va len)"
  unfolding plain_range_def
proof (intro conjI allI impI inj_onI)
  let ?n = "chunk va len"
  have n: "?n \<le> len" by (rule chunk_le)
  fix i assume i: "i < len - ?n"
  then have "?n + i < len" using n by simp
  then show "uva m pt (PGROUNDDOWN (PGROUNDDOWN va + PGSIZE + of_nat i)) \<notin> P"
    using assms(1) unfolding chunk_next[OF i assms(2)] plain_range_def by blast
next
  let ?n = "chunk va len"
  have n: "?n \<le> len" by (rule chunk_le)
  fix i j assume ij: "i \<in> {..<len - ?n}" "j \<in> {..<len - ?n}"
    and eq: "upa m pt (PGROUNDDOWN va + PGSIZE + of_nat i) = upa m pt (PGROUNDDOWN va + PGSIZE + of_nat j)"
  then have "upa m pt (va + of_nat (?n + i)) = upa m pt (va + of_nat (?n + j))"
    using chunk_next[of i len va] chunk_next[of j len va] assms(2) by simp
  moreover have "?n + i \<in> {..<len}" "?n + j \<in> {..<len}" using ij n by auto
  ultimately have "?n + i = ?n + j" using assms(1) unfolding plain_range_def by (blast dest: inj_onD)
  then show "i = j" by simp
qed

lemma copied_join:
  assumes "plain_range m pt P va (length src)" and "0 < length src"
    and "\<And>v. upa m1 pt v = upa m pt v"
    and "\<And>i. i < chunk va (length src) \<Longrightarrow> m1 (upa m pt (va + of_nat i)) = src ! i"
    and "\<And>x. (\<And>i. i < chunk va (length src) \<Longrightarrow> x \<noteq> upa m pt (va + of_nat i)) \<Longrightarrow> m1 x = m x"
    and "copied m1 m' pt (PGROUNDDOWN va + PGSIZE) (drop (chunk va (length src)) src)"
  shows "copied m m' pt va src"
proof -
  let ?n = "chunk va (length src)" and ?len = "length src"
  have n: "?n \<le> ?len" by (rule chunk_le)
  have tl: "m' (upa m pt (va + of_nat (?n + i))) = src ! (?n + i)" if "i < ?len - ?n" for i
    using assms(6) that chunk_next[OF that assms(2)] n unfolding copied_def assms(3) by (auto simp del: of_nat_add)
  have out: "m' x = m1 x" if "\<And>i. i < ?len - ?n \<Longrightarrow> x \<noteq> upa m pt (va + of_nat (?n + i))" for x
    using assms(6) that chunk_next[OF _ assms(2), of _ va] unfolding copied_def assms(3) by (auto simp del: of_nat_add)
  have inj: "inj_on (\<lambda>i. upa m pt (va + of_nat i)) {..<?len}" using assms(1) by (simp add: plain_range_def)
  have "m' (upa m pt (va + of_nat i)) = src ! i" if i: "i < ?len" for i
  proof (cases "i < ?n")
    case True
    have "upa m pt (va + of_nat i) \<noteq> upa m pt (va + of_nat (?n + j))" if "j < ?len - ?n" for j
      using inj_onD[OF inj, of i "?n + j"] True that i by (auto simp: less_diff_conv add.commute)
    then show ?thesis using out assms(4)[OF True] by simp
  next
    case False
    then show ?thesis using tl[of "i - ?n"] i by simp
  qed
  moreover have "m' x = m x" if x: "\<forall>i < ?len. x \<noteq> upa m pt (va + of_nat i)" for x
  proof -
    have "m' x = m1 x"
    proof (rule out)
      fix i assume "i < ?len - ?n"
      then have "?n + i < ?len" by simp
      with x show "x \<noteq> upa m pt (va + of_nat (?n + i))" by blast
    qed
    also have "\<dots> = m x" using x n by (intro assms(5)) auto
    finally show ?thesis .
  qed
  ultimately show ?thesis by (simp add: copied_def)
qed

lemma uwrite_off_tables:
  assumes "pt_ok m 2 pt P" and "0 \<notin> P" and "off_tables m pt P va (length src)"
  shows "\<exists>m'. uwrite m pt va src = (if user_range m pt va (length src) then 0 else - 1, m') \<and>
              (\<forall>v. uva m' pt v = uva m pt v) \<and> pt_ok m' 2 pt P \<and>
              (user_range m pt va (length src) \<longrightarrow> plain_range m pt P va (length src) \<longrightarrow> copied m m' pt va src)"
  using assms(1,3)
proof (induction "length src" arbitrary: m va src rule: less_induct)
  case less
  let ?len = "length src"
  let ?n = "chunk va ?len" and ?pa = "uva m pt (PGROUNDDOWN va)" and ?v = "PGROUNDDOWN va + PGSIZE"
  show ?case
  proof (cases "src = [] \<or> ?pa = 0")
    case True
    then have "uwrite m pt va src = (if src = [] then 0 else - 1, m)" by (subst uwrite.simps) (auto simp: Let_def)
    moreover have "user_range m pt va ?len \<longleftrightarrow> src = []"
      using True user_range_split[of ?len m pt va] by (auto simp: user_range_def)
    ultimately show ?thesis using less.prems by (auto simp: copied_def)
  next
    case False
    then have pos: "0 < ?len" and pa: "?pa \<noteq> 0" by auto
    have n: "?n \<le> ?len" "0 < ?n" using chunk_le[of va ?len] chunk_pos[OF pos, of va] by auto
    let ?m1 = "mblit m (?pa + (va - PGROUNDDOWN va)) (take ?n src)"
    note b = blit_chunk[OF n(1) chunk_within refl refl, where m = m and pt = pt]
    have paP: "?pa \<notin> P" using less.prems(2) pos unfolding off_tables_def by force
    have sP: "same_page m ?m1 p" if "p \<in> P" for p
      using b(3)[OF pt_ok_aligned[OF less.prems(1) that]] that paP by auto
    have ok1: "pt_ok ?m1 2 pt P" using pt_ok_cong[OF less.prems(1) sP] by blast
    have uv: "uva ?m1 pt v = uva m pt v" for v using uva_cong[OF less.prems(1) assms(2) sP] by simp
    then have up: "upa ?m1 pt v = upa m pt v" for v by (simp add: upa_def)
    have ur: "user_range ?m1 pt v l = user_range m pt v l" for v l by (simp add: user_range_def uv)
    have pl: "plain_range ?m1 pt P ?v (?len - ?n)" if "plain_range m pt P va ?len"
      using plain_range_next[OF that pos] by (simp add: plain_range_def uv up)
    have pr: "off_tables ?m1 pt P ?v (length (drop ?n src))"
      using off_tables_next[OF less.prems(2) pos] by (simp add: off_tables_def uv)
    have "length (drop ?n src) < ?len" using n pos by simp
    from less.hyps[OF this ok1 pr] obtain m' where m': "uwrite ?m1 pt ?v (drop ?n src) =
        (if user_range m pt ?v (?len - ?n) then 0 else - 1, m')" "\<And>v. uva m' pt v = uva m pt v" "pt_ok m' 2 pt P"
      "user_range m pt ?v (?len - ?n) \<Longrightarrow> plain_range ?m1 pt P ?v (?len - ?n) \<Longrightarrow> copied ?m1 m' pt ?v (drop ?n src)"
      by (auto simp: uv ur)
    have "uwrite m pt va src = uwrite ?m1 pt ?v (drop ?n src)" using False by (subst uwrite.simps) (simp add: Let_def)
    moreover have "user_range m pt va ?len \<longleftrightarrow> user_range m pt ?v (?len - ?n)"
      using user_range_split[OF pos] pa by blast
    moreover have "copied m m' pt va src" if "user_range m pt ?v (?len - ?n)" "plain_range m pt P va ?len"
      using copied_join[OF that(2) pos _ b(1,2) m'(4)[OF that(1) pl[OF that(2)]]] up by blast
    ultimately show ?thesis using m' by auto
  qed
qed

lemma uwrite_spec:
  assumes "pt_ok m 2 pt P" and "0 \<notin> P" and "plain_range m pt P va (length src)"
  shows "\<exists>m'. uwrite m pt va src = (if user_range m pt va (length src) then 0 else - 1, m') \<and>
              (\<forall>v. uva m' pt v = uva m pt v) \<and> pt_ok m' 2 pt P \<and>
              (user_range m pt va (length src) \<longrightarrow> copied m m' pt va src)"
  using uwrite_off_tables[OF assms(1,2) plain_range_off[OF assms(3)]] assms(3) by auto

text \<open>C14: Kernel and user memory. On a well-formed page table, for a range all of whose pages are
  mapped for the user to frames that are not table pages, with no two bytes of the range
  sharing a physical byte, copyout succeeds, copyin of the same range then returns exactly the
  bytes that were copied out, and copyout has changed no byte of memory outside the frames of
  the range.\<close>
theorem copyout_copyin_roundtrip:
  assumes "pt_ok (mem s) 2 pt P" and "0 \<notin> P" and "plain_range (mem s) pt P va (length src)"
    and "user_range (mem s) pt va (length src)"
  shows "\<exists>t. copyout pt va src s = Ok 0 t \<and> copyin pt va (length src) t = Ok (0, src) t \<and>
             copied (mem s) (mem t) pt va src \<and> t = s\<lparr>mem := mem t\<rparr>"
proof -
  from uwrite_spec[OF assms(1-3)] assms(4) obtain m' where m': "uwrite (mem s) pt va src = (0, m')"
    "\<And>v. uva m' pt v = uva (mem s) pt v" "copied (mem s) m' pt va src" by auto
  have "user_range m' pt va (length src)" using assms(4) by (simp add: user_range_def m'(2))
  moreover have "map (\<lambda>i. m' (upa m' pt (va + of_nat i))) [0..<length src] = src"
    using m'(2,3) by (intro nth_equalityI) (simp_all add: upa_def copied_def)
  ultimately have "uread m' pt va (length src) = (0, src)" by (subst uread_spec) simp
  then show ?thesis using m'(1,3) by (simp add: copyout_eq copyin_eq)
qed

text \<open>Two user bytes of the page mapped in the example of \<open>Page_Unmap\<close>.\<close>

lemma demo_round: "i < 2 \<Longrightarrow> PGROUNDDOWN (0x5010 + of_nat i) = 0x5000"
  by (auto simp: less_2_cases_iff PGROUNDDOWN_def)

lemma demo_range:
  obtains s :: kst and P where "pt_ok (mem s) 2 0x80030000 P" and "0 \<notin> P" and "plain_range (mem s) 0x80030000 P 0x5010 2"
    and "user_range (mem s) 0x80030000 0x5010 2" and "uva (mem s) 0x80030000 0x5000 = 0x80100000"
    and "uva (mem s) 0x80030000 0x6000 = 0" and "0x80100000 \<notin> P"
proof -
  obtain s P xs where s: "pt_ready s 0x80030000 P xs" "0x80100000 \<notin> P \<union> set xs"
    "leaf (mem s) 2 0x80030000 0x5000 = PA2PTE 0x80100000 OR 0x17" "leaf (mem s) 2 0x80030000 0x6000 AND PTE_V = 0"
    by (rule demo_mapped)
  have ok: "pt_ok (mem s) 2 0x80030000 P" "0 \<notin> P" using s(1) by (simp_all add: pt_ready_def)
  have v: "(PA2PTE 0x80100000 OR 0x17) AND 1 \<noteq> 0" "(PA2PTE 0x80100000 OR 0x17) AND 16 \<noteq> 0"
    by (simp_all add: PA2PTE_def)
  have uv: "uva (mem s) 0x80030000 0x5000 = 0x80100000"
    using uva_leaf[OF ok, of "0x5000"] s(3) v PTE2PA_PA2PTE[of "0x80100000" "0x17"] by (simp add: Let_def)
  note r = demo_round
  have "upa (mem s) 0x80030000 (0x5010 + of_nat i) = 0x80100010 + of_nat i" if "i < 2" for i
    using r[OF that] uv by (simp add: upa_def)
  then have "inj_on (\<lambda>i. upa (mem s) 0x80030000 (0x5010 + of_nat i)) {..<2}"
    by (intro inj_onI) (auto simp: less_2_cases_iff)
  then have "plain_range (mem s) 0x80030000 P 0x5010 2" using r uv s(2) by (simp add: plain_range_def)
  moreover have "user_range (mem s) 0x80030000 0x5010 2" using r uv by (simp add: user_range_def)
  moreover have "uva (mem s) 0x80030000 0x6000 = 0" using uva_leaf[OF ok, of "0x6000"] s(4) by (simp add: Let_def)
  ultimately show ?thesis using that[OF ok] uv s(2) by blast
qed

theorem copyout_copyin_roundtrip_witness:
  "\<exists>s t. user_range (mem s) 0x80030000 0x5010 2 \<and> copyout 0x80030000 0x5010 [7, 9] s = Ok 0 t \<and>
         copyin 0x80030000 0x5010 2 t = Ok (0, [7, 9]) t"
proof -
  obtain s :: kst and P where "pt_ok (mem s) 2 0x80030000 P" "0 \<notin> P" "plain_range (mem s) 0x80030000 P 0x5010 2"
    "user_range (mem s) 0x80030000 0x5010 2" by (rule demo_range)
  moreover have l: "length [7, 9 :: u8] = 2" by simp
  ultimately show ?thesis
    using copyout_copyin_roundtrip[of s "0x80030000" P "0x5010" "[7, 9]", unfolded l] by blast
qed

text \<open>
  Every page of the range is below \<open>MAXVA\<close> with a valid entry that the user may access. A frame
  at physical address 0 counts as no mapping, as it does for \<open>walkaddr\<close>.
\<close>

definition user_ok :: "memory \<Rightarrow> u64 \<Rightarrow> u64 \<Rightarrow> nat \<Rightarrow> bool" where
  "user_ok m pt va len \<longleftrightarrow>
     (\<forall>i < len. let p = PGROUNDDOWN (va + of_nat i); e = leaf m 2 pt p
                in p < MAXVA \<and> e AND PTE_V \<noteq> 0 \<and> e AND PTE_U \<noteq> 0 \<and> PTE2PA e \<noteq> 0)"

text \<open>C15: The kernel refuses bad user pointers. On a well-formed page table none of whose own pages the
  range maps to, copyin and copyout return an error exactly when some page of the range lies at
  or above MAXVA, has no valid entry (an unmapped page included), is not accessible to the user,
  or has its frame at physical address 0; otherwise they return 0, and copyin delivers the bytes
  of the range. Whatever copyout returns, it leaves the translation of every address as it was.\<close>
theorem user_pointers_checked:
  assumes "pt_ok (mem s) 2 pt P" and "0 \<notin> P" and "off_tables (mem s) pt P va (length src)"
  shows "\<exists>t bs. copyout pt va src s = Ok (if user_ok (mem s) pt va (length src) then 0 else - 1) t \<and>
            (\<forall>v. uva (mem t) pt v = uva (mem s) pt v) \<and>
            copyin pt va (length src) s = Ok (if user_ok (mem s) pt va (length src) then 0 else - 1, bs) s \<and>
            (user_ok (mem s) pt va (length src) \<longrightarrow>
               bs = map (\<lambda>i. mem s (upa (mem s) pt (va + of_nat i))) [0..<length src])"
proof -
  have ok: "user_ok (mem s) pt va (length src) \<longleftrightarrow> user_range (mem s) pt va (length src)"
    unfolding user_range_def user_ok_def uva_leaf[OF assms(1,2)] by (auto simp: Let_def linorder_not_le)
  from uwrite_off_tables[OF assms] obtain m' where w: "uwrite (mem s) pt va src =
      (if user_range (mem s) pt va (length src) then 0 else - 1, m')" "\<forall>v. uva m' pt v = uva (mem s) pt v" by blast
  show ?thesis
    unfolding ok copyout_eq copyin_eq w(1)
    using uread_spec[of "mem s" pt va "length src"] w(2)
    by (intro exI[of _ "s\<lparr>mem := m'\<rparr>"] exI[of _ "snd (uread (mem s) pt va (length src))"])
       (auto simp: prod_eq_iff split: if_splits)
qed

text \<open>A range inside a mapped page is accepted, one that runs into the next, unmapped page is refused.\<close>
theorem user_pointers_checked_witness:
  "\<exists>s t u bs. copyin 0x80030000 0x5010 2 s = Ok (0, [mem s 0x80100010, mem s 0x80100011]) s \<and>
     copyout 0x80030000 0x5010 [7, 9] s = Ok 0 t \<and>
     copyin 0x80030000 0x5fff 2 s = Ok (- 1, bs) s \<and> copyout 0x80030000 0x5fff [7, 9] s = Ok (- 1) u"
proof -
  let ?pt = "0x80030000 :: u64"
  obtain s :: kst and P where s: "pt_ok (mem s) 2 ?pt P" "0 \<notin> P" "plain_range (mem s) ?pt P 0x5010 2"
    "user_range (mem s) ?pt 0x5010 2" "uva (mem s) ?pt 0x5000 = 0x80100000" "uva (mem s) ?pt 0x6000 = 0"
    "0x80100000 \<notin> P" by (rule demo_range)
  have l: "length [7, 9 :: u8] = 2" by simp
  have r: "PGROUNDDOWN 0x5010 = 0x5000" "PGROUNDDOWN 0x5011 = 0x5000" "PGROUNDDOWN 0x5fff = 0x5000" "PGROUNDDOWN 0x6000 = 0x6000"
    by (simp_all add: PGROUNDDOWN_def)
  have two: "(\<forall>i < 2. Q i) \<longleftrightarrow> Q 0 \<and> Q 1" for Q :: "nat \<Rightarrow> bool" by (auto simp: less_2_cases_iff)
  have ok: "user_ok (mem s) ?pt va n \<longleftrightarrow> user_range (mem s) ?pt va n" for va n
    unfolding user_range_def user_ok_def uva_leaf[OF s(1,2)] by (auto simp: Let_def linorder_not_le)
  have off: "off_tables (mem s) ?pt P 0x5fff 2" using s r by (simp add: off_tables_def two)
  have bad: "\<not> user_range (mem s) ?pt 0x5fff 2" using s(6) r by (simp add: user_range_def two)
  have up: "upa (mem s) ?pt 0x5010 = 0x80100010" "upa (mem s) ?pt 0x5011 = 0x80100011"
    using s(5) r by (simp_all add: upa_def)
  show ?thesis
    using user_pointers_checked[of s ?pt P "0x5010" "[7, 9]", unfolded l, OF s(1,2) plain_range_off[OF s(3)]]
      user_pointers_checked[of s ?pt P "0x5fff" "[7, 9]", unfolded l, OF s(1,2) off] s(4) bad up
    unfolding ok by (auto simp: upt_rec)
qed

section \<open>Strings\<close>

text \<open>The bytes of user memory at \<open>va\<close>, and the position of the first NUL among the first \<open>lim\<close>.\<close>

definition ubyte :: "memory \<Rightarrow> u64 \<Rightarrow> u64 \<Rightarrow> nat \<Rightarrow> u8" where
  "ubyte m pt va i = m (upa m pt (va + of_nat i))"

definition nul_at :: "memory \<Rightarrow> u64 \<Rightarrow> u64 \<Rightarrow> nat \<Rightarrow> nat \<Rightarrow> bool" where
  "nul_at m pt va lim k \<longleftrightarrow> k < lim \<and> user_range m pt va (Suc k) \<and> ubyte m pt va k = 0 \<and> (\<forall>i < k. ubyte m pt va i \<noteq> 0)"

lemma copyinstr_page_spec:
  "(case copyinstr_page m p n of (bs, got) \<Rightarrow>
      if got then \<exists>k < n. m (p + of_nat k) = 0 \<and> (\<forall>i < k. m (p + of_nat i) \<noteq> 0) \<and> bs = mslice m p (Suc k)
      else (\<forall>i < n. m (p + of_nat i) \<noteq> 0) \<and> bs = mslice m p n)"
proof (induction n arbitrary: p)
  case 0
  then show ?case by (simp add: mslice_def)
next
  case (Suc n)
  show ?case
  proof (cases "m p = 0")
    case True
    then show ?thesis by (auto simp: mslice_def intro!: exI[of _ 0])
  next
    case False
    obtain bs got where c: "copyinstr_page m (p + 1) n = (bs, got)" by fastforce
    have sh: "m (p + 1 + of_nat i) = m (p + of_nat (Suc i))" for i by (simp add: add.assoc)
    have all: "(\<forall>i < Suc k. m (p + of_nat i) \<noteq> 0) \<longleftrightarrow> (\<forall>i < k. m (p + 1 + of_nat i) \<noteq> 0)" for k
      using False unfolding sh by (auto simp: less_Suc_eq_0_disj simp del: of_nat_Suc)
    show ?thesis
    proof (cases got)
      case True
      with Suc.IH[of "p + 1"] c obtain k where "k < n" "m (p + 1 + of_nat k) = 0"
        "\<forall>i < k. m (p + 1 + of_nat i) \<noteq> 0" "bs = mslice m (p + 1) (Suc k)" by auto
      with c True False all[of k] sh[of k] show ?thesis
        by (auto simp: mslice_Cons[of m p "Suc k"] simp del: of_nat_Suc intro!: exI[of _ "Suc k"])
    next
      case F: False
      with Suc.IH[of "p + 1"] c False all[of n] show ?thesis
        by (simp add: mslice_Cons del: of_nat_Suc)
    qed
  qed
qed

lemma ubyte_chunk: "i < chunk va lim \<Longrightarrow>
    mem s (uva (mem s) pt (PGROUNDDOWN va) + (va - PGROUNDDOWN va) + of_nat i) = ubyte (mem s) pt va i"
  by (simp add: ubyte_def upa_in_page chunk_in_page)

lemma ubyte_next: "0 < lim \<Longrightarrow> i < lim - chunk va lim \<Longrightarrow>
    ubyte m pt (PGROUNDDOWN va + PGSIZE) i = ubyte m pt va (chunk va lim + i)"
  by (simp only: ubyte_def chunk_next)

text \<open>What \<open>copyinstr\<close> returns.\<close>

definition str_result :: "memory \<Rightarrow> u64 \<Rightarrow> u64 \<Rightarrow> nat \<Rightarrow> int \<times> bytes \<Rightarrow> bool" where
  "str_result m pt va lim r \<longleftrightarrow>
     (\<exists>k. nul_at m pt va lim k \<and> r = (0, map (ubyte m pt va) [0..<Suc k])) \<or>
     (\<not> (\<exists>k. nul_at m pt va lim k) \<and> fst r = - 1)"

lemma user_range_one_page:
  assumes "uva m pt (PGROUNDDOWN va) \<noteq> 0" and "k \<le> chunk va lim"
  shows "user_range m pt va k"
  using assms chunk_in_page[of _ va lim] by (auto simp: user_range_def round_in_page)

lemma user_range_first: "user_range m pt va (Suc k) \<Longrightarrow> uva m pt (PGROUNDDOWN va) \<noteq> 0"
  unfolding user_range_def by force

lemma nul_at_next:
  assumes "0 < lim" and "uva m pt (PGROUNDDOWN va) \<noteq> 0" and "\<forall>i < chunk va lim. ubyte m pt va i \<noteq> 0"
  shows "nul_at m pt va lim k \<longleftrightarrow>
         chunk va lim \<le> k \<and> nul_at m pt (PGROUNDDOWN va + PGSIZE) (lim - chunk va lim) (k - chunk va lim)"
proof (cases "chunk va lim \<le> k \<and> k < lim")
  case False
  then show ?thesis using assms(3) by (auto simp: nul_at_def)
next
  case True
  let ?n = "chunk va lim" and ?v = "PGROUNDDOWN va + PGSIZE"
  have n: "?n \<le> k" "k < lim" using True by auto
  have kl: "k - ?n < lim - ?n" "?n + (k - ?n) = k" using n by auto
  have c: "chunk va (Suc k) = ?n" using n unfolding chunk_eq by linarith
  have "user_range m pt va (Suc k) \<longleftrightarrow> user_range m pt ?v (Suc k - ?n)"
    using user_range_split[of "Suc k" m pt va] assms(2) unfolding c by simp
  moreover have "Suc k - ?n = Suc (k - ?n)" using n by simp
  moreover have "ubyte m pt ?v (k - ?n) = ubyte m pt va k" using ubyte_next[OF assms(1) kl(1), of m pt] kl(2) by simp
  moreover have "(\<forall>i < k. ubyte m pt va i \<noteq> 0) \<longleftrightarrow> (\<forall>i < k - ?n. ubyte m pt ?v i \<noteq> 0)"
  proof -
    have b: "ubyte m pt ?v i = ubyte m pt va (?n + i)" if "i < k - ?n" for i
      using ubyte_next[OF assms(1), of i va m pt] that n by simp
    have "(\<forall>i < k. ubyte m pt va i \<noteq> 0) \<longleftrightarrow> (\<forall>i. ?n \<le> i \<and> i < k \<longrightarrow> ubyte m pt va i \<noteq> 0)"
      using assms(3) by (meson not_less)
    also have "\<dots> \<longleftrightarrow> (\<forall>i < k - ?n. ubyte m pt va (?n + i) \<noteq> 0)"
      by (metis add.commute le_add1 le_add_diff_inverse less_diff_conv)
    finally show ?thesis using b by simp
  qed
  ultimately show ?thesis using n kl(1) by (simp add: nul_at_def)
qed

lemma str_result_next:
  assumes "0 < lim"
    and "\<And>k. nul_at m pt va lim k \<longleftrightarrow>
         chunk va lim \<le> k \<and> nul_at m pt (PGROUNDDOWN va + PGSIZE) (lim - chunk va lim) (k - chunk va lim)"
    and "str_result m pt (PGROUNDDOWN va + PGSIZE) (lim - chunk va lim) r"
  shows "str_result m pt va lim (fst r, map (ubyte m pt va) [0..<chunk va lim] @ snd r)"
proof -
  let ?n = "chunk va lim" and ?v = "PGROUNDDOWN va + PGSIZE"
  from assms(3)[unfolded str_result_def] show ?thesis
  proof
    assume "\<exists>k. nul_at m pt ?v (lim - ?n) k \<and> r = (0, map (ubyte m pt ?v) [0..<Suc k])"
    then obtain k where k: "nul_at m pt ?v (lim - ?n) k" "r = (0, map (ubyte m pt ?v) [0..<Suc k])" by blast
    have kl: "k < lim - ?n" using k(1) by (simp add: nul_at_def)
    have "map (ubyte m pt ?v) [0..<Suc k] = map (\<lambda>i. ubyte m pt va (?n + i)) [0..<Suc k]"
      using ubyte_next[OF assms(1), of _ va m pt] kl by (intro map_cong refl) auto
    also have "\<dots> = map (ubyte m pt va) [?n..<?n + Suc k]"
      by (intro nth_equalityI) (simp_all del: upt_Suc)
    finally have "map (ubyte m pt va) [0..<?n] @ snd r = map (ubyte m pt va) [0..<Suc (?n + k)]"
      using k(2) upt_add_eq_append[of 0 ?n "Suc k"] by (simp del: upt_Suc)
    moreover have "nul_at m pt va lim (?n + k)" using assms(2)[of "?n + k"] k(1) by simp
    ultimately show ?thesis using k(2) unfolding str_result_def by auto
  next
    assume "\<not> (\<exists>k. nul_at m pt ?v (lim - ?n) k) \<and> fst r = - 1"
    then show ?thesis using assms(2) by (simp add: str_result_def)
  qed
qed

lemma copyinstr_spec: "\<exists>r. copyinstr pt va lim s = Ok r s \<and> str_result (mem s) pt va lim r"
proof (induction lim arbitrary: va rule: less_induct)
  case (less lim)
  let ?n = "chunk va lim" and ?pa = "uva (mem s) pt (PGROUNDDOWN va)" and ?v = "PGROUNDDOWN va + PGSIZE"
  let ?a = "?pa + (va - PGROUNDDOWN va)"
  show ?case
  proof (cases "lim = 0 \<or> ?pa = 0")
    case True
    then have "copyinstr pt va lim s = Ok (- 1, []) s" by (subst copyinstr.simps) (auto simp: walkaddr_eq Let_def)
    moreover have "\<not> nul_at (mem s) pt va lim k" for k
      using True user_range_first[where m = "mem s" and pt = pt and va = va and k = k] by (auto simp: nul_at_def)
    ultimately show ?thesis by (auto simp: str_result_def)
  next
    case False
    then have pos: "0 < lim" and pa: "?pa \<noteq> 0" by auto
    obtain bs got where c: "copyinstr_page (mem s) ?a ?n = (bs, got)" by fastforce
    have e: "copyinstr pt va lim s = (if got then Ok (0, bs) s
        else bnd (copyinstr pt ?v (lim - ?n) s) (\<lambda>(r, cs) s. Ok (r, bs @ cs) s))"
      using pos pa c by (subst copyinstr.simps) (simp add: walkaddr_eq Let_def)
    have sl: "mslice (mem s) ?a j = map (ubyte (mem s) pt va) [0..<j]" if "j \<le> ?n" for j
      unfolding mslice_def using that ubyte_chunk[of _ va lim s pt] by auto
    show ?thesis
    proof (cases got)
      case True
      with copyinstr_page_spec[where m = "mem s" and p = ?a and n = ?n] c obtain k where k: "k < ?n" "mem s (?a + of_nat k) = 0"
        "\<forall>i < k. mem s (?a + of_nat i) \<noteq> 0" "bs = mslice (mem s) ?a (Suc k)" by auto
      then have "nul_at (mem s) pt va lim k"
        using chunk_le[of va lim] user_range_one_page[OF pa, of "Suc k" lim] ubyte_chunk[of _ va lim s pt]
        by (auto simp: nul_at_def)
      then show ?thesis using e True k(1,4) sl[of "Suc k"] by (auto simp: str_result_def)
    next
      case F: False
      with copyinstr_page_spec[where m = "mem s" and p = ?a and n = ?n] c have "\<forall>i < ?n. mem s (?a + of_nat i) \<noteq> 0"
        and bs: "bs = mslice (mem s) ?a ?n" by auto
      then have "\<forall>i < ?n. ubyte (mem s) pt va i \<noteq> 0" using ubyte_chunk[of _ va lim s pt] by auto
      note nn = nul_at_next[OF pos pa this]
      have "lim - ?n < lim" using chunk_pos[OF pos, of va] pos by simp
      from less.IH[OF this, of ?v] obtain r where r: "copyinstr pt ?v (lim - ?n) s = Ok r s"
        "str_result (mem s) pt ?v (lim - ?n) r" by blast
      have "str_result (mem s) pt va lim (fst r, bs @ snd r)"
        using str_result_next[OF pos nn r(2)] sl[OF order_refl] bs by simp
      then show ?thesis using e F r(1) by (auto simp: split_def)
    qed
  qed
qed

text \<open>C16: copyinstr reads a C string from user memory. It always returns and changes nothing. If
  some byte among the first lim bytes at va is NUL and all pages up to it are mapped for the
  user, the result is 0 and the bytes stored are the string including its NUL; otherwise the
  result is -1. In particular it never reads beyond the terminator or beyond lim bytes.\<close>
theorem copyinstr_reads_string:
  "\<exists>r. copyinstr pt va lim s = Ok r s \<and>
       (if \<exists>k. nul_at (mem s) pt va lim k
        then \<exists>k. nul_at (mem s) pt va lim k \<and> r = (0, map (ubyte (mem s) pt va) [0..<Suc k])
        else fst r = - 1)"
  using copyinstr_spec[of pt va lim s] by (auto simp: str_result_def)

end
