(* ===== verification/Kernel_Env.thy ===== *)
theory Kernel_Env
  imports Sleeplock
begin

text \<open>
  Kernel code run by one process on one CPU while only the block device acts beside it.
  \<open>env mp L s\<close> says that the CPU runs the process \<open>mp\<close> (the scheduler, for \<open>None\<close>), that it holds
  exactly the spin locks \<open>L\<close>, and that its interrupt bookkeeping agrees; \<open>body s\<close> is the state without
  the locks and that bookkeeping. The lemmas give, for \<open>acquire\<close>, \<open>release\<close>, \<open>myproc\<close>, \<open>wakeup\<close>,
  \<open>sleep\<close> and the sleep locks, the environment they leave and their effect on the body, so that the
  components above reason about their own fields.
\<close>

named_theorems body_simps \<open>the body of a state under updates\<close>

section \<open>The body of a state\<close>

definition body :: "kst \<Rightarrow> kst" where
  "body s = s\<lparr>sstatus := 0, cpus := (\<lambda>_. \<lparr>c_proc = None, c_noff = 0, c_intena = False\<rparr>),
              locks := (\<lambda>_. \<lparr>lk_locked = False, lk_name = [], lk_cpu = None\<rparr>)\<rparr>"

lemma body_select [simp]:
  "hart (body s) = hart s"
  "stvec (body s) = stvec s"
  "sepc (body s) = sepc s"
  "scause (body s) = scause s"
  "stval (body s) = stval s"
  "satp (body s) = satp s"
  "sip (body s) = sip s"
  "plic_claim_reg (body s) = plic_claim_reg s"
  "plic_writes (body s) = plic_writes s"
  "syms (body s) = syms s"
  "slocks (body s) = slocks s"
  "procs (body s) = procs s"
  "initproc (body s) = initproc s"
  "nextpid (body s) = nextpid s"
  "forkret_first (body s) = forkret_first s"
  "mem (body s) = mem s"
  "freelist (body s) = freelist s"
  "kernel_pagetable (body s) = kernel_pagetable s"
  "tfs (body s) = tfs s"
  "pipes (body s) = pipes s"
  "ticks (body s) = ticks s"
  "bufs (body s) = bufs s"
  "vdisk (body s) = vdisk s"
  "drv (body s) = drv s"
  "blk (body s) = blk s"
  "wtrace (body s) = wtrace s"
  "klog (body s) = klog s"
  "sb (body s) = sb s"
  "inodes (body s) = inodes s"
  "ftable (body s) = ftable s"
  "devsw (body s) = devsw s"
  "kcons (body s) = kcons s"
  "kuart (body s) = kuart s"
  "pr_locking (body s) = pr_locking s"
  "panicked (body s) = panicked s"
  "future (body s) = future s"
  by (simp_all add: body_def)

lemma body_update [body_simps]:
  "body (s\<lparr>hart := x_hart\<rparr>) = (body s)\<lparr>hart := x_hart\<rparr>"
  "body (s\<lparr>stvec := x_stvec\<rparr>) = (body s)\<lparr>stvec := x_stvec\<rparr>"
  "body (s\<lparr>sepc := x_sepc\<rparr>) = (body s)\<lparr>sepc := x_sepc\<rparr>"
  "body (s\<lparr>scause := x_scause\<rparr>) = (body s)\<lparr>scause := x_scause\<rparr>"
  "body (s\<lparr>stval := x_stval\<rparr>) = (body s)\<lparr>stval := x_stval\<rparr>"
  "body (s\<lparr>satp := x_satp\<rparr>) = (body s)\<lparr>satp := x_satp\<rparr>"
  "body (s\<lparr>sip := x_sip\<rparr>) = (body s)\<lparr>sip := x_sip\<rparr>"
  "body (s\<lparr>plic_claim_reg := x_plic_claim_reg\<rparr>) = (body s)\<lparr>plic_claim_reg := x_plic_claim_reg\<rparr>"
  "body (s\<lparr>plic_writes := x_plic_writes\<rparr>) = (body s)\<lparr>plic_writes := x_plic_writes\<rparr>"
  "body (s\<lparr>syms := x_syms\<rparr>) = (body s)\<lparr>syms := x_syms\<rparr>"
  "body (s\<lparr>slocks := x_slocks\<rparr>) = (body s)\<lparr>slocks := x_slocks\<rparr>"
  "body (s\<lparr>procs := x_procs\<rparr>) = (body s)\<lparr>procs := x_procs\<rparr>"
  "body (s\<lparr>initproc := x_initproc\<rparr>) = (body s)\<lparr>initproc := x_initproc\<rparr>"
  "body (s\<lparr>nextpid := x_nextpid\<rparr>) = (body s)\<lparr>nextpid := x_nextpid\<rparr>"
  "body (s\<lparr>forkret_first := x_forkret_first\<rparr>) = (body s)\<lparr>forkret_first := x_forkret_first\<rparr>"
  "body (s\<lparr>mem := x_mem\<rparr>) = (body s)\<lparr>mem := x_mem\<rparr>"
  "body (s\<lparr>freelist := x_freelist\<rparr>) = (body s)\<lparr>freelist := x_freelist\<rparr>"
  "body (s\<lparr>kernel_pagetable := x_kernel_pagetable\<rparr>) = (body s)\<lparr>kernel_pagetable := x_kernel_pagetable\<rparr>"
  "body (s\<lparr>tfs := x_tfs\<rparr>) = (body s)\<lparr>tfs := x_tfs\<rparr>"
  "body (s\<lparr>pipes := x_pipes\<rparr>) = (body s)\<lparr>pipes := x_pipes\<rparr>"
  "body (s\<lparr>ticks := x_ticks\<rparr>) = (body s)\<lparr>ticks := x_ticks\<rparr>"
  "body (s\<lparr>bufs := x_bufs\<rparr>) = (body s)\<lparr>bufs := x_bufs\<rparr>"
  "body (s\<lparr>vdisk := x_vdisk\<rparr>) = (body s)\<lparr>vdisk := x_vdisk\<rparr>"
  "body (s\<lparr>drv := x_drv\<rparr>) = (body s)\<lparr>drv := x_drv\<rparr>"
  "body (s\<lparr>blk := x_blk\<rparr>) = (body s)\<lparr>blk := x_blk\<rparr>"
  "body (s\<lparr>wtrace := x_wtrace\<rparr>) = (body s)\<lparr>wtrace := x_wtrace\<rparr>"
  "body (s\<lparr>klog := x_klog\<rparr>) = (body s)\<lparr>klog := x_klog\<rparr>"
  "body (s\<lparr>sb := x_sb\<rparr>) = (body s)\<lparr>sb := x_sb\<rparr>"
  "body (s\<lparr>inodes := x_inodes\<rparr>) = (body s)\<lparr>inodes := x_inodes\<rparr>"
  "body (s\<lparr>ftable := x_ftable\<rparr>) = (body s)\<lparr>ftable := x_ftable\<rparr>"
  "body (s\<lparr>devsw := x_devsw\<rparr>) = (body s)\<lparr>devsw := x_devsw\<rparr>"
  "body (s\<lparr>kcons := x_kcons\<rparr>) = (body s)\<lparr>kcons := x_kcons\<rparr>"
  "body (s\<lparr>kuart := x_kuart\<rparr>) = (body s)\<lparr>kuart := x_kuart\<rparr>"
  "body (s\<lparr>pr_locking := x_pr_locking\<rparr>) = (body s)\<lparr>pr_locking := x_pr_locking\<rparr>"
  "body (s\<lparr>panicked := x_panicked\<rparr>) = (body s)\<lparr>panicked := x_panicked\<rparr>"
  "body (s\<lparr>future := x_future\<rparr>) = (body s)\<lparr>future := x_future\<rparr>"
  "body (s\<lparr>sstatus := x1\<rparr>) = body s"
  "body (s\<lparr>cpus := x2\<rparr>) = body s"
  "body (s\<lparr>locks := x3\<rparr>) = body s"
  by (simp_all add: body_def)

lemma body_body [body_simps]: "body (body s) = body s"
  by (simp add: body_def)

lemma body_lock [body_simps]:
  "body (acq l s) = body s" "body (rel l s) = body s" "body (settle s) = body s" "body (upd_cpu f s) = body s"
  "body (intr_on s) = body s"
  by (simp_all add: acq_def rel_def settle_def upd_cpu_def intr_on_def body_simps Let_def)

lemma body_eqD:
  assumes "body t = u"
  shows
  "hart t = hart u"
  "stvec t = stvec u"
  "sepc t = sepc u"
  "scause t = scause u"
  "stval t = stval u"
  "satp t = satp u"
  "sip t = sip u"
  "plic_claim_reg t = plic_claim_reg u"
  "plic_writes t = plic_writes u"
  "syms t = syms u"
  "slocks t = slocks u"
  "procs t = procs u"
  "initproc t = initproc u"
  "nextpid t = nextpid u"
  "forkret_first t = forkret_first u"
  "mem t = mem u"
  "freelist t = freelist u"
  "kernel_pagetable t = kernel_pagetable u"
  "tfs t = tfs u"
  "pipes t = pipes u"
  "ticks t = ticks u"
  "bufs t = bufs u"
  "vdisk t = vdisk u"
  "drv t = drv u"
  "blk t = blk u"
  "wtrace t = wtrace u"
  "klog t = klog u"
  "sb t = sb u"
  "inodes t = inodes u"
  "ftable t = ftable u"
  "devsw t = devsw u"
  "kcons t = kcons u"
  "kuart t = kuart u"
  "pr_locking t = pr_locking u"
  "panicked t = panicked u"
  "future t = future u"
  using assms by auto

section \<open>The CPU and its locks\<close>

definition env :: "nat option \<Rightarrow> lockid set \<Rightarrow> kst \<Rightarrow> bool" where
  "env mp L s \<longleftrightarrow>
     c_proc (cpus s (hart s)) = mp \<and> finite L \<and> c_noff (cpus s (hart s)) = card L \<and>
     (\<forall>l. lk_locked (locks s l) = (l \<in> L) \<and> lk_cpu (locks s l) = (if l \<in> L then Some (hart s) else None)) \<and>
     (L \<noteq> {} \<longrightarrow> \<not> intr_get s)"

lemma env_update [body_simps]:
  "env mp L (s\<lparr>stvec := x_stvec\<rparr>) = env mp L s"
  "env mp L (s\<lparr>sepc := x_sepc\<rparr>) = env mp L s"
  "env mp L (s\<lparr>scause := x_scause\<rparr>) = env mp L s"
  "env mp L (s\<lparr>stval := x_stval\<rparr>) = env mp L s"
  "env mp L (s\<lparr>satp := x_satp\<rparr>) = env mp L s"
  "env mp L (s\<lparr>sip := x_sip\<rparr>) = env mp L s"
  "env mp L (s\<lparr>plic_claim_reg := x_plic_claim_reg\<rparr>) = env mp L s"
  "env mp L (s\<lparr>plic_writes := x_plic_writes\<rparr>) = env mp L s"
  "env mp L (s\<lparr>syms := x_syms\<rparr>) = env mp L s"
  "env mp L (s\<lparr>slocks := x_slocks\<rparr>) = env mp L s"
  "env mp L (s\<lparr>procs := x_procs\<rparr>) = env mp L s"
  "env mp L (s\<lparr>initproc := x_initproc\<rparr>) = env mp L s"
  "env mp L (s\<lparr>nextpid := x_nextpid\<rparr>) = env mp L s"
  "env mp L (s\<lparr>forkret_first := x_forkret_first\<rparr>) = env mp L s"
  "env mp L (s\<lparr>mem := x_mem\<rparr>) = env mp L s"
  "env mp L (s\<lparr>freelist := x_freelist\<rparr>) = env mp L s"
  "env mp L (s\<lparr>kernel_pagetable := x_kernel_pagetable\<rparr>) = env mp L s"
  "env mp L (s\<lparr>tfs := x_tfs\<rparr>) = env mp L s"
  "env mp L (s\<lparr>pipes := x_pipes\<rparr>) = env mp L s"
  "env mp L (s\<lparr>ticks := x_ticks\<rparr>) = env mp L s"
  "env mp L (s\<lparr>bufs := x_bufs\<rparr>) = env mp L s"
  "env mp L (s\<lparr>vdisk := x_vdisk\<rparr>) = env mp L s"
  "env mp L (s\<lparr>drv := x_drv\<rparr>) = env mp L s"
  "env mp L (s\<lparr>blk := x_blk\<rparr>) = env mp L s"
  "env mp L (s\<lparr>wtrace := x_wtrace\<rparr>) = env mp L s"
  "env mp L (s\<lparr>klog := x_klog\<rparr>) = env mp L s"
  "env mp L (s\<lparr>sb := x_sb\<rparr>) = env mp L s"
  "env mp L (s\<lparr>inodes := x_inodes\<rparr>) = env mp L s"
  "env mp L (s\<lparr>ftable := x_ftable\<rparr>) = env mp L s"
  "env mp L (s\<lparr>devsw := x_devsw\<rparr>) = env mp L s"
  "env mp L (s\<lparr>kcons := x_kcons\<rparr>) = env mp L s"
  "env mp L (s\<lparr>kuart := x_kuart\<rparr>) = env mp L s"
  "env mp L (s\<lparr>pr_locking := x_pr_locking\<rparr>) = env mp L s"
  "env mp L (s\<lparr>panicked := x_panicked\<rparr>) = env mp L s"
  "env mp L (s\<lparr>future := x_future\<rparr>) = env mp L s"
  by (simp_all add: env_def holding_def cpuid_def free_lock_def intr_get_def)

lemma env_cpu_ok: "env mp L s \<Longrightarrow> cpu_ok s"
  by (auto simp: env_def cpu_ok_def)

lemma env_ready: "env mp L s \<Longrightarrow> l \<in> L \<Longrightarrow> ready l s"
  by (auto simp: env_def ready_def holding_def cpuid_def Suc_le_eq card_gt_0_iff)

lemma env_acquire:
  assumes "env mp L s" and "l \<notin> L"
  shows "acquire l s = Ok () (acq l s)" and "env mp (insert l L) (acq l s)"
proof -
  show "acquire l s = Ok () (acq l s)" using assms by (simp add: acquire_free env_def)
  show "env mp (insert l L) (acq l s)"
    using assms by (simp add: env_def acq_def intr_get_def word_simps Let_def)
qed

lemma env_release:
  assumes "env mp L s" and "l \<in> L"
  shows "release l s = Ok () (rel l s)" and "env mp (L - {l}) (rel l s)"
proof -
  show "release l s = Ok () (rel l s)" using env_ready[OF assms] by (rule release_ready)
  have "card L = 1 \<longrightarrow> L - {l} = {}" using assms(2) by (auto simp: card_1_singleton_iff)
  then show "env mp (L - {l}) (rel l s)"
    using assms by (auto simp: env_def rel_def intr_get_def card_Diff_singleton Let_def)
qed

lemma env_settle: "env mp L s \<Longrightarrow> env mp L (settle s)"
  by (simp add: env_def lock_simps)

lemma env_myproc: "env mp L s \<Longrightarrow> myproc s = Ok mp (settle s)"
  by (subst myproc_eq, erule env_cpu_ok) (auto simp: env_def)

lemma env_curproc: "env (Some p) L s \<Longrightarrow> curproc s = Ok p (settle s)"
  by (simp add: curproc_def env_myproc)

section \<open>Waking and sleeping\<close>

text \<open>The processes that \<open>wakeup\<close> makes runnable.\<close>

definition woken :: "nat set \<Rightarrow> chan option \<Rightarrow> (nat \<Rightarrow> proc) \<Rightarrow> nat \<Rightarrow> proc" where
  "woken Q c ps = (\<lambda>q. if q \<in> Q \<and> p_state (ps q) = SLEEPING \<and> p_chan (ps q) = c
                       then (ps q)\<lparr>p_state := RUNNABLE\<rparr> else ps q)"

lemma upd_proc_env [body_simps]: "env mp L (upd_proc p f s) = env mp L s"
  by (simp add: upd_proc_def body_simps)

lemma wakeup_one_env:
  assumes "env mp L s" and "\<And>q. Lproc q \<notin> L"
  shows "wp (wakeup_one c p s) (\<lambda>_ t. env mp L t \<and>
           body t = (body s)\<lparr>procs := woken ({p} - set_option mp) c (procs s)\<rparr>)"
proof (cases "mp = Some p")
  case True
  then have "woken ({p} - set_option mp) c (procs s) = procs s" by (simp add: woken_def)
  with True assms(1) show ?thesis by (simp add: wakeup_one_def env_myproc env_settle body_simps)
next
  case False
  let ?u = "acq (Lproc p) (settle s)"
  let ?v = "if p_state (procs s p) = SLEEPING \<and> p_chan (procs s p) = c
            then upd_proc p (\<lambda>q. q\<lparr>p_state := RUNNABLE\<rparr>) ?u else ?u"
  have u: "env mp (insert (Lproc p) L) ?u"
    and a: "acquire (Lproc p) (settle s) = Ok () ?u"
    using env_acquire[OF env_settle[OF assms(1)] assms(2)] by auto
  then have v: "env mp (insert (Lproc p) L) ?v" by (simp add: body_simps)
  have "env mp L (rel (Lproc p) ?v)" and r: "release (Lproc p) ?v = Ok () (rel (Lproc p) ?v)"
    using env_release[OF v, of "Lproc p"] assms(2) by auto
  moreover have "body ?v = (body s)\<lparr>procs := woken ({p} - set_option mp) c (procs s)\<rparr>"
    using False by (auto simp: woken_def upd_proc_def body_simps lock_simps fun_eq_iff)
  ultimately show ?thesis
    using False assms(1)
    by (simp add: wakeup_one_def env_myproc a acq_select settle_select body_simps Let_def cong: if_cong)
qed

lemma woken_woken: "woken Q c (woken P c ps) = woken (P \<union> Q) c ps"
  by (auto simp: woken_def fun_eq_iff)

lemma wakeup_ptr_env:
  assumes "env mp L s" and L: "\<And>q. Lproc q \<notin> L"
  shows "wp (wakeup_ptr c s) (\<lambda>_ t. env mp L t \<and>
           body t = (body s)\<lparr>procs := woken ({0..<64} - set_option mp) c (procs s)\<rparr>)"
proof -
  have "wp (for_each qs (wakeup_one c) s) (\<lambda>_ t. env mp L t \<and>
      body t = (body s)\<lparr>procs := woken (set qs - set_option mp) c (procs s)\<rparr>)" for qs
    using assms(1)
  proof (induction qs arbitrary: s)
    case Nil
    then show ?case by (simp add: woken_def)
  next
    case (Cons q qs)
    show ?case
      unfolding for_each.simps wp_bnd
    proof (rule wp_mono[OF wakeup_one_env[OF Cons.prems L]], elim conjE)
      fix t assume e: "env mp L t"
        and b: "body t = (body s)\<lparr>procs := woken ({q} - set_option mp) c (procs s)\<rparr>"
      have "woken (set qs - set_option mp) c (procs t) = woken (set (q # qs) - set_option mp) c (procs s)"
        using body_eqD(12)[OF b] by (simp add: woken_woken) (rule arg_cong[where f = "\<lambda>Q. woken Q c (procs s)"], auto)
      then show "wp (for_each qs (wakeup_one c) t) (\<lambda>_ t. env mp L t \<and>
          body t = (body s)\<lparr>procs := woken (set (q # qs) - set_option mp) c (procs s)\<rparr>)"
        using Cons.IH[OF e] b by simp
    qed
  qed
  from this[of "[0..<64]"] show ?thesis by (simp add: wakeup_ptr_def)
qed

lemmas wakeup_env = wakeup_ptr_env[where c = "Some ch" for ch, folded wakeup_def]

lemma env_upd_cpu_proc: "env mp L s \<Longrightarrow> env mp' L (upd_cpu (\<lambda>c. c\<lparr>c_proc := mp'\<rparr>) s)"
  by (simp add: env_def upd_cpu_def intr_get_def)

lemma env_intena: "env mp L s \<Longrightarrow> env mp L (upd_cpu (\<lambda>c. c\<lparr>c_intena := b\<rparr>) s)"
  by (simp add: env_def upd_cpu_def intr_get_def)

lemma env_intr_on: "env mp {} s \<Longrightarrow> env mp {} (intr_on s)"
  by (simp add: env_def intr_on_def)

text \<open>
  A process that gives up the CPU gets it back when the device's interrupt makes it runnable;
  \<open>R\<close> is what is known of the machine then.
\<close>

lemma swtch_env:
  assumes "env (Some p) {Lproc p} s" and "future s = []"
    and "\<And>u. env None {} u \<Longrightarrow> body u = body s \<Longrightarrow>
           wp (disk_irq (dev_run u)) (\<lambda>_ v. env None {} v \<and> p_state (procs v p) = RUNNABLE \<and> R (body v))"
  shows "wp (swtch p s) (\<lambda>_ t. env (Some p) {Lproc p} t \<and> (\<exists>v. R v \<and>
           body t = v\<lparr>procs := (procs v)(p := (procs v p)\<lparr>p_state := RUNNING\<rparr>)\<rparr>))"
proof -
  let ?a = "upd_cpu (\<lambda>c. c\<lparr>c_proc := None\<rparr>) s"
  let ?u = "intr_on (rel (Lproc p) ?a)"
  have a: "env None {Lproc p} ?a" using env_upd_cpu_proc[OF assms(1)] .
  have u: "env None {} ?u" using env_intr_on env_release(2)[OF a] by simp
  have out: "scheduler_out p s = Ok () ?u"
    using env_release(1)[OF a] by (simp add: scheduler_out_def)
  have bu: "body ?u = body s" by (simp add: body_simps)
  have "others ?u = disk_irq (dev_run ?u)"
    using assms(2) body_eqD(36)[OF bu] by (simp add: others_def)
  with assms(3)[OF u bu] have "wp (others ?u) (\<lambda>_ v. env None {} v \<and> p_state (procs v p) = RUNNABLE \<and> R (body v))"
    by simp
  then show ?thesis
    unfolding swtch_def out bnd.simps wp_bnd
  proof (rule wp_mono, elim conjE)
    fix v assume v: "env None {} v" and st: "p_state (procs v p) = RUNNABLE" and R: "R (body v)"
    let ?w = "upd_proc p (\<lambda>q. q\<lparr>p_state := RUNNING\<rparr>) (acq (Lproc p) v)"
    have w: "env None {Lproc p} ?w" using env_acquire(2)[OF v, of "Lproc p"] by (simp add: body_simps)
    have "scheduler_in p v = Ok True (upd_cpu (\<lambda>c. c\<lparr>c_proc := Some p\<rparr>) ?w)"
      using env_acquire(1)[OF v, of "Lproc p"] st by (simp add: scheduler_in_def acq_select)
    moreover have "env (Some p) {Lproc p} (upd_cpu (\<lambda>c. c\<lparr>c_proc := Some p\<rparr>) ?w)"
      by (rule env_upd_cpu_proc[OF w])
    moreover have "body ?w = (body v)\<lparr>procs := (procs v)(p := (procs v p)\<lparr>p_state := RUNNING\<rparr>)\<rparr>"
      by (simp add: upd_proc_def body_simps lock_simps)
    ultimately show "wp (scheduler_in p v) (\<lambda>run s. wp (if run then Ok () s else Sleep s)
        (\<lambda>_ t. env (Some p) {Lproc p} t \<and> (\<exists>v. R v \<and>
           body t = v\<lparr>procs := (procs v)(p := (procs v p)\<lparr>p_state := RUNNING\<rparr>)\<rparr>)))"
      using R by (auto simp: body_simps intro!: exI[of _ "body v"])
  qed
qed

lemma sched_env:
  assumes "env (Some p) {Lproc p} s" and "p_state (procs s p) \<noteq> RUNNING"
  shows "sched s = bnd (swtch p (settle s)) (\<lambda>_ t.
           Ok () (upd_cpu (\<lambda>c. c\<lparr>c_intena := c_intena (mycpu (settle s))\<rparr>) t))"
proof -
  have e: "env (Some p) {Lproc p} (settle s)" using assms(1) by (rule env_settle)
  then have "holding (Lproc p) (settle s)" "c_noff (mycpu (settle s)) = 1" "\<not> intr_get (settle s)"
    by (simp_all add: env_def holding_def mycpu_def cpuid_def)
  then show ?thesis
    using assms by (simp add: sched_def env_curproc settle_select)
qed

lemma sleep_env:
  assumes e: "env (Some p) {lk} s" and "future s = []" and lk: "\<And>q. lk \<noteq> Lproc q"
    and H: "\<And>u. env None {} u \<Longrightarrow>
           body u = (body s)\<lparr>procs := (procs s)(p := (procs s p)\<lparr>p_chan := Some chan, p_state := SLEEPING\<rparr>)\<rparr> \<Longrightarrow>
           wp (disk_irq (dev_run u)) (\<lambda>_ v. env None {} v \<and> p_state (procs v p) = RUNNABLE \<and> R (body v))"
  shows "wp (sleep chan lk s) (\<lambda>_ t. env (Some p) {lk} t \<and> (\<exists>v. R v \<and>
           body t = v\<lparr>procs := (procs v)(p := (procs v p)\<lparr>p_state := RUNNING, p_chan := None\<rparr>)\<rparr>))"
proof -
  let ?a = "acq (Lproc p) (settle s)"
  let ?b = "rel lk ?a"
  let ?c = "upd_proc p (\<lambda>q. q\<lparr>p_state := SLEEPING\<rparr>) (upd_proc p (\<lambda>q. q\<lparr>p_chan := Some chan\<rparr>) ?b)"
  have a: "env (Some p) (insert (Lproc p) {lk}) ?a" and A: "acquire (Lproc p) (settle s) = Ok () ?a"
    using env_acquire[OF env_settle[OF e], of "Lproc p"] lk by auto
  have b: "env (Some p) {Lproc p} ?b" and B: "release lk ?a = Ok () ?b"
    using env_release[OF a, of lk] lk[of p, symmetric] by (simp_all add: insert_Diff_if)
  have c: "env (Some p) {Lproc p} ?c" using b by (simp add: body_simps)
  have "body ?c = (body s)\<lparr>procs := (procs s)(p := (procs s p)\<lparr>p_chan := Some chan, p_state := SLEEPING\<rparr>)\<rparr>"
    by (simp add: upd_proc_def body_simps lock_simps)
  then have bc: "body (settle ?c) = (body s)\<lparr>procs := (procs s)(p := (procs s p)\<lparr>p_chan := Some chan, p_state := SLEEPING\<rparr>)\<rparr>"
    by (simp add: body_simps)
  have fu: "future (settle ?c) = []" using body_eqD(36)[OF bc] assms(2) by simp
  have st: "p_state (procs ?c p) \<noteq> RUNNING" by (simp add: upd_proc_def)
  have sw: "wp (swtch p (settle ?c)) (\<lambda>_ t. env (Some p) {Lproc p} t \<and> (\<exists>v. R v \<and>
      body t = v\<lparr>procs := (procs v)(p := (procs v p)\<lparr>p_state := RUNNING\<rparr>)\<rparr>))"
    by (rule swtch_env[OF env_settle[OF c] fu]) (use H bc in simp)
  have "sleep chan lk s = bnd (swtch p (settle ?c)) (\<lambda>_ t.
      let t = upd_proc p (\<lambda>q. q\<lparr>p_chan := None\<rparr>) (upd_cpu (\<lambda>x. x\<lparr>c_intena := c_intena (mycpu (settle ?c))\<rparr>) t)
      in bnd (release (Lproc p) t) (\<lambda>_ t. acquire lk t))"
    by (simp add: sleep_def env_curproc[OF e] A B sched_env[OF c st] bnd_assoc)
  also have "wp \<dots> (\<lambda>_ t. env (Some p) {lk} t \<and> (\<exists>v. R v \<and>
      body t = v\<lparr>procs := (procs v)(p := (procs v p)\<lparr>p_state := RUNNING, p_chan := None\<rparr>)\<rparr>))"
    unfolding wp_bnd
  proof (rule wp_mono[OF sw], elim conjE exE)
    fix t v assume t: "env (Some p) {Lproc p} t" and R: "R v"
      and bt: "body t = v\<lparr>procs := (procs v)(p := (procs v p)\<lparr>p_state := RUNNING\<rparr>)\<rparr>"
    let ?d = "upd_proc p (\<lambda>q. q\<lparr>p_chan := None\<rparr>) (upd_cpu (\<lambda>x. x\<lparr>c_intena := c_intena (mycpu (settle ?c))\<rparr>) t)"
    have d: "env (Some p) {Lproc p} ?d" using env_intena[OF t] by (simp add: body_simps)
    have r: "env (Some p) {} (rel (Lproc p) ?d)" and Rl: "release (Lproc p) ?d = Ok () (rel (Lproc p) ?d)"
      using env_release[OF d, of "Lproc p"] by simp_all
    have "body ?d = v\<lparr>procs := (procs v)(p := (procs v p)\<lparr>p_state := RUNNING, p_chan := None\<rparr>)\<rparr>"
      using body_eqD(12)[OF bt] by (simp add: upd_proc_def upd_cpu_def body_simps bt)
    then show "wp (let t = ?d in bnd (release (Lproc p) t) (\<lambda>_ t. acquire lk t)) (\<lambda>_ t. env (Some p) {lk} t \<and>
        (\<exists>v. R v \<and> body t = v\<lparr>procs := (procs v)(p := (procs v p)\<lparr>p_state := RUNNING, p_chan := None\<rparr>)\<rparr>))"
      using env_acquire[OF r, of lk] Rl R by (auto simp: body_simps)
  qed
  finally show ?thesis .
qed

section \<open>Sleep locks\<close>

lemma upd_slock_simps [body_simps]:
  "env mp L (upd_slock l f s) = env mp L s"
  "body (upd_slock l f s) = (body s)\<lparr>slocks := (slocks s)(l := f (slocks s l))\<rparr>"
  by (simp_all add: upd_slock_def body_simps)

lemma acquiresleep_env:
  assumes "env (Some p) {} s" and "\<not> sl_locked (slocks s lk)"
  shows "wp (acquiresleep lk s) (\<lambda>_ t. env (Some p) {} t \<and> body t = (body s)\<lparr>slocks := (slocks s)(lk :=
           (slocks s lk)\<lparr>sl_locked := True, sl_pid := p_pid (procs s p)\<rparr>)\<rparr>)"
proof -
  let ?b = "upd_slock lk (\<lambda>l. l\<lparr>sl_locked := True\<rparr>) (acq (Lsleep lk) s)"
  let ?c = "upd_slock lk (\<lambda>l. l\<lparr>sl_pid := p_pid (procs (settle ?b) p)\<rparr>) (settle ?b)"
  have b: "env (Some p) {Lsleep lk} ?b" and A: "acquire (Lsleep lk) s = Ok () (acq (Lsleep lk) s)"
    using env_acquire[OF assms(1), of "Lsleep lk"] by (simp_all add: body_simps)
  have c: "env (Some p) {Lsleep lk} ?c" using env_settle[OF b] by (simp add: body_simps)
  have "acquiresleep_loop lk (acq (Lsleep lk) s) = Ok () (acq (Lsleep lk) s)"
    using assms(2) by (simp add: acquiresleep_loop.simps acq_select)
  then have "acquiresleep lk s = Ok () (rel (Lsleep lk) ?c)"
    using env_release(1)[OF c] A env_curproc[OF b] by (simp add: acquiresleep_def)
  moreover have "env (Some p) {} (rel (Lsleep lk) ?c)" using env_release(2)[OF c, of "Lsleep lk"] by simp
  moreover have "body ?c = (body s)\<lparr>slocks := (slocks s)(lk :=
      (slocks s lk)\<lparr>sl_locked := True, sl_pid := p_pid (procs s p)\<rparr>)\<rparr>"
    by (simp add: body_simps lock_simps) (simp add: upd_slock_def lock_simps)
  ultimately show ?thesis by (simp add: body_simps)
qed

lemma releasesleep_env:
  assumes "env (Some p) {} s"
  shows "wp (releasesleep lk s) (\<lambda>_ t. env (Some p) {} t \<and> body t = (body s)\<lparr>
           slocks := (slocks s)(lk := (slocks s lk)\<lparr>sl_locked := False, sl_pid := 0\<rparr>),
           procs := woken ({0..<64} - {p}) (Some (Csleeplock lk)) (procs s)\<rparr>)"
proof -
  let ?a = "upd_slock lk (\<lambda>l. l\<lparr>sl_locked := False, sl_pid := 0\<rparr>) (acq (Lsleep lk) s)"
  have a: "env (Some p) {Lsleep lk} ?a" and A: "acquire (Lsleep lk) s = Ok () (acq (Lsleep lk) s)"
    using env_acquire[OF assms(1), of "Lsleep lk"] by (simp_all add: body_simps)
  have "wp (wakeup (Csleeplock lk) ?a) (\<lambda>_ t. env (Some p) {Lsleep lk} t \<and>
      body t = (body ?a)\<lparr>procs := woken ({0..<64} - {p}) (Some (Csleeplock lk)) (procs ?a)\<rparr>)"
    using wakeup_env[OF a] by simp
  moreover have "procs ?a = procs s" by (simp add: upd_slock_def lock_simps)
  moreover have "wp (release (Lsleep lk) t) (\<lambda>_ t. env (Some p) {} t \<and> body t = B)"
    if "env (Some p) {Lsleep lk} t" "body t = B" for t B
    using env_release[OF that(1), of "Lsleep lk"] that(2) by (simp add: body_simps)
  ultimately show ?thesis
    unfolding releasesleep_def A bnd.simps Let_def wp_bnd
    by (elim wp_mono) (auto simp: body_simps lock_simps)
qed

lemma holdingsleep_env:
  assumes "env (Some p) {} s"
  shows "wp (holdingsleep lk s) (\<lambda>r t. env (Some p) {} t \<and> body t = body s \<and>
           (r \<longleftrightarrow> sl_locked (slocks s lk) \<and> sl_pid (slocks s lk) = p_pid (procs s p)))"
proof -
  let ?a = "acq (Lsleep lk) s"
  have a: "env (Some p) {Lsleep lk} ?a" and A: "acquire (Lsleep lk) s = Ok () ?a"
    using env_acquire[OF assms(1), of "Lsleep lk"] by simp_all
  show ?thesis
    using env_release[OF a, of "Lsleep lk"] env_release[OF env_settle[OF a], of "Lsleep lk"]
    by (cases "sl_locked (slocks s lk)")
      (simp_all add: holdingsleep_def A env_curproc[OF a] acq_select settle_select body_simps)
qed

end
