(* ===== verification/Disk_Rw.thy ===== *)
theory Disk_Rw
  imports Virtio Kernel_Env
begin

text \<open>
  Correctness of \<open>virtio_disk_rw\<close> with a conforming device: from a state in which no request is
  outstanding, the driver builds the descriptor chain, the device carries it out, the interrupt
  handler wakes the process, and the descriptors are free again. The effect is that of reading
  or writing one block of the drive.
\<close>

section \<open>Blocks of the drive\<close>

definition dblock :: "drive \<Rightarrow> nat \<Rightarrow> bytes" where
  "dblock d n = map (\<lambda>i. d (1024 * n + i)) [0..<1024]"

definition dput :: "drive \<Rightarrow> nat \<Rightarrow> bytes \<Rightarrow> drive" where
  "dput d n bs = (\<lambda>j. if 1024 * n \<le> j \<and> j < 1024 * n + 1024 then bs ! (j - 1024 * n) else d j)"

lemma length_dblock [simp]: "length (dblock d n) = 1024"
  by (simp add: dblock_def)

lemma dblock_dput: "length bs = 1024 \<Longrightarrow> dblock (dput d n bs) m = (if m = n then bs else dblock d m)"
  by (intro nth_equalityI) (auto simp: dblock_def dput_def)

lemma dput_dblock: "dput d n (dblock d n) = d"
  by (auto simp: dput_def dblock_def fun_eq_iff)

lemma dput_dput: "dput (dput d n xs) n ys = dput d n ys"
  by (auto simp: dput_def fun_eq_iff)

lemma sector_of_block: "n < 2 ^ 31 \<Longrightarrow> unat (ucast ((of_nat n :: u32) * 2) :: u64) = 2 * n"
  by (simp add: unsigned_ucast_eq unat_word_ariths unat_of_nat take_bit_eq_mod)

section \<open>A process in the kernel\<close>

text \<open>Other processes may at most have been made runnable.\<close>

definition stirred :: "nat \<Rightarrow> kst \<Rightarrow> kst \<Rightarrow> bool" where
  "stirred p s t \<longleftrightarrow> procs t p = procs s p \<and>
     (\<forall>q. procs t q = procs s q \<or>
          p_state (procs s q) = SLEEPING \<and> procs t q = (procs s q)\<lparr>p_state := RUNNABLE\<rparr>)"

definition running :: "nat \<Rightarrow> lockid set \<Rightarrow> kst \<Rightarrow> bool" where
  "running p L s \<longleftrightarrow> env (Some p) L s \<and> p < 64 \<and> future s = [] \<and>
     p_state (procs s p) = RUNNING \<and> p_chan (procs s p) = None"

lemma stirred_refl [simp]: "stirred p s s"
  by (simp add: stirred_def)

lemma stirred_trans: "stirred p s t \<Longrightarrow> stirred p t u \<Longrightarrow> stirred p s u"
  unfolding stirred_def by (metis procstate.distinct(15) proc.select_convs(1) proc.surjective proc.update_convs(1))

lemma stirred_woken: "p \<notin> Q \<Longrightarrow> procs t = woken Q c (procs s) \<Longrightarrow> stirred p s t"
  by (auto simp: stirred_def woken_def)

section \<open>The device carries out one request\<close>

definition disk_ready :: "kst \<Rightarrow> bool" where
  "disk_ready s \<longleftrightarrow> (\<forall>i<8. d_free (vdisk s) i) \<and> d_used_idx_dev (vdisk s) = d_avail_idx (vdisk s) \<and>
     d_used_idx (vdisk s) = d_avail_idx (vdisk s) \<and> d_isr (vdisk s) = 0 \<and> blk_conforms (blk s)"

text \<open>The chain 0, 1, 2 holds a request for buffer \<open>b\<close>, and nothing else is outstanding.\<close>

definition submitted :: "nat \<Rightarrow> bool \<Rightarrow> kst \<Rightarrow> bool" where
  "submitted b write s \<longleftrightarrow>
     (let d = vdisk s; n = b_blockno (bufs s b) in
      d_avail_idx d = d_used_idx_dev d + 1 \<and> d_used_idx d = d_used_idx_dev d \<and>
      d_avail_ring d (unat (d_used_idx_dev d) mod 8) = 0 \<and>
      dsc_addr (d_desc d 0) = DOps 0 \<and> dsc_next (d_desc d 0) = 1 \<and> dsc_flags (d_desc d 0) = 1 \<and>
      dsc_len (d_desc d 0) = 16 \<and> dsc_len (d_desc d 1) = 1024 \<and> dsc_len (d_desc d 2) = 1 \<and>
      d_notify d \<and> d_isr d = 0 \<and>
      dsc_addr (d_desc d 1) = DData b \<and> dsc_next (d_desc d 1) = 2 \<and>
      dsc_flags (d_desc d 1) = (if write then 1 else 3) \<and>
      dsc_addr (d_desc d 2) = DStatus 0 \<and> dsc_flags (d_desc d 2) = 2 \<and>
      d_ops d 0 = \<lparr>rq_type = (if write then 1 else 0), rq_reserved = 0,
                   rq_sector = ucast ((of_nat n :: u32) * 2)\<rparr> \<and>
      d_info_b d 0 = Some b \<and> (\<forall>i<8. d_free d i \<longleftrightarrow> 3 \<le> i) \<and>
      blk_conforms (blk s) \<and> n < 2 ^ 31 \<and> length (b_data (bufs s b)) = 1024)"

definition served :: "nat \<Rightarrow> bool \<Rightarrow> kst \<Rightarrow> kst" where
  "served b write s =
     (let n = b_blockno (bufs s b); xs = b_data (bufs s b) in
      if write then s\<lparr>drv := dput (drv s) n xs, wtrace := wtrace s @ [(n, xs)]\<rparr>
      else s\<lparr>bufs := (bufs s)(b := (bufs s b)\<lparr>b_data := dblock (drv s) n\<rparr>)\<rparr>)"

lemma submitted_disk:
  "submitted b write s \<Longrightarrow> vdisk t = vdisk s \<Longrightarrow> bufs t = bufs s \<Longrightarrow> blk t = blk s \<Longrightarrow> submitted b write t"
  by (simp add: submitted_def)

lemma dev_run_request:
  assumes "submitted b write s"
  shows "dev_run s = (served b write s)\<lparr>vdisk := (vdisk s)\<lparr>d_used_idx_dev := d_avail_idx (vdisk s),
           d_used_ring := (d_used_ring (vdisk s))(unat (d_used_idx (vdisk s)) mod 8 := 0),
           d_info_status := (d_info_status (vdisk s))(0 := 0), d_notify := False, d_isr := 1\<rparr>\<rparr>"
proof -
  let ?n = "b_blockno (bufs s b)"
  let ?rq = "\<lparr>rq_type = (if write then 1 else 0), rq_reserved = 0,
              rq_sector = ucast ((of_nat ?n :: u32) * 2)\<rparr>"
  have n: "?n < 2 ^ 31" and len: "length (b_data (bufs s b)) = 1024" and c: "blk_conforms (blk s)"
    and hd0: "d_ops (vdisk s) 0 = ?rq"
    using assms by (simp_all add: submitted_def Let_def)
  have sec: "512 * unat (rq_sector ?rq) = 1024 * ?n" "unat (rq_sector ?rq) div 2 = ?n"
    using sector_of_block[OF n] by simp_all
  have res: "blk s ?rq (b_data (bufs s b)) (drv s) =
      (0, if write then b_data (bufs s b) else dblock (drv s) ?n,
       if write then dput (drv s) ?n (b_data (bufs s b)) else drv s)"
    using c sector_of_block[OF n] len by (auto simp: blk_conforms_def dblock_def dput_def fun_eq_iff)
  let ?s = "upd_disk (\<lambda>d. d\<lparr>d_notify := False\<rparr>) s"
  have one: "dev_one ?s = (served b write s)\<lparr>vdisk := (vdisk s)\<lparr>d_used_idx_dev := d_avail_idx (vdisk s),
      d_used_ring := (d_used_ring (vdisk s))(unat (d_used_idx (vdisk s)) mod 8 := 0),
      d_info_status := (d_info_status (vdisk s))(0 := 0), d_notify := False, d_isr := 1\<rparr>\<rparr>"
    using assms res sec(2) len
    by (cases "write") (simp_all add: dev_one_def submitted_def served_def upd_disk_def Let_def hd0)
  have "d_used_idx_dev (vdisk ?s) \<noteq> d_avail_idx (vdisk ?s)" "d_notify (vdisk s)"
    using assms by (simp_all add: submitted_def upd_disk_def Let_def)
  then have "dev_run s = dev_loop (dev_one ?s)" by (simp add: dev_run_def dev_loop.simps[of ?s])
  also have "\<dots> = dev_one ?s" by (rule dev_loop_idle) (simp add: one)
  finally show ?thesis using one by simp
qed

text \<open>The state after the interrupt handler has dealt with the request, up to process states.\<close>

definition completed :: "nat \<Rightarrow> bool \<Rightarrow> kst \<Rightarrow> kst" where
  "completed b write s =
     (let t = served b write s; d = vdisk s in
      t\<lparr>bufs := (bufs t)(b := (bufs t b)\<lparr>b_disk := False\<rparr>),
        vdisk := d\<lparr>d_used_idx_dev := d_avail_idx d,
                   d_used_ring := (d_used_ring d)(unat (d_used_idx d) mod 8 := 0),
                   d_info_status := (d_info_status d)(0 := 0), d_used_idx := d_avail_idx d,
                   d_notify := False, d_isr := 0\<rparr>\<rparr>)"

lemma served_body:
  "body (served b write s) = served b write (body s)" "env mp L (served b write s) = env mp L s"
  "procs (served b write s) = procs s"
  by (simp_all add: served_def body_simps Let_def)

lemma completed_body: "body (completed b write s) = completed b write (body s)"
  by (cases "write") (simp_all add: completed_def served_def body_simps Let_def)

lemma completed_procs: "completed b write (s\<lparr>procs := x\<rparr>) = (completed b write s)\<lparr>procs := x\<rparr>"
  by (cases "write") (simp_all add: completed_def served_def Let_def)

lemma disk_intr_request:
  assumes e: "env None {} u" and sub: "submitted b write u"
  shows "wp (disk_irq (dev_run u)) (\<lambda>_ v. env None {} v \<and>
           body v = (completed b write (body u))\<lparr>procs := woken {0..<64} (Some (Cbuf b)) (procs u)\<rparr>)"
proof -
  let ?r = "dev_run u" and ?d = "vdisk (dev_run u)"
  let ?a = "upd_disk (\<lambda>d. d\<lparr>d_isr := d_isr d AND NOT (d_isr d AND 3)\<rparr>) (acq Lvdisk ?r)"
  let ?c = "upd_buf b (\<lambda>x. x\<lparr>b_disk := False\<rparr>) ?a"
  note dr = dev_run_request[OF sub]
  have er: "env None {} ?r" using e by (simp add: dr served_body body_simps)
  have a: "acquire Lvdisk ?r = Ok () (acq Lvdisk ?r)" and c: "env None {Lvdisk} ?c"
    using env_acquire[OF er, of Lvdisk] by (simp_all add: upd_buf_def upd_disk_def body_simps)
  have vd: "d_used_idx ?d \<noteq> d_used_idx_dev ?d" "d_used_ring ?d (unat (d_used_idx ?d) mod 8) = 0"
    "d_info_status ?d 0 = 0" "d_info_b ?d 0 = Some b" "d_isr ?d = 1"
    using sub by (simp_all add: dr submitted_def Let_def)
  then have irq: "disk_irq ?r = virtio_disk_intr ?r" by (simp add: disk_irq_def)
  have first: "intr_loop ?a = bnd (wakeup (Cbuf b) ?c) (\<lambda>_ s.
      intr_loop (upd_disk (\<lambda>d. d\<lparr>d_used_idx := d_used_idx d + 1\<rparr>) s))"
    using vd by (subst intr_loop.simps) (simp add: acq_select upd_disk_def Let_def)
  have w: "wp (wakeup (Cbuf b) ?c) (\<lambda>_ t. env None {Lvdisk} t \<and>
      body t = (body ?c)\<lparr>procs := woken {0..<64} (Some (Cbuf b)) (procs u)\<rparr>)"
    using wakeup_env[OF c, of "Cbuf b"] by (simp add: upd_buf_def upd_disk_def acq_select dr served_body)
  show ?thesis
    unfolding irq virtio_disk_intr_def a bnd.simps Let_def first bnd_assoc wp_bnd
  proof (rule wp_mono[OF w], elim conjE)
    fix t assume t: "env None {Lvdisk} t"
      and bt: "body t = (body ?c)\<lparr>procs := woken {0..<64} (Some (Cbuf b)) (procs u)\<rparr>"
    let ?t = "upd_disk (\<lambda>d. d\<lparr>d_used_idx := d_used_idx d + 1\<rparr>) t"
    have et: "env None {Lvdisk} ?t" using t by (simp add: upd_disk_def body_simps)
    have vt: "vdisk t = ?d\<lparr>d_isr := 0\<rparr>" using body_eqD(23)[OF bt] vd by (simp add: upd_buf_def upd_disk_def acq_select)
    have "d_used_idx (vdisk ?t) = d_used_idx_dev (vdisk ?t)"
      using vt sub by (simp add: upd_disk_def dr submitted_def Let_def)
    then have "intr_loop ?t = Ok () ?t" by (subst intr_loop.simps) simp
    moreover have "body ?t = (completed b write (body u))\<lparr>procs := woken {0..<64} (Some (Cbuf b)) (procs u)\<rparr>"
      using sub by (cases "write") (simp_all add: upd_disk_def body_simps bt vt upd_buf_def acq_select dr
          completed_def served_def submitted_def Let_def)
    ultimately show "wp (intr_loop ?t) (\<lambda>_ s. wp (release Lvdisk s) (\<lambda>_ v. env None {} v \<and>
        body v = (completed b write (body u))\<lparr>procs := woken {0..<64} (Some (Cbuf b)) (procs u)\<rparr>))"
      using env_release[OF et, of Lvdisk] by (simp add: body_simps)
  qed
qed

lemma wait_done_request:
  assumes r: "running p {Lvdisk} s" and sub: "submitted b write s" and bd: "b_disk (bufs s b)"
  shows "wp (wait_done b s) (\<lambda>_ t. running p {Lvdisk} t \<and> stirred p s t \<and>
           body t = (completed b write (body s))\<lparr>procs := procs t\<rparr>)"
proof -
  let ?ps = "(procs s)(p := (procs s p)\<lparr>p_chan := Some (Cbuf b), p_state := SLEEPING\<rparr>)"
  let ?v = "(completed b write (body s))\<lparr>procs := woken {0..<64} (Some (Cbuf b)) ?ps\<rparr>"
  have e: "env (Some p) {Lvdisk} s" and p: "p < 64" and fu: "future s = []"
    and st: "p_state (procs s p) = RUNNING" "p_chan (procs s p) = None"
    using r by (simp_all add: running_def)
  have lk: "Lvdisk \<noteq> Lproc q" for q by simp
  have H: "wp (disk_irq (dev_run u)) (\<lambda>_ v. env None {} v \<and> p_state (procs v p) = RUNNABLE \<and> body v = ?v)"
    if eu: "env None {} u" and bu: "body u = (body s)\<lparr>procs := ?ps\<rparr>" for u
  proof (rule wp_mono[OF disk_intr_request[OF eu submitted_disk[OF sub]]])
    show "vdisk u = vdisk s" "bufs u = bufs s" "blk u = blk s" using body_eqD[OF bu] by simp_all
    fix v assume "env None {} v \<and>
      body v = (completed b write (body u))\<lparr>procs := woken {0..<64} (Some (Cbuf b)) (procs u)\<rparr>"
    then have ev: "env None {} v" and bv: "body v = ?v"
      using body_eqD(12)[OF bu] by (simp_all add: bu completed_procs)
    show "env None {} v \<and> p_state (procs v p) = RUNNABLE \<and> body v = ?v"
      using ev bv body_eqD(12)[OF bv] p by (simp add: woken_def)
  qed
  have sl: "wp (sleep (Cbuf b) Lvdisk s) (\<lambda>_ t. env (Some p) {Lvdisk} t \<and> (\<exists>v. v = ?v \<and>
      body t = v\<lparr>procs := (procs v)(p := (procs v p)\<lparr>p_state := RUNNING, p_chan := None\<rparr>)\<rparr>))"
    by (rule sleep_env[where R = "\<lambda>x. x = ?v", OF e fu lk H])
  have "wp (sleep (Cbuf b) Lvdisk s) (\<lambda>_ t. running p {Lvdisk} t \<and> stirred p s t \<and>
      \<not> b_disk (bufs t b) \<and> body t = (completed b write (body s))\<lparr>procs := procs t\<rparr>)"
  proof (rule wp_mono[OF sl], elim conjE exE)
    fix t v assume et: "env (Some p) {Lvdisk} t" and v: "v = ?v"
      and bt: "body t = v\<lparr>procs := (procs v)(p := (procs v p)\<lparr>p_state := RUNNING, p_chan := None\<rparr>)\<rparr>"
    have ps: "procs t = (woken {0..<64} (Some (Cbuf b)) ?ps)(p :=
        (woken {0..<64} (Some (Cbuf b)) ?ps p)\<lparr>p_state := RUNNING, p_chan := None\<rparr>)"
      using body_eqD(12)[OF bt] by (simp add: v)
    have pp: "procs t p = procs s p" using ps p st by (cases "procs s p") (simp add: woken_def)
    then have "stirred p s t" using ps by (auto simp: stirred_def woken_def)
    moreover have "future t = []" using body_eqD(36)[OF bt] fu by (cases "write") (simp_all add: v completed_def served_def Let_def)
    moreover have "body t = (completed b write (body s))\<lparr>procs := procs t\<rparr>" using bt ps by (simp add: v)
    moreover from body_eqD(22)[OF this] have "\<not> b_disk (bufs t b)"
      by (cases "write") (simp_all add: completed_def served_def Let_def)
    ultimately show "running p {Lvdisk} t \<and> stirred p s t \<and>
      \<not> b_disk (bufs t b) \<and> body t = (completed b write (body s))\<lparr>procs := procs t\<rparr>"
      using et p st pp by (simp add: running_def)
  qed
  then show ?thesis
    unfolding wait_done.simps[of b s] using bd by (auto simp: wp_bnd elim!: wp_mono, simp add: wait_done.simps)
qed

section \<open>Descriptors are returned\<close>

definition freed_desc :: "nat \<Rightarrow> vdisk \<Rightarrow> vdisk" where
  "freed_desc i d = d\<lparr>d_desc := (d_desc d)(i := \<lparr>dsc_addr = DNull, dsc_len = 0, dsc_flags = 0, dsc_next = 0\<rparr>),
                      d_free := (d_free d)(i := True)\<rparr>"

text \<open>Only the driver's own bookkeeping and the states of other processes change.\<close>

definition same_but_disk :: "nat \<Rightarrow> lockid set \<Rightarrow> kst \<Rightarrow> kst \<Rightarrow> bool" where
  "same_but_disk p L s t \<longleftrightarrow> running p L t \<and> stirred p s t \<and>
     body t = (body s)\<lparr>vdisk := vdisk t, procs := procs t\<rparr>"

lemma same_but_disk_trans: "same_but_disk p L s t \<Longrightarrow> same_but_disk p L' t u \<Longrightarrow> same_but_disk p L' s u"
  unfolding same_but_disk_def by (auto intro: stirred_trans)

lemma free_desc_env:
  assumes r: "running p {Lvdisk} s" and "i < 8" and "\<not> d_free (vdisk s) i"
  shows "wp (free_desc i s) (\<lambda>_ t. same_but_disk p {Lvdisk} s t \<and> vdisk t = freed_desc i (vdisk s))"
proof -
  let ?s = "s\<lparr>vdisk := freed_desc i (vdisk s)\<rparr>"
  have eq: "free_desc i s = wakeup Cdisk_free ?s"
    using assms(2,3) by (simp add: free_desc_def upd_desc_def upd_disk_def freed_desc_def Let_def)
      (cases "d_desc (vdisk s) i", simp)
  have e: "env (Some p) {Lvdisk} ?s" using r by (simp add: running_def body_simps)
  have "wp (wakeup Cdisk_free ?s) (\<lambda>_ t. env (Some p) {Lvdisk} t \<and>
      body t = (body ?s)\<lparr>procs := woken ({0..<64} - {p}) (Some Cdisk_free) (procs s)\<rparr>)"
    using wakeup_env[OF e, of Cdisk_free] by simp
  then show ?thesis
    unfolding eq
  proof (rule wp_mono, elim conjE)
    fix t assume et: "env (Some p) {Lvdisk} t"
      and bt: "body t = (body ?s)\<lparr>procs := woken ({0..<64} - {p}) (Some Cdisk_free) (procs s)\<rparr>"
    have ps: "procs t = woken ({0..<64} - {p}) (Some Cdisk_free) (procs s)" and v: "vdisk t = freed_desc i (vdisk s)"
      and fu: "future t = future s"
      using body_eqD[OF bt] by (simp_all add: body_simps)
    then have "stirred p s t" by (intro stirred_woken[of p "{0..<64} - {p}" t "Some Cdisk_free" s]) auto
    moreover from this have "running p {Lvdisk} t" using r et fu by (simp add: running_def stirred_def)
    ultimately show "same_but_disk p {Lvdisk} s t \<and> vdisk t = freed_desc i (vdisk s)"
      using v ps bt by (simp add: same_but_disk_def body_simps)
  qed
qed

lemma free_chain_step:
  assumes "running p {Lvdisk} s" and "i < 8" and "\<not> d_free (vdisk s) i"
    and "\<And>t. same_but_disk p {Lvdisk} s t \<Longrightarrow> vdisk t = freed_desc i (vdisk s) \<Longrightarrow>
           wp (if dsc_flags (d_desc (vdisk s) i) AND 1 \<noteq> 0
               then free_chain (unat (dsc_next (d_desc (vdisk s) i))) t else Ok () t) Q"
  shows "wp (free_chain i s) Q"
  unfolding free_chain.simps[of i s] Let_def wp_bnd
  by (rule wp_mono[OF free_desc_env[OF assms(1-3)]]) (use assms(4) in auto)

lemma free_chain_env:
  assumes r: "running p {Lvdisk} s" and f: "\<forall>i<8. d_free (vdisk s) i \<longleftrightarrow> 3 \<le> i"
    and d: "dsc_flags (d_desc (vdisk s) 0) = 1" "dsc_next (d_desc (vdisk s) 0) = 1"
      "dsc_flags (d_desc (vdisk s) 1) = 1 \<or> dsc_flags (d_desc (vdisk s) 1) = 3" "dsc_next (d_desc (vdisk s) 1) = 2"
      "dsc_flags (d_desc (vdisk s) 2) = 2"
  shows "wp (free_chain 0 s) (\<lambda>_ t. same_but_disk p {Lvdisk} s t \<and>
           vdisk t = freed_desc 2 (freed_desc 1 (freed_desc 0 (vdisk s))))"
proof (rule free_chain_step[OF r])
  fix t1 assume 1: "same_but_disk p {Lvdisk} s t1" "vdisk t1 = freed_desc 0 (vdisk s)"
  have r1: "running p {Lvdisk} t1" using 1 by (simp add: same_but_disk_def)
  have "wp (free_chain 1 t1) (\<lambda>_ t. same_but_disk p {Lvdisk} s t \<and>
           vdisk t = freed_desc 2 (freed_desc 1 (freed_desc 0 (vdisk s))))"
  proof (rule free_chain_step[OF r1])
    fix t2 assume 2: "same_but_disk p {Lvdisk} t1 t2" "vdisk t2 = freed_desc 1 (vdisk t1)"
    have r2: "running p {Lvdisk} t2" using 2 by (simp add: same_but_disk_def)
    have "wp (free_chain 2 t2) (\<lambda>_ t. same_but_disk p {Lvdisk} s t \<and>
           vdisk t = freed_desc 2 (freed_desc 1 (freed_desc 0 (vdisk s))))"
    proof (rule free_chain_step[OF r2])
      fix t3 assume 3: "same_but_disk p {Lvdisk} t2 t3" "vdisk t3 = freed_desc 2 (vdisk t2)"
      have "same_but_disk p {Lvdisk} s t3" using same_but_disk_trans 1(1) 2(1) 3(1) by blast
      then show "wp (if dsc_flags (d_desc (vdisk t2) 2) AND 1 \<noteq> 0
          then free_chain (unat (dsc_next (d_desc (vdisk t2) 2))) t3 else Ok () t3)
          (\<lambda>_ t. same_but_disk p {Lvdisk} s t \<and> vdisk t = freed_desc 2 (freed_desc 1 (freed_desc 0 (vdisk s))))"
        using 1(2) 2(2) 3(2) d(5) by (simp add: freed_desc_def)
    qed (use 1(2) 2(2) f in \<open>simp_all add: freed_desc_def\<close>)
    then show "wp (if dsc_flags (d_desc (vdisk t1) 1) AND 1 \<noteq> 0
          then free_chain (unat (dsc_next (d_desc (vdisk t1) 1))) t2 else Ok () t2)
          (\<lambda>_ t. same_but_disk p {Lvdisk} s t \<and> vdisk t = freed_desc 2 (freed_desc 1 (freed_desc 0 (vdisk s))))"
      using 1(2) d(3,4) by (auto simp: freed_desc_def)
  qed (use 1(2) f in \<open>simp_all add: freed_desc_def\<close>)
  then show "wp (if dsc_flags (d_desc (vdisk s) 0) AND 1 \<noteq> 0
          then free_chain (unat (dsc_next (d_desc (vdisk s) 0))) t1 else Ok () t1)
          (\<lambda>_ t. same_but_disk p {Lvdisk} s t \<and> vdisk t = freed_desc 2 (freed_desc 1 (freed_desc 0 (vdisk s))))"
    using d(1,2) by simp
qed (use f in simp_all)

section \<open>The whole request\<close>

lemma alloc3_all_free:
  assumes "\<forall>i<8. d_free (vdisk s) i"
  shows "alloc3_wait s = Ok [0, 1, 2] (upd_disk (\<lambda>d. d\<lparr>d_free := (d_free d)(0 := False, 1 := False, 2 := False)\<rparr>) s)"
proof -
  have u: "[0..<8] = [0, 1, 2, 3, 4, 5, 6, 7]" by (simp add: upt_rec)
  show ?thesis
    using assms unfolding alloc3_wait.simps[of s] alloc3_desc_def numeral_3_eq_3 alloc3_from.simps alloc_desc_def u
    by (simp add: upd_disk_def)
qed

text \<open>The effect of a request on the state above the driver.\<close>

definition disk_io :: "nat \<Rightarrow> bool \<Rightarrow> kst \<Rightarrow> kst" where
  "disk_io b write s =
     (let n = b_blockno (bufs s b); xs = b_data (bufs s b) in
      if write then s\<lparr>bufs := (bufs s)(b := (bufs s b)\<lparr>b_disk := False\<rparr>),
                      drv := dput (drv s) n xs, wtrace := wtrace s @ [(n, xs)]\<rparr>
      else s\<lparr>bufs := (bufs s)(b := (bufs s b)\<lparr>b_data := dblock (drv s) n, b_disk := False\<rparr>)\<rparr>)"

lemma disk_submit_submitted:
  assumes "disk_ready s" and "b_blockno (bufs s b) < 2 ^ 31" and "length (b_data (bufs s b)) = 1024"
    and "t = disk_submit b write (ucast ((of_nat (b_blockno (bufs s b)) :: u32) * 2)) 0 1 2
               (upd_disk (\<lambda>d. d\<lparr>d_free := (d_free d)(0 := False, 1 := False, 2 := False)\<rparr>) s)"
  shows "submitted b write t"
    and "t = s\<lparr>bufs := (bufs s)(b := (bufs s b)\<lparr>b_disk := True\<rparr>), vdisk := vdisk t\<rparr>"
proof -
  have d: "\<forall>i<8. d_free (vdisk s) i" "d_used_idx_dev (vdisk s) = d_avail_idx (vdisk s)"
    "d_used_idx (vdisk s) = d_avail_idx (vdisk s)" "d_isr (vdisk s) = 0" "blk_conforms (blk s)"
    using assms(1) by (simp_all add: disk_ready_def)
  have "(i = 0 \<or> i = 1 \<or> i = 2) = (\<not> 3 \<le> i)" for i :: nat by auto
  then show "submitted b write t"
    using d assms(2,3)
    by (auto simp: assms(4) submitted_def disk_submit_def upd_disk_def upd_desc_def upd_buf_def Let_def)
  show "t = s\<lparr>bufs := (bufs s)(b := (bufs s b)\<lparr>b_disk := True\<rparr>), vdisk := vdisk t\<rparr>"
    by (simp add: assms(4) disk_submit_def upd_disk_def upd_desc_def upd_buf_def Let_def)
qed

lemma running_update [body_simps]:
  "running p L (s\<lparr>vdisk := v\<rparr>) = running p L s" "running p L (s\<lparr>bufs := bs\<rparr>) = running p L s"
  "running p L (s\<lparr>klog := l\<rparr>) = running p L s"
  by (simp_all add: running_def body_simps)

lemma running_acquire:
  assumes "running p L s" and "l \<notin> L"
  shows "acquire l s = Ok () (acq l s)" and "running p (insert l L) (acq l s)"
  using assms env_acquire[of "Some p" L s l] by (simp_all add: running_def acq_select)

lemma running_release:
  assumes "running p L s" and "l \<in> L"
  shows "release l s = Ok () (rel l s)" and "running p (L - {l}) (rel l s)"
  using assms env_release[of "Some p" L s l] by (simp_all add: running_def rel_select)

lemma virtio_disk_rw_env:
  assumes r: "running p {} s" and rd: "disk_ready s" and n: "b_blockno (bufs s b) < 2 ^ 31"
    and len: "length (b_data (bufs s b)) = 1024"
  shows "wp (virtio_disk_rw b write s) (\<lambda>_ t. running p {} t \<and> disk_ready t \<and> stirred p s t \<and>
           body t = (disk_io b write (body s))\<lparr>vdisk := vdisk t, procs := procs t\<rparr>)"
proof -
  let ?a = "acq Lvdisk s" and ?sec = "ucast ((of_nat (b_blockno (bufs s b)) :: u32) * 2)"
  let ?f = "upd_disk (\<lambda>d. d\<lparr>d_free := (d_free d)(0 := False, 1 := False, 2 := False)\<rparr>) ?a"
  define u where "u = disk_submit b write ?sec 0 1 2 ?f"
  have ra: "running p {Lvdisk} ?a" and A: "acquire Lvdisk s = Ok () ?a"
    using running_acquire[OF r, of Lvdisk] by simp_all
  have rda: "disk_ready ?a" and ba: "bufs ?a = bufs s" using rd by (simp_all add: disk_ready_def acq_select)
  have al: "alloc3_wait ?a = Ok [0, 1, 2] ?f" using alloc3_all_free rda by (simp add: disk_ready_def)
  have u: "submitted b write u" and ueq: "u = ?a\<lparr>bufs := (bufs s)(b := (bufs s b)\<lparr>b_disk := True\<rparr>), vdisk := vdisk u\<rparr>"
    using disk_submit_submitted[OF rda, where b = b] n len u_def by (simp_all add: ba)
  have ru: "running p {Lvdisk} u" and bu: "b_disk (bufs u b)" and pu: "procs u = procs s"
    and bodyu: "body u = (body s)\<lparr>bufs := (bufs s)(b := (bufs s b)\<lparr>b_disk := True\<rparr>), vdisk := vdisk u\<rparr>"
    by (subst ueq; simp add: ra body_simps acq_select)+
  have eq: "virtio_disk_rw b write s = bnd (wait_done b u) (\<lambda>_ s.
      bnd (free_chain 0 (upd_disk (\<lambda>d. d\<lparr>d_info_b := (d_info_b d)(0 := None)\<rparr>) s)) (\<lambda>_ s. release Lvdisk s))"
    using A al by (simp add: virtio_disk_rw_def u_def Let_def)
  show ?thesis
    unfolding eq wp_bnd
  proof (rule wp_mono[OF wait_done_request[OF ru u bu]], elim conjE)
    fix v assume rv: "running p {Lvdisk} v" and sv: "stirred p u v"
      and bv: "body v = (completed b write (body u))\<lparr>procs := procs v\<rparr>"
    let ?w = "upd_disk (\<lambda>d. d\<lparr>d_info_b := (d_info_b d)(0 := None)\<rparr>) v"
    have rw: "running p {Lvdisk} ?w" using rv by (simp add: upd_disk_def body_simps)
    have vd: "vdisk v = vdisk (completed b write u)" using body_eqD(23)[OF bv] by (simp add: completed_def Let_def)
    have fw: "\<forall>i<8. d_free (vdisk ?w) i \<longleftrightarrow> 3 \<le> i"
      and dw: "dsc_flags (d_desc (vdisk ?w) 0) = 1" "dsc_next (d_desc (vdisk ?w) 0) = 1"
        "dsc_flags (d_desc (vdisk ?w) 1) = 1 \<or> dsc_flags (d_desc (vdisk ?w) 1) = 3"
        "dsc_next (d_desc (vdisk ?w) 1) = 2" "dsc_flags (d_desc (vdisk ?w) 2) = 2"
      using u vd by (simp_all add: upd_disk_def submitted_def completed_def Let_def)
    show "wp (free_chain 0 ?w) (\<lambda>_ s'. wp (release Lvdisk s') (\<lambda>_ t. running p {} t \<and> disk_ready t \<and>
        stirred p s t \<and> body t = (disk_io b write (body s))\<lparr>vdisk := vdisk t, procs := procs t\<rparr>))"
    proof (rule wp_mono[OF free_chain_env[OF rw fw dw]], elim conjE)
      fix x assume x: "same_but_disk p {Lvdisk} ?w x"
        and vx: "vdisk x = freed_desc 2 (freed_desc 1 (freed_desc 0 (vdisk ?w)))"
      have rx: "running p {Lvdisk} x" and sx: "stirred p ?w x"
        and bx: "body x = (body ?w)\<lparr>vdisk := vdisk x, procs := procs x\<rparr>"
        using x by (simp_all add: same_but_disk_def)
      have "stirred p s x"
        using stirred_trans[of p s v x] sv sx pu by (simp add: stirred_def upd_disk_def)
      then have st: "stirred p s (rel Lvdisk x)" by (simp add: stirred_def rel_select)
      have bl: "blk x = blk s"
        using body_eqD(25)[OF bx] body_eqD(25)[OF bv] body_eqD(25)[OF bodyu]
        by (cases "write") (simp_all add: upd_disk_def completed_def served_def Let_def)
      have "i = 0 \<or> i = 1 \<or> i = 2 \<or> 3 \<le> i" for i :: nat by auto
      then have "disk_ready x"
        using rd bl vx fw vd u by (auto simp: disk_ready_def freed_desc_def upd_disk_def completed_def Let_def)
      then have "disk_ready (rel Lvdisk x)" by (simp add: disk_ready_def rel_select)
      moreover have "body x = (disk_io b write (body s))\<lparr>vdisk := vdisk x, procs := procs x\<rparr>"
        by (cases "write") (simp_all add: bx upd_disk_def body_simps bv bodyu completed_def served_def disk_io_def Let_def)
      ultimately show "wp (release Lvdisk x) (\<lambda>_ t. running p {} t \<and> disk_ready t \<and>
          stirred p s t \<and> body t = (disk_io b write (body s))\<lparr>vdisk := vdisk t, procs := procs t\<rparr>)"
        using running_release[OF rx, of Lvdisk] st by (simp add: body_simps rel_select)
    qed
  qed
qed

end
