(* ===== verification/Cache_List.thy ===== *)
theory Cache_List
  imports Bio Disk_Rw
begin

text \<open>
  The doubly linked, circular list of buffers in \<open>bio.c\<close>: \<open>bring xs bs\<close> says that following
  \<open>next\<close> from the head visits the buffers \<open>xs\<close> and returns, and that \<open>prev\<close> runs the other way. The
  lemmas show that the two scans of \<open>bget\<close> search it forwards and backwards, and that \<open>move_front\<close>
  moves one buffer to the front and leaves the order of the others.
\<close>

section \<open>Doubly linked segments\<close>

fun dseg :: "(nat \<Rightarrow> nat) \<Rightarrow> (nat \<Rightarrow> nat) \<Rightarrow> nat \<Rightarrow> nat list \<Rightarrow> nat \<Rightarrow> bool" where
  "dseg nx pv x [] z \<longleftrightarrow> nx x = z \<and> pv z = x"
| "dseg nx pv x (y # ys) z \<longleftrightarrow> nx x = y \<and> pv y = x \<and> dseg nx pv y ys z"

lemma dseg_append: "dseg nx pv x (ys @ y # zs) z \<longleftrightarrow> dseg nx pv x ys y \<and> dseg nx pv y zs z"
  by (induction ys arbitrary: x) auto

lemma dseg_cong:
  "(\<And>a. a = x \<or> a \<in> set ys \<Longrightarrow> nx' a = nx a) \<Longrightarrow> (\<And>a. a = z \<or> a \<in> set ys \<Longrightarrow> pv' a = pv a) \<Longrightarrow>
   dseg nx' pv' x ys z = dseg nx pv x ys z"
  by (induction ys arbitrary: x) auto

lemma dseg_next: "dseg nx pv x ys z \<Longrightarrow> nx x = hd (ys @ [z])"
  by (cases ys) auto

lemma dseg_prev: "dseg nx pv x ys z \<Longrightarrow> pv z = last (x # ys)"
  by (induction ys arbitrary: x) auto

text \<open>Taking an element out of a segment, and putting one in at the front.\<close>

lemma dseg_next_upd:
  "dseg nx pv x ys z \<Longrightarrow> distinct (x # ys) \<Longrightarrow> w \<notin> set ys \<Longrightarrow>
   dseg (nx(last (x # ys) := w)) (pv(w := last (x # ys))) x ys w"
proof (induction ys arbitrary: x)
  case Nil
  then show ?case by simp
next
  case (Cons y ys)
  have "dseg (nx(last (y # ys) := w)) (pv(w := last (y # ys))) y ys w"
    using Cons.prems by (intro Cons.IH) auto
  moreover have "last (y # ys) \<noteq> x" using Cons.prems(2) by (metis distinct.simps(2) last_in_set list.distinct(1))
  ultimately show ?case using Cons.prems by (auto simp: fun_upd_def)
qed

lemma dseg_remove:
  assumes "dseg nx pv x (ys @ b # zs) z" and "distinct (x # ys @ b # zs)" and "z \<notin> set (ys @ b # zs)"
  shows "dseg (nx(pv b := nx b)) (pv(nx b := pv b)) x (ys @ zs) z"
proof -
  have 1: "dseg nx pv x ys b" and 2: "dseg nx pv b zs z" using assms(1) by (simp_all add: dseg_append)
  have p: "pv b = last (x # ys)" and n: "nx b = hd (zs @ [z])" using dseg_prev[OF 1] dseg_next[OF 2] .
  have pin: "last (x # ys) \<in> set (x # ys)" by (rule last_in_set) simp
  show ?thesis
  proof (cases zs)
    case Nil
    then show ?thesis using dseg_next_upd[OF 1, of z] assms(2,3) p n by simp
  next
    case (Cons w ws)
    have nw: "nx b = w" using n Cons by simp
    have "dseg (nx(last (x # ys) := w)) (pv(w := last (x # ys))) x ys w"
      using assms(2) Cons by (intro dseg_next_upd[OF 1]) auto
    moreover have "dseg (nx(last (x # ys) := w)) (pv(w := last (x # ys))) w ws z = dseg nx pv w ws z"
    proof (rule dseg_cong)
      fix a assume "a = w \<or> a \<in> set ws"
      then have "a \<noteq> last (x # ys)" using pin assms(2) Cons by auto
      then show "(nx(last (x # ys) := w)) a = nx a" by simp
    next
      fix a assume "a = z \<or> a \<in> set ws"
      then have "a \<noteq> w" using assms(2,3) Cons by auto
      then show "(pv(w := last (x # ys))) a = pv a" by simp
    qed
    moreover have "dseg nx pv w ws z" using 2 Cons by simp
    ultimately show ?thesis using Cons p nw by (simp add: dseg_append)
  qed
qed

lemma dseg_insert:
  assumes "dseg nx pv x ys z" and "distinct (x # ys)" and "b \<notin> set (x # z # ys)" and "z \<notin> set ys"
  shows "dseg (nx(b := nx x, x := b)) (pv(b := x, nx x := b)) x (b # ys) z"
proof (cases ys)
  case Nil
  then show ?thesis using assms by auto
next
  case (Cons y zs)
  have "dseg (nx(b := nx x, x := b)) (pv(b := x, nx x := b)) y zs z = dseg nx pv y zs z"
    using assms Cons by (intro dseg_cong) auto
  then show ?thesis using assms Cons by auto
qed

section \<open>The list of buffers\<close>

definition bring :: "nat list \<Rightarrow> (nat \<Rightarrow> buf) \<Rightarrow> bool" where
  "bring xs bs \<longleftrightarrow> distinct xs \<and> 30 \<notin> set xs \<and> dseg (\<lambda>b. b_next (bs b)) (\<lambda>b. b_prev (bs b)) 30 xs 30"

lemma bscan_next_seg:
  assumes "dseg (\<lambda>b. b_next (bs b)) pv x xs 30" and "30 \<notin> set xs" and "length xs < fuel"
  shows "bscan_next fuel (b_next (bs x)) bs dev n =
           Some (find (\<lambda>b. b_dev (bs b) = dev \<and> b_blockno (bs b) = n) xs)"
  using assms
proof (induction xs arbitrary: x fuel)
  case Nil
  then show ?case by (cases fuel) auto
next
  case (Cons y ys)
  then show ?case by (cases fuel) auto
qed

lemma bscan_prev_seg:
  assumes "dseg nx (\<lambda>b. b_prev (bs b)) 30 xs z" and "30 \<notin> set xs" and "length xs < fuel"
  shows "bscan_prev fuel (b_prev (bs z)) bs = Some (find (\<lambda>b. b_refcnt (bs b) = 0) (rev xs))"
  using assms
proof (induction xs arbitrary: z fuel rule: rev_induct)
  case Nil
  then show ?case by (cases fuel) auto
next
  case (snoc y ys)
  then show ?case by (cases fuel) (auto simp: dseg_append)
qed

lemma bring_length: "bring xs bs \<Longrightarrow> set xs = {0..<30} \<Longrightarrow> length xs = 30"
  unfolding bring_def by (metis card_atLeastLessThan diff_zero distinct_card)

lemma bring_scans:
  assumes "bring xs bs" and "set xs = {0..<30}"
  shows "bscan_next 31 (b_next (bs 30)) bs dev n = Some (find (\<lambda>b. b_dev (bs b) = dev \<and> b_blockno (bs b) = n) xs)"
    and "bscan_prev 31 (b_prev (bs 30)) bs = Some (find (\<lambda>b. b_refcnt (bs b) = 0) (rev xs))"
  using assms bring_length[OF assms]
  by (auto simp: bring_def intro!: bscan_next_seg bscan_prev_seg)

text \<open>Updates that leave everything but the links alone.\<close>

definition relinked :: "(nat \<Rightarrow> buf) \<Rightarrow> (nat \<Rightarrow> buf) \<Rightarrow> bool" where
  "relinked bs bs' \<longleftrightarrow> (\<forall>b. b_valid (bs' b) = b_valid (bs b) \<and> b_disk (bs' b) = b_disk (bs b) \<and>
     b_dev (bs' b) = b_dev (bs b) \<and> b_blockno (bs' b) = b_blockno (bs b) \<and>
     b_refcnt (bs' b) = b_refcnt (bs b) \<and> b_data (bs' b) = b_data (bs b))"

lemma relinked_refl: "relinked bs bs"
  by (simp add: relinked_def)

lemma relinked_set:
  "relinked bs (bufs s) \<Longrightarrow> relinked bs (bufs (set_next a n s))"
  "relinked bs (bufs s) \<Longrightarrow> relinked bs (bufs (set_prev a n s))"
  by (simp_all add: relinked_def set_next_def set_prev_def upd_buf_def)

lemma move_front_bufs: "relinked (bufs s) (bufs (move_front b s))"
  unfolding move_front_def Let_def by (intro relinked_set relinked_refl)

definition nxt :: "kst \<Rightarrow> nat \<Rightarrow> nat" where "nxt s = (\<lambda>b. b_next (bufs s b))"
definition prv :: "kst \<Rightarrow> nat \<Rightarrow> nat" where "prv s = (\<lambda>b. b_prev (bufs s b))"

lemma nxt_prv_set:
  "nxt (set_next a n s) = (nxt s)(a := n)" "prv (set_next a n s) = prv s"
  "nxt (set_prev a n s) = nxt s" "prv (set_prev a n s) = (prv s)(a := n)"
  by (simp_all add: nxt_def prv_def set_next_def set_prev_def upd_buf_def fun_eq_iff)

lemma links_fold: "b_next (bufs s b) = nxt s b" "b_prev (bufs s b) = prv s b"
  by (simp_all add: nxt_def prv_def)

definition only_bufs :: "kst \<Rightarrow> kst \<Rightarrow> bool" where
  "only_bufs s t \<longleftrightarrow> (\<exists>bs. t = s\<lparr>bufs := bs\<rparr>)"

lemma only_bufs_set:
  "only_bufs s t \<Longrightarrow> only_bufs s (set_next a n t)" "only_bufs s t \<Longrightarrow> only_bufs s (set_prev a n t)" "only_bufs s s"
  by (auto simp: only_bufs_def set_next_def set_prev_def upd_buf_def intro: exI[of _ "bufs s"])

lemma only_bufsD: "only_bufs s t \<Longrightarrow> t = s\<lparr>bufs := bufs t\<rparr>"
  by (auto simp: only_bufs_def)

lemma move_front_only: "only_bufs s (move_front b s)"
  unfolding move_front_def Let_def by (intro only_bufs_set)

lemma move_front_links:
  assumes "b \<noteq> 30" and "nxt s b \<noteq> b"
  shows "nxt (move_front b s) = (let nx = (nxt s)(prv s b := nxt s b) in nx(b := nx 30, 30 := b))"
    and "prv (move_front b s) =
      (let nx = (nxt s)(prv s b := nxt s b); pv = (prv s)(nxt s b := prv s b) in pv(b := 30, nx 30 := b))"
  unfolding move_front_def Let_def links_fold nxt_prv_set using assms by simp_all

lemma move_front_bring:
  assumes "bring (ys @ b # zs) (bufs s)"
  shows "bring (b # ys @ zs) (bufs (move_front b s))"
proof -
  let ?nx = "nxt s" and ?pv = "prv s"
  let ?nx1 = "?nx(?pv b := ?nx b)" and ?pv1 = "?pv(?nx b := ?pv b)"
  have d: "distinct (30 # ys @ b # zs)" and seg: "dseg ?nx ?pv 30 (ys @ b # zs) 30"
    using assms by (simp_all add: bring_def nxt_def prv_def)
  have "dseg ?nx1 ?pv1 30 (ys @ zs) 30"
    by (rule dseg_remove[OF seg d]) (use d in simp)
  then have ins: "dseg (?nx1(b := ?nx1 30, 30 := b)) (?pv1(b := 30, ?nx1 30 := b)) 30 (b # ys @ zs) 30"
    by (rule dseg_insert) (use d in simp_all)
  have "?nx b = hd (zs @ [30])" using seg dseg_next[of ?nx ?pv b zs 30] by (simp add: dseg_append)
  then have nb: "?nx b \<noteq> b" and b: "b \<noteq> 30" using d by (cases zs; simp)+
  show ?thesis
    unfolding bring_def nxt_def[symmetric] prv_def[symmetric] move_front_links[OF b nb] Let_def by (intro conjI ins) (use d in auto)
qed

end
