(* ===== verification/Buffer_Cache.thy ===== *)
theory Buffer_Cache
  imports Cache_List
begin

text \<open>
  The contract of the buffer cache for a process that runs with only the device beside it. The
  abstract state is the map \<open>H\<close> from the buffers the process has locked to their block numbers,
  the number of pins \<open>P\<close> of every block, and the current contents of every block
  (\<open>content\<close>: the cached copy when there is one, else the block on the drive). The invariant
  \<open>cache_ok\<close> says that a block has at most one buffer, that reference counts are locks plus pins,
  and that a buffer that may be reused holds what is on the drive.
\<close>

section \<open>Invariant and contents\<close>

text \<open>One buffer \<open>x\<close> with index \<open>b\<close> and its sleep lock \<open>l\<close>. \<open>F\<close> are the locked buffers not yet read.\<close>

definition slot_ok :: "nat set \<Rightarrow> (nat \<Rightarrow> nat option) \<Rightarrow> (nat \<Rightarrow> nat) \<Rightarrow> int \<Rightarrow> drive \<Rightarrow> nat \<Rightarrow> buf \<Rightarrow> sleeplock \<Rightarrow> bool" where
  "slot_ok F H P pid d b x l \<longleftrightarrow>
     length (b_data x) = 1024 \<and> b_blockno x < 2 ^ 31 \<and> \<not> b_disk x \<and> (b_valid x \<longrightarrow> b_dev x = 1) \<and>
     unat (b_refcnt x) = (if H b = None then 0 else 1) + (if b_dev x = 1 then P (b_blockno x) else 0) \<and>
     (\<forall>n. H b = Some n \<longrightarrow> b_dev x = 1 \<and> b_blockno x = n \<and> (b \<notin> F \<longrightarrow> b_valid x)) \<and>
     (sl_locked l \<longleftrightarrow> H b \<noteq> None) \<and> (H b \<noteq> None \<longrightarrow> sl_pid l = pid) \<and>
     (b_valid x \<longrightarrow> b_refcnt x = 0 \<longrightarrow> b_data x = dblock d (b_blockno x))"

definition cache_ok :: "nat set \<Rightarrow> (nat \<Rightarrow> nat option) \<Rightarrow> (nat \<Rightarrow> nat) \<Rightarrow> int \<Rightarrow> (nat \<Rightarrow> buf) \<Rightarrow>
    (slockid \<Rightarrow> sleeplock) \<Rightarrow> drive \<Rightarrow> bool" where
  "cache_ok F H P pid bs sl d \<longleftrightarrow>
     (\<exists>xs. bring xs bs \<and> set xs = {0..<30}) \<and>
     (\<forall>b<30. slot_ok F H P pid d b (bs b) (sl (SLbuf b))) \<and>
     (\<forall>b n. H b = Some n \<longrightarrow> b < 30) \<and>
     (\<forall>b<30. \<forall>c<30. b_dev (bs b) = 1 \<longrightarrow> b_dev (bs c) = 1 \<longrightarrow> b_blockno (bs b) = b_blockno (bs c) \<longrightarrow> b = c) \<and>
     (\<forall>n. P n \<noteq> 0 \<longrightarrow> (\<exists>b<30. b_dev (bs b) = 1 \<and> b_blockno (bs b) = n \<and> b_valid (bs b)))"

lemma cache_okD:
  assumes "cache_ok F H P pid bs sl d"
  shows "\<exists>xs. bring xs bs \<and> set xs = {0..<30}"
    and "b < 30 \<Longrightarrow> length (b_data (bs b)) = 1024"
    and "b < 30 \<Longrightarrow> b_blockno (bs b) < 2 ^ 31"
    and "b < 30 \<Longrightarrow> \<not> b_disk (bs b)"
    and "b < 30 \<Longrightarrow> b_valid (bs b) \<Longrightarrow> b_dev (bs b) = 1"
    and "b < 30 \<Longrightarrow> c < 30 \<Longrightarrow> b_dev (bs b) = 1 \<Longrightarrow> b_dev (bs c) = 1 \<Longrightarrow>
           b_blockno (bs b) = b_blockno (bs c) \<Longrightarrow> b = c"
    and "b < 30 \<Longrightarrow> unat (b_refcnt (bs b)) =
           (if H b = None then 0 else 1) + (if b_dev (bs b) = 1 then P (b_blockno (bs b)) else 0)"
    and "H b = Some n \<Longrightarrow> b < 30" and "H b = Some n \<Longrightarrow> b_dev (bs b) = 1"
    and "H b = Some n \<Longrightarrow> b_blockno (bs b) = n" and "H b = Some n \<Longrightarrow> b \<notin> F \<Longrightarrow> b_valid (bs b)"
    and "b < 30 \<Longrightarrow> sl_locked (sl (SLbuf b)) \<longleftrightarrow> H b \<noteq> None"
    and "H b = Some n \<Longrightarrow> sl_pid (sl (SLbuf b)) = pid"
    and "P n \<noteq> 0 \<Longrightarrow> \<exists>b<30. b_dev (bs b) = 1 \<and> b_blockno (bs b) = n \<and> b_valid (bs b)"
    and "b < 30 \<Longrightarrow> b_valid (bs b) \<Longrightarrow> b_refcnt (bs b) = 0 \<Longrightarrow> b_data (bs b) = dblock d (b_blockno (bs b))"
  using assms unfolding cache_ok_def slot_ok_def by blast+

definition content :: "kst \<Rightarrow> nat \<Rightarrow> bytes" where
  "content s n =
     (case find (\<lambda>b. b_valid (bufs s b) \<and> b_blockno (bufs s b) = n) [0..<30] of
        Some b \<Rightarrow> b_data (bufs s b)
      | None \<Rightarrow> dblock (drv s) n)"

lemma content_cached:
  assumes c: "cache_ok F H P pid (bufs s) sl d" and b: "b < 30" "b_valid (bufs s b)" "b_blockno (bufs s b) = n"
  shows "content s n = b_data (bufs s b)"
proof -
  have "find (\<lambda>b. b_valid (bufs s b) \<and> b_blockno (bufs s b) = n) [0..<30] = Some b"
  proof -
    from b obtain c' where f: "find (\<lambda>b. b_valid (bufs s b) \<and> b_blockno (bufs s b) = n) [0..<30] = Some c'"
      by (cases "find (\<lambda>b. b_valid (bufs s b) \<and> b_blockno (bufs s b) = n) [0..<30]") (auto simp: find_None_iff)
    then have "c' < 30" "b_valid (bufs s c')" "b_blockno (bufs s c') = n"
      by (auto simp: find_Some_iff)
    then have "c' = b" using cache_okD(5,6)[OF c] b by blast
    with f show ?thesis by simp
  qed
  then show ?thesis by (simp add: content_def)
qed

lemma content_uncached:
  "(\<And>b. b < 30 \<Longrightarrow> b_valid (bufs s b) \<Longrightarrow> b_blockno (bufs s b) \<noteq> n) \<Longrightarrow> content s n = dblock (drv s) n"
proof -
  assume "\<And>b. b < 30 \<Longrightarrow> b_valid (bufs s b) \<Longrightarrow> b_blockno (bufs s b) \<noteq> n"
  then have "find (\<lambda>b. b_valid (bufs s b) \<and> b_blockno (bufs s b) = n) [0..<30] = None"
    by (auto simp: find_None_iff)
  then show ?thesis by (simp add: content_def)
qed

lemma content_eqI:
  assumes "cache_ok F H P pid (bufs s) sl d"
    and "\<And>b. b < 30 \<Longrightarrow> b_valid (bufs s b) \<Longrightarrow> b_blockno (bufs s b) = n \<Longrightarrow> b_data (bufs s b) = xs"
    and "(\<And>b. b < 30 \<Longrightarrow> b_valid (bufs s b) \<Longrightarrow> b_blockno (bufs s b) \<noteq> n) \<Longrightarrow> dblock (drv s) n = xs"
  shows "content s n = xs"
proof (cases "\<exists>b<30. b_valid (bufs s b) \<and> b_blockno (bufs s b) = n")
  case True
  then show ?thesis using content_cached[OF assms(1)] assms(2) by auto
next
  case False
  then show ?thesis using content_uncached[of s n] assms(3) by auto
qed

lemma content_cong:
  assumes "\<And>b. b_valid (bufs t b) = b_valid (bufs s b) \<and> b_blockno (bufs t b) = b_blockno (bufs s b) \<and>
             b_data (bufs t b) = b_data (bufs s b)" and "drv t = drv s"
  shows "content t = content s"
  by (intro ext) (simp add: content_def assms cong: option.case_cong)

text \<open>The state of a process in the kernel together with the cache.\<close>

definition kcache :: "nat \<Rightarrow> nat set \<Rightarrow> (nat \<Rightarrow> nat option) \<Rightarrow> (nat \<Rightarrow> nat) \<Rightarrow> kst \<Rightarrow> bool" where
  "kcache p F H P s \<longleftrightarrow> running p {} s \<and> disk_ready s \<and>
     cache_ok F H P (p_pid (procs s p)) (bufs s) (slocks s) (drv s)"

definition cache_step :: "nat \<Rightarrow> kst \<Rightarrow> kst \<Rightarrow> bool" where
  "cache_step p s t \<longleftrightarrow> stirred p s t \<and>
     body t = (body s)\<lparr>bufs := bufs t, vdisk := vdisk t, procs := procs t, slocks := slocks t,
                       drv := drv t, wtrace := wtrace t\<rparr> \<and>
     (\<forall>i. slocks t (SLinode i) = slocks s (SLinode i))"

lemma cache_step_refl: "cache_step p s s"
  by (simp add: cache_step_def)

lemma cache_step_trans: "cache_step p s t \<Longrightarrow> cache_step p t u \<Longrightarrow> cache_step p s u"
  unfolding cache_step_def by (auto intro: stirred_trans)

section \<open>A buffer to reuse\<close>

lemma used_buffers:
  assumes c: "cache_ok F H P pid bs sl d"
  shows "finite (dom H)" and "finite {n. P n \<noteq> 0}"
    and "card {b. b < 30 \<and> b_refcnt (bs b) \<noteq> 0} \<le> card (dom H) + card {n. P n \<noteq> 0}"
proof -
  have "dom H \<subseteq> {..<30}" using cache_okD(8)[OF c] by auto
  then show fH: "finite (dom H)" by (rule finite_subset) simp
  have "{n. P n \<noteq> 0} \<subseteq> (\<lambda>b. b_blockno (bs b)) ` {..<30}" using cache_okD(14)[OF c] by fastforce
  then show fP: "finite {n. P n \<noteq> 0}" by (rule finite_subset) simp
  let ?B = "{b. b < 30 \<and> b_dev (bs b) = 1 \<and> P (b_blockno (bs b)) \<noteq> 0}"
  have "inj_on (\<lambda>b. b_blockno (bs b)) ?B" using cache_okD(6)[OF c] by (auto intro!: inj_onI)
  then have "card ?B = card ((\<lambda>b. b_blockno (bs b)) ` ?B)" by (simp add: card_image)
  also have "\<dots> \<le> card {n. P n \<noteq> 0}" by (rule card_mono[OF fP]) auto
  finally have B: "card ?B \<le> card {n. P n \<noteq> 0}" .
  have "{b. b < 30 \<and> b_refcnt (bs b) \<noteq> 0} \<subseteq> dom H \<union> ?B"
  proof
    fix b assume b: "b \<in> {b. b < 30 \<and> b_refcnt (bs b) \<noteq> 0}"
    then have "unat (b_refcnt (bs b)) \<noteq> 0" by (simp add: unat_eq_zero)
    with b cache_okD(7)[OF c, of b] show "b \<in> dom H \<union> ?B" by (auto split: if_splits)
  qed
  then have "card {b. b < 30 \<and> b_refcnt (bs b) \<noteq> 0} \<le> card (dom H \<union> ?B)"
    by (rule card_mono[rotated]) (use fH in simp)
  also have "\<dots> \<le> card (dom H) + card ?B" by (rule card_Un_le)
  finally show "card {b. b < 30 \<and> b_refcnt (bs b) \<noteq> 0} \<le> card (dom H) + card {n. P n \<noteq> 0}"
    using B by simp
qed

lemma spare_buffer:
  assumes "cache_ok F H P pid bs sl d" and "card (dom H) + card {n. P n \<noteq> 0} < 30"
  shows "\<exists>b<30. b_refcnt (bs b) = 0"
proof (rule ccontr)
  assume "\<not> ?thesis"
  then have "{b. b < 30 \<and> b_refcnt (bs b) \<noteq> 0} = {..<30}" by auto
  then have "card {b. b < 30 \<and> b_refcnt (bs b) \<noteq> 0} = 30" by simp
  with used_buffers(3)[OF assms(1)] assms(2) show False by linarith
qed

section \<open>Changing one buffer\<close>

lemma bring_upd:
  "b_next x = b_next (bs b) \<Longrightarrow> b_prev x = b_prev (bs b) \<Longrightarrow> bring xs (bs(b := x)) = bring xs bs"
proof -
  assume a: "b_next x = b_next (bs b)" "b_prev x = b_prev (bs b)"
  then have "(\<lambda>c. b_next ((bs(b := x)) c)) = (\<lambda>c. b_next (bs c))" "(\<lambda>c. b_prev ((bs(b := x)) c)) = (\<lambda>c. b_prev (bs c))"
    by auto
  then show ?thesis unfolding bring_def by simp
qed

text \<open>
  Replacing buffer \<open>b\<close> by \<open>x\<close> and its lock by \<open>l\<close>: the new buffer must fit, no other buffer may
  be affected by the change of locks, pins and drive, and no other buffer may have its block.
\<close>

lemma cache_ok_upd:
  assumes c: "cache_ok F H P pid bs sl d" and b: "b < 30"
    and links: "b_next x = b_next (bs b)" "b_prev x = b_prev (bs b)"
    and slot: "slot_ok F' H' P' pid d' b x l"
    and other: "\<And>c. c < 30 \<Longrightarrow> c \<noteq> b \<Longrightarrow> slot_ok F' H' P' pid d' c (bs c) (sl (SLbuf c))"
    and dom: "\<And>c. c \<noteq> b \<Longrightarrow> H' c = H c"
    and uniq: "\<And>c. c < 30 \<Longrightarrow> c \<noteq> b \<Longrightarrow> b_dev x = 1 \<Longrightarrow> b_dev (bs c) = 1 \<Longrightarrow> b_blockno (bs c) \<noteq> b_blockno x"
    and pins: "\<And>n. P' n \<noteq> 0 \<Longrightarrow> b_dev x = 1 \<and> b_blockno x = n \<and> b_valid x \<or>
                 (\<exists>c<30. c \<noteq> b \<and> b_dev (bs c) = 1 \<and> b_blockno (bs c) = n \<and> b_valid (bs c))"
  shows "cache_ok F' H' P' pid (bs(b := x)) (sl(SLbuf b := l)) d'"
  unfolding cache_ok_def
proof (intro conjI)
  show "\<exists>xs. bring xs (bs(b := x)) \<and> set xs = {0..<30}"
    using cache_okD(1)[OF c] by (simp add: bring_upd[of x bs b, OF links])
  show "\<forall>c<30. slot_ok F' H' P' pid d' c ((bs(b := x)) c) ((sl(SLbuf b := l)) (SLbuf c))"
    using slot other by simp
  show "\<forall>c n. H' c = Some n \<longrightarrow> c < 30" using dom b cache_okD(8)[OF c] by metis
  show "\<forall>c<30. \<forall>c'<30. b_dev ((bs(b := x)) c) = 1 \<longrightarrow> b_dev ((bs(b := x)) c') = 1 \<longrightarrow>
      b_blockno ((bs(b := x)) c) = b_blockno ((bs(b := x)) c') \<longrightarrow> c = c'"
  proof (intro allI impI)
    fix e e' assume "e < 30" "e' < 30" "b_dev ((bs(b := x)) e) = 1" "b_dev ((bs(b := x)) e') = 1"
      "b_blockno ((bs(b := x)) e) = b_blockno ((bs(b := x)) e')"
    then show "e = e'"
      using uniq[of e] uniq[of e'] cache_okD(6)[OF c, of e e'] by (cases "e = b"; cases "e' = b") simp_all
  qed
  show "\<forall>n. P' n \<noteq> 0 \<longrightarrow> (\<exists>c<30. b_dev ((bs(b := x)) c) = 1 \<and> b_blockno ((bs(b := x)) c) = n \<and> b_valid ((bs(b := x)) c))"
  proof (intro allI impI)
    fix n assume "P' n \<noteq> 0"
    from pins[OF this] show "\<exists>c<30. b_dev ((bs(b := x)) c) = 1 \<and> b_blockno ((bs(b := x)) c) = n \<and> b_valid ((bs(b := x)) c)"
    proof
      assume "b_dev x = 1 \<and> b_blockno x = n \<and> b_valid x"
      then show ?thesis using b by (intro exI[of _ b]) simp
    next
      assume "\<exists>c<30. c \<noteq> b \<and> b_dev (bs c) = 1 \<and> b_blockno (bs c) = n \<and> b_valid (bs c)"
      then obtain c where "c < 30" "c \<noteq> b" "b_dev (bs c) = 1" "b_blockno (bs c) = n" "b_valid (bs c)" by blast
      then show ?thesis by (intro exI[of _ c]) simp
    qed
  qed
qed

lemma cache_ok_slot: "cache_ok F H P pid bs sl d \<Longrightarrow> b < 30 \<Longrightarrow> slot_ok F H P pid d b (bs b) (sl (SLbuf b))"
  by (simp add: cache_ok_def)

text \<open>Other buffers are not affected when locks and pins agree for them and their block is not written.\<close>

lemma slot_ok_other:
  assumes "slot_ok F H P pid d c x l" and "H' c = H c" and "c \<notin> F' \<longrightarrow> c \<notin> F"
    and "b_dev x = 1 \<Longrightarrow> P' (b_blockno x) = P (b_blockno x)"
    and "b_valid x \<Longrightarrow> dblock d' (b_blockno x) = dblock d (b_blockno x)"
  shows "slot_ok F' H' P' pid d' c x l"
proof -
  have "unat (b_refcnt x) = (if H' c = None then 0 else 1) + (if b_dev x = 1 then P' (b_blockno x) else 0)"
    using assms(1,2,4) by (cases "b_dev x = 1") (simp_all add: slot_ok_def)
  moreover have "b_valid x \<longrightarrow> b_refcnt x = 0 \<longrightarrow> b_data x = dblock d' (b_blockno x)"
    using assms(1,5) by (simp add: slot_ok_def)
  moreover have "H' c = Some n \<longrightarrow> b_dev x = 1 \<and> b_blockno x = n \<and> (c \<notin> F' \<longrightarrow> b_valid x)" for n
    using assms(1,3) unfolding slot_ok_def assms(2) by blast
  ultimately show ?thesis using assms(1) unfolding slot_ok_def assms(2) by blast
qed

lemma cache_ok_upd_same:
  assumes c: "cache_ok F H P pid bs sl d" and b: "b < 30"
    and x: "b_next x = b_next (bs b)" "b_prev x = b_prev (bs b)" "b_dev x = b_dev (bs b)"
      "b_blockno x = b_blockno (bs b)" "b_valid (bs b) \<Longrightarrow> b_valid x"
    and slot: "slot_ok F' H' P' pid d' b x l"
    and dom: "\<And>c. c \<noteq> b \<Longrightarrow> H' c = H c" "\<And>c. c \<noteq> b \<Longrightarrow> c \<notin> F' \<Longrightarrow> c \<notin> F"
    and oth: "\<And>n. n \<noteq> b_blockno (bs b) \<or> b_dev (bs b) \<noteq> 1 \<Longrightarrow> P' n = P n \<and> dblock d' n = dblock d n"
    and own: "b_dev (bs b) = 1 \<Longrightarrow> P' (b_blockno (bs b)) \<noteq> 0 \<Longrightarrow> b_valid x"
  shows "cache_ok F' H' P' pid (bs(b := x)) (sl(SLbuf b := l)) d'"
proof (rule cache_ok_upd[OF c b x(1,2) slot _ dom(1)])
  note D = cache_okD[OF c]
  fix e assume e: "e < 30" "e \<noteq> b"
  have ne: "b_blockno (bs e) \<noteq> b_blockno (bs b) \<or> b_dev (bs b) \<noteq> 1" if "b_dev (bs e) = 1"
    using that D(6)[OF e(1) b] e(2) by auto
  then show "b_blockno (bs e) \<noteq> b_blockno x" if "b_dev x = 1" "b_dev (bs e) = 1"
    using that x by auto
  show "slot_ok F' H' P' pid d' e (bs e) (sl (SLbuf e))"
    by (rule slot_ok_other[where H' = H' and c = e, OF cache_ok_slot[OF c e(1)] dom(1)[OF e(2)]])
      (use dom(2) e(2) oth ne D(5)[OF e(1)] in auto)
next
  fix n assume n: "P' n \<noteq> 0"
  show "b_dev x = 1 \<and> b_blockno x = n \<and> b_valid x \<or>
      (\<exists>e<30. e \<noteq> b \<and> b_dev (bs e) = 1 \<and> b_blockno (bs e) = n \<and> b_valid (bs e))"
  proof (cases "n = b_blockno (bs b) \<and> b_dev (bs b) = 1")
    case True
    then show ?thesis using own n x by simp
  next
    case False
    then have "P n \<noteq> 0" using oth[of n] n by auto
    then show ?thesis using cache_okD(14)[OF c] x by auto
  qed
qed

lemma locked_refcnt:
  assumes c: "cache_ok F H P pid bs sl d" and h: "H b = Some n"
  shows "unat (b_refcnt (bs b)) = 1 + P n" and "b_refcnt (bs b) \<noteq> 0" and "b < 30"
proof -
  show "b < 30" using cache_okD(8)[OF c h] .
  then show "unat (b_refcnt (bs b)) = 1 + P n" using cache_okD(7)[OF c] cache_okD(9,10)[OF c h] h by simp
  then show "b_refcnt (bs b) \<noteq> 0" by auto
qed

lemma pinned_valid:
  assumes c: "cache_ok F H P pid bs sl d" and "b < 30" and "b_dev (bs b) = 1" and "P (b_blockno (bs b)) \<noteq> 0"
  shows "b_valid (bs b)"
  using cache_okD(14)[OF c assms(4)] cache_okD(6)[OF c _ assms(2) _ assms(3)] by auto

lemma cache_ok_data:
  assumes c: "cache_ok F H P pid bs sl d" and h: "H b = Some n" and "length xs = 1024"
  shows "cache_ok F H P pid (bs(b := (bs b)\<lparr>b_data := xs\<rparr>)) sl d"
proof -
  note r = locked_refcnt[OF c h]
  have "cache_ok F H P pid (bs(b := (bs b)\<lparr>b_data := xs\<rparr>)) (sl(SLbuf b := sl (SLbuf b))) d"
  proof (rule cache_ok_upd_same[OF c r(3)])
    show "slot_ok F H P pid d b ((bs b)\<lparr>b_data := xs\<rparr>) (sl (SLbuf b))"
      using cache_ok_slot[OF c r(3)] assms(3) r(2) by (simp add: slot_ok_def)
  qed (use pinned_valid[OF c r(3)] in simp_all)
  then show ?thesis by simp
qed

text \<open>Locking a buffer that holds the block, and reusing one that nobody uses.\<close>

lemma cache_ok_hit:
  assumes c: "cache_ok F H P pid bs sl d" and b: "b < 30" "b_dev (bs b) = 1" "H b = None"
    and P: "P (b_blockno (bs b)) + 2 < 2 ^ 32"
  shows "cache_ok (insert b F) (H(b \<mapsto> b_blockno (bs b))) P pid (bs(b := (bs b)\<lparr>b_refcnt := b_refcnt (bs b) + 1\<rparr>))
           (sl(SLbuf b := (sl (SLbuf b))\<lparr>sl_locked := True, sl_pid := pid\<rparr>)) d"
proof (rule cache_ok_upd_same[OF c b(1)])
  have r: "unat (b_refcnt (bs b)) = P (b_blockno (bs b))" using cache_okD(7)[OF c b(1)] b by simp
  then have "unat (b_refcnt (bs b) + 1) = P (b_blockno (bs b)) + 1"
    using P by (simp add: unat_word_ariths)
  moreover from this have "b_refcnt (bs b) + 1 \<noteq> 0" by auto
  ultimately show "slot_ok (insert b F) (H(b \<mapsto> b_blockno (bs b))) P pid d b ((bs b)\<lparr>b_refcnt := b_refcnt (bs b) + 1\<rparr>)
      ((sl (SLbuf b))\<lparr>sl_locked := True, sl_pid := pid\<rparr>)"
    using cache_ok_slot[OF c b(1)] b by (simp add: slot_ok_def)
qed (use pinned_valid[OF c b(1)] b in simp_all)

lemma cache_ok_miss:
  assumes c: "cache_ok F H P pid bs sl d" and b: "b < 30" "b_refcnt (bs b) = 0" and n: "n < 2 ^ 31"
    and no: "\<And>e. e < 30 \<Longrightarrow> b_dev (bs e) = 1 \<Longrightarrow> b_blockno (bs e) \<noteq> n"
  shows "cache_ok (insert b F) (H(b \<mapsto> n)) P pid
           (bs(b := (bs b)\<lparr>b_dev := 1, b_blockno := n, b_valid := False, b_refcnt := 1\<rparr>))
           (sl(SLbuf b := (sl (SLbuf b))\<lparr>sl_locked := True, sl_pid := pid\<rparr>)) d"
proof (rule cache_ok_upd[OF c b(1)])
  note D = cache_okD[OF c]
  have P: "P n = 0" using D(14)[of n] no by blast
  then show "slot_ok (insert b F) (H(b \<mapsto> n)) P pid d b ((bs b)\<lparr>b_dev := 1, b_blockno := n, b_valid := False, b_refcnt := 1\<rparr>)
      ((sl (SLbuf b))\<lparr>sl_locked := True, sl_pid := pid\<rparr>)"
    using D(2,4)[OF b(1)] n by (simp add: slot_ok_def)
  show "slot_ok (insert b F) (H(b \<mapsto> n)) P pid d e (bs e) (sl (SLbuf e))" if "e < 30" "e \<noteq> b" for e
    by (rule slot_ok_other[OF cache_ok_slot[OF c that(1)]]) (use that in auto)
  fix m assume "P m \<noteq> 0"
  then obtain e where e: "e < 30" "b_dev (bs e) = 1" "b_blockno (bs e) = m" "b_valid (bs e)" using D(14) by blast
  then have "e \<noteq> b" using D(7)[OF b(1)] b(2) \<open>P m \<noteq> 0\<close> by auto
  with e show "b_dev ((bs b)\<lparr>b_dev := 1, b_blockno := n, b_valid := False, b_refcnt := 1\<rparr>) = 1 \<and>
      b_blockno ((bs b)\<lparr>b_dev := 1, b_blockno := n, b_valid := False, b_refcnt := 1\<rparr>) = m \<and>
      b_valid ((bs b)\<lparr>b_dev := 1, b_blockno := n, b_valid := False, b_refcnt := 1\<rparr>) \<or>
      (\<exists>e<30. e \<noteq> b \<and> b_dev (bs e) = 1 \<and> b_blockno (bs e) = m \<and> b_valid (bs e))" by blast
qed (use no in simp_all)

lemma cache_ok_fill:
  assumes c: "cache_ok F H P pid bs sl d" and h: "H b = Some n" and "length xs = 1024"
  shows "cache_ok (F - {b}) H P pid (bs(b := (bs b)\<lparr>b_data := xs, b_disk := False, b_valid := True\<rparr>)) sl d"
proof -
  note r = locked_refcnt[OF c h]
  have "cache_ok (F - {b}) H P pid (bs(b := (bs b)\<lparr>b_data := xs, b_disk := False, b_valid := True\<rparr>))
      (sl(SLbuf b := sl (SLbuf b))) d"
  proof (rule cache_ok_upd_same[OF c r(3)])
    show "slot_ok (F - {b}) H P pid d b ((bs b)\<lparr>b_data := xs, b_disk := False, b_valid := True\<rparr>) (sl (SLbuf b))"
      using cache_ok_slot[OF c r(3)] assms(3) r(2) cache_okD(9)[OF c h] by (simp add: slot_ok_def)
  qed simp_all
  then show ?thesis by simp
qed

lemma cache_ok_unfresh:
  assumes c: "cache_ok (insert b F) H P pid bs sl d" and "b_valid (bs b)"
  shows "cache_ok F H P pid bs sl d"
proof -
  have "slot_ok F H P pid d e (bs e) (sl (SLbuf e))" if "e < 30" for e
    using cache_ok_slot[OF c that] assms(2) by (cases "e = b") (simp_all add: slot_ok_def)
  then show ?thesis using c by (simp add: cache_ok_def)
qed

lemma cache_ok_write:
  assumes c: "cache_ok F H P pid bs sl d" and h: "H b = Some n" and "length xs = 1024"
  shows "cache_ok F H P pid (bs(b := (bs b)\<lparr>b_disk := False\<rparr>)) sl (dput d n xs)"
proof -
  note r = locked_refcnt[OF c h]
  have "cache_ok F H P pid (bs(b := (bs b)\<lparr>b_disk := False\<rparr>)) (sl(SLbuf b := sl (SLbuf b))) (dput d n xs)"
  proof (rule cache_ok_upd_same[OF c r(3)])
    show "slot_ok F H P pid (dput d n xs) b ((bs b)\<lparr>b_disk := False\<rparr>) (sl (SLbuf b))"
      using cache_ok_slot[OF c r(3)] r(2) by (simp add: slot_ok_def)
  qed (use pinned_valid[OF c r(3)] cache_okD(9,10)[OF c h] assms(3) in \<open>simp_all add: dblock_dput\<close>)
  then show ?thesis by simp
qed

lemma cache_ok_pins:
  assumes c: "cache_ok F H P pid bs sl d" and h: "H b = Some n" "b \<notin> F" and k: "unat k = 1 + m"
  shows "cache_ok F H (P(n := m)) pid (bs(b := (bs b)\<lparr>b_refcnt := k\<rparr>)) sl d"
proof -
  note r = locked_refcnt[OF c h(1)]
  note D = cache_okD(9-11)[OF c h(1)]
  have nz: "k \<noteq> 0" using k by auto
  have "cache_ok F H (P(n := m)) pid (bs(b := (bs b)\<lparr>b_refcnt := k\<rparr>)) (sl(SLbuf b := sl (SLbuf b))) d"
  proof (rule cache_ok_upd_same[OF c r(3)])
    show "slot_ok F H (P(n := m)) pid d b ((bs b)\<lparr>b_refcnt := k\<rparr>) (sl (SLbuf b))"
      using cache_ok_slot[OF c r(3)] nz k h D by (simp add: slot_ok_def)
  qed (use D h in simp_all)
  then show ?thesis by simp
qed

lemma cache_ok_release:
  assumes c: "cache_ok F H P pid bs sl d" and h: "H b = Some n" "b \<notin> F"
    and clean: "P n = 0 \<Longrightarrow> b_data (bs b) = dblock d n"
  shows "cache_ok F (H(b := None)) P pid (bs(b := (bs b)\<lparr>b_refcnt := b_refcnt (bs b) - 1\<rparr>))
           (sl(SLbuf b := (sl (SLbuf b))\<lparr>sl_locked := False, sl_pid := 0\<rparr>)) d"
proof -
  note r = locked_refcnt[OF c h(1)]
  note D = cache_okD(9-11)[OF c h(1)]
  have u: "unat (b_refcnt (bs b) - 1) = P n" using r(1) unat_minus_one[OF r(2)] by simp
  show ?thesis
  proof (rule cache_ok_upd_same[OF c r(3)])
    show "slot_ok F (H(b := None)) P pid d b ((bs b)\<lparr>b_refcnt := b_refcnt (bs b) - 1\<rparr>)
        ((sl (SLbuf b))\<lparr>sl_locked := False, sl_pid := 0\<rparr>)"
      using cache_ok_slot[OF c r(3)] u h D clean by (auto simp: slot_ok_def)
  qed (use D h in simp_all)
qed

lemma cache_ok_relinked:
  assumes c: "cache_ok F H P pid bs sl d" and r: "relinked bs bs'" and "bring xs bs'" and "set xs = {0..<30}"
  shows "cache_ok F H P pid bs' sl d"
proof -
  have "slot_ok F H P pid d b (bs' b) (sl (SLbuf b))" if "b < 30" for b
    using cache_ok_slot[OF c that] r by (simp add: slot_ok_def relinked_def)
  then show ?thesis using c r assms(3,4) by (auto simp: cache_ok_def relinked_def)
qed

section \<open>Operations\<close>

lemma kcacheD: "kcache p F H P s \<Longrightarrow> running p {} s" "kcache p F H P s \<Longrightarrow> disk_ready s"
  "kcache p F H P s \<Longrightarrow> cache_ok F H P (p_pid (procs s p)) (bufs s) (slocks s) (drv s)"
  by (simp_all add: kcache_def)

lemma running_acquiresleep:
  assumes r: "running p {} s" and "\<not> sl_locked (slocks s lk)"
  shows "wp (acquiresleep lk s) (\<lambda>_ t. running p {} t \<and> body t = (body s)\<lparr>slocks := (slocks s)(lk :=
           (slocks s lk)\<lparr>sl_locked := True, sl_pid := p_pid (procs s p)\<rparr>)\<rparr>)"
proof -
  have "running p {} t" if "env (Some p) {} t" "body t = (body s)\<lparr>slocks := x\<rparr>" for t x
    using body_eqD[OF that(2)] r that(1) by (simp add: running_def)
  then show ?thesis
    using r assms(2) by (intro wp_mono[OF acquiresleep_env]) (auto simp: running_def)
qed

text \<open>What an operation that only changes buffers and their sleep locks leaves behind.\<close>

lemma kcacheI_stirred:
  assumes k: "kcache p F H P s" and r: "running p {} t" and st: "stirred p s t"
    and bt: "body t = (body s)\<lparr>bufs := bs, slocks := sl, procs := procs t\<rparr>"
    and c: "cache_ok F' H' P' (p_pid (procs s p)) bs sl (drv s)"
    and sl: "\<And>i. sl (SLinode i) = slocks s (SLinode i)"
  shows "kcache p F' H' P' t \<and> cache_step p s t \<and> drv t = drv s \<and> wtrace t = wtrace s"
proof -
  note B = body_eqD[OF bt]
  have "disk_ready t" using kcacheD(2)[OF k] B by (simp add: disk_ready_def)
  moreover have "cache_step p s t" unfolding cache_step_def using B sl st bt by simp
  ultimately show ?thesis using r c B st by (simp add: kcache_def stirred_def)
qed

lemma kcacheI:
  assumes k: "kcache p F H P s" and r: "running p {} t"
    and bt: "body t = (body s)\<lparr>bufs := bs, slocks := sl\<rparr>"
    and c: "cache_ok F' H' P' (p_pid (procs s p)) bs sl (drv s)"
    and sl: "\<And>i. sl (SLinode i) = slocks s (SLinode i)"
  shows "kcache p F' H' P' t \<and> cache_step p s t \<and> drv t = drv s \<and> wtrace t = wtrace s"
proof (rule kcacheI_stirred[OF k r _ _ c sl])
  have "procs t = procs s" using body_eqD[OF bt] by simp
  then show "stirred p s t" and "body t = (body s)\<lparr>bufs := bs, slocks := sl, procs := procs t\<rparr>"
    by (simp_all add: stirred_def bt)
qed

lemma content_bufs:
  assumes "body t = (body s)\<lparr>bufs := bs, slocks := sl\<rparr>"
    and "\<And>b. b_valid (bs b) = b_valid (bufs s b) \<and> b_blockno (bs b) = b_blockno (bufs s b) \<and> b_data (bs b) = b_data (bufs s b)"
  shows "content t = content s"
  using assms(2) body_eqD[OF assms(1)] by (intro content_cong) simp_all

lemma upd_buf_body [body_simps]:
  "body (upd_buf b f s) = (body s)\<lparr>bufs := (bufs s)(b := f (bufs s b))\<rparr>"
  "running p L (upd_buf b f s) = running p L s"
  by (simp_all add: upd_buf_def body_simps)

text \<open>\<open>bpin\<close> and \<open>bunpin\<close>: a buffer update inside a critical section.\<close>

lemma bcache_critical:
  assumes "running p {} s"
  shows "bnd (acquire Lbcache s) (\<lambda>_ s. release Lbcache (upd_buf b f s)) = Ok () (rel Lbcache (upd_buf b f (acq Lbcache s)))"
    and "running p {} (rel Lbcache (upd_buf b f (acq Lbcache s)))"
  using running_acquire[OF assms, of Lbcache] running_release[of p "{Lbcache}" "upd_buf b f (acq Lbcache s)" Lbcache]
  by (simp_all add: body_simps)

lemma set_refcnt_spec:
  assumes k: "kcache p F H P s" and h: "H b = Some n" "b \<notin> F" and m: "unat (f (b_refcnt (bufs s b))) = 1 + m"
  shows "wp (bnd (acquire Lbcache s) (\<lambda>_ s. release Lbcache (upd_buf b (\<lambda>x. x\<lparr>b_refcnt := f (b_refcnt x)\<rparr>) s)))
           (\<lambda>_ t. kcache p F H (P(n := m)) t \<and> cache_step p s t \<and> content t = content s \<and>
             drv t = drv s \<and> wtrace t = wtrace s)"
proof -
  let ?t = "rel Lbcache (upd_buf b (\<lambda>x. x\<lparr>b_refcnt := f (b_refcnt x)\<rparr>) (acq Lbcache s))"
  note cr = bcache_critical[OF kcacheD(1)[OF k], of b "\<lambda>x. x\<lparr>b_refcnt := f (b_refcnt x)\<rparr>"]
  have bt: "body ?t = (body s)\<lparr>bufs := (bufs s)(b := (bufs s b)\<lparr>b_refcnt := f (b_refcnt (bufs s b))\<rparr>), slocks := slocks s\<rparr>"
    by (simp add: body_simps lock_simps)
  have "kcache p F H (P(n := m)) ?t \<and> cache_step p s ?t \<and> drv ?t = drv s \<and> wtrace ?t = wtrace s"
    by (rule kcacheI[OF k cr(2) bt cache_ok_pins[OF kcacheD(3)[OF k] h m]]) simp
  moreover have "content ?t = content s" by (rule content_bufs[OF bt]) simp
  ultimately show ?thesis by (simp add: cr(1))
qed

lemma bpin_spec:
  assumes k: "kcache p F H P s" and h: "H b = Some n" "b \<notin> F" and P: "P n + 2 < 2 ^ 32"
  shows "wp (bpin b s) (\<lambda>_ t. kcache p F H (P(n := P n + 1)) t \<and> cache_step p s t \<and> content t = content s \<and>
           drv t = drv s \<and> wtrace t = wtrace s)"
  unfolding bpin_def
  by (rule set_refcnt_spec[where f = "\<lambda>r. r + 1", OF k h])
    (use locked_refcnt(1)[OF kcacheD(3)[OF k] h(1)] P in \<open>simp add: unat_word_ariths\<close>)

lemma bunpin_spec:
  assumes k: "kcache p F H P s" and h: "H b = Some n" "b \<notin> F" and P: "P n \<noteq> 0"
  shows "wp (bunpin b s) (\<lambda>_ t. kcache p F H (P(n := P n - 1)) t \<and> cache_step p s t \<and> content t = content s \<and>
           drv t = drv s \<and> wtrace t = wtrace s)"
  unfolding bunpin_def
  by (rule set_refcnt_spec[where f = "\<lambda>r. r - 1", OF k h])
    (use locked_refcnt(1,2)[OF kcacheD(3)[OF k] h(1)] P in \<open>simp add: unat_minus_one\<close>)

text \<open>The end of both branches of \<open>bget\<close>: update the buffer, leave the critical section, lock the buffer.\<close>

lemma bget_lock:
  assumes r: "running p {} s" and l: "\<not> sl_locked (slocks s (SLbuf b))"
  shows "wp (bnd (release Lbcache (upd_buf b f (acq Lbcache s))) (\<lambda>_ s. bnd (acquiresleep (SLbuf b) s) (\<lambda>_ s. Ok b s)))
      (\<lambda>b' t. b' = b \<and> running p {} t \<and> body t = (body s)\<lparr>bufs := (bufs s)(b := f (bufs s b)), slocks := (slocks s)(SLbuf b :=
         (slocks s (SLbuf b))\<lparr>sl_locked := True, sl_pid := p_pid (procs s p)\<rparr>)\<rparr>)"
proof -
  let ?u = "rel Lbcache (upd_buf b f (acq Lbcache s))"
  have a: "running p {Lbcache} (upd_buf b f (acq Lbcache s))"
    using running_acquire(2)[OF r, of Lbcache] by (simp add: body_simps)
  have u: "running p {} ?u" and R: "release Lbcache (upd_buf b f (acq Lbcache s)) = Ok () ?u"
    using running_release[OF a, of Lbcache] by simp_all
  have sel: "slocks ?u = slocks s" "procs ?u = procs s" by (simp_all add: upd_buf_def lock_simps)
  have bu: "body ?u = (body s)\<lparr>bufs := (bufs s)(b := f (bufs s b))\<rparr>" by (simp add: body_simps lock_simps)
  show ?thesis
    unfolding R bnd.simps wp_bnd
    by (rule wp_mono[OF running_acquiresleep[OF u]]) (use l sel bu in simp_all)
qed

lemma bget_hit:
  assumes k: "kcache p F H P s" and n: "n \<notin> ran H" "P n + 2 < 2 ^ 32"
    and b: "b < 30" "b_dev (bufs s b) = 1" "b_blockno (bufs s b) = n"
  shows "wp (bnd (release Lbcache (upd_buf b (\<lambda>x. x\<lparr>b_refcnt := b_refcnt x + 1\<rparr>) (acq Lbcache s)))
           (\<lambda>_ s. bnd (acquiresleep (SLbuf b) s) (\<lambda>_ s. Ok b s)))
         (\<lambda>b t. b \<notin> dom H \<and> kcache p (insert b F) (H(b \<mapsto> n)) P t \<and> cache_step p s t \<and>
           content t = content s \<and> drv t = drv s \<and> wtrace t = wtrace s)"
proof -
  note c = kcacheD(3)[OF k]
  note D = cache_okD[OF c]
  have h: "H b = None" using n(1) D(10)[of b] b(3) by (cases "H b") (auto simp: ran_def)
  then have nl: "\<not> sl_locked (slocks s (SLbuf b))" using D(12)[OF b(1)] by simp
  note ok = cache_ok_hit[OF c b(1,2) h, unfolded b(3), OF n(2)]
  show ?thesis
  proof (rule wp_mono[OF bget_lock[OF kcacheD(1)[OF k] nl]], elim conjE)
    fix b' t assume b': "b' = b" and t: "running p {} t"
      and bt: "body t = (body s)\<lparr>bufs := (bufs s)(b := (bufs s b)\<lparr>b_refcnt := b_refcnt (bufs s b) + 1\<rparr>),
        slocks := (slocks s)(SLbuf b := (slocks s (SLbuf b))\<lparr>sl_locked := True, sl_pid := p_pid (procs s p)\<rparr>)\<rparr>"
    have "kcache p (insert b F) (H(b \<mapsto> n)) P t \<and> cache_step p s t \<and> drv t = drv s \<and> wtrace t = wtrace s"
      by (rule kcacheI[OF k t bt ok]) simp
    moreover have "content t = content s" by (rule content_bufs[OF bt]) simp
    ultimately show "b' \<notin> dom H \<and> kcache p (insert b' F) (H(b' \<mapsto> n)) P t \<and> cache_step p s t \<and>
        content t = content s \<and> drv t = drv s \<and> wtrace t = wtrace s"
      using b' h by (simp add: domIff)
  qed
qed

lemma content_reuse:
  assumes c: "cache_ok F H P pid (bufs s) sl (drv s)" and c': "cache_ok F' H' P' pid' (bufs t) sl' d'"
    and b: "b < 30" "b_refcnt (bufs s b) = 0" and d: "drv t = drv s"
    and bt: "bufs t = (bufs s)(b := x)" and v: "\<not> b_valid x"
  shows "content t = content s"
proof
  fix m
  show "content t m = content s m"
  proof (rule content_eqI[OF c'])
    fix e assume "e < 30" "b_valid (bufs t e)" "b_blockno (bufs t e) = m"
    then show "b_data (bufs t e) = content s m"
      using content_cached[OF c, of e m] v by (simp add: bt split: if_splits)
  next
    assume no: "\<And>e. e < 30 \<Longrightarrow> b_valid (bufs t e) \<Longrightarrow> b_blockno (bufs t e) \<noteq> m"
    show "dblock (drv t) m = content s m"
    proof (cases "b_valid (bufs s b) \<and> b_blockno (bufs s b) = m")
      case True
      then show ?thesis using content_cached[OF c b(1)] cache_okD(15)[OF c b(1)] b(2) d by simp
    next
      case False
      have "content s m = dblock (drv s) m"
      proof (rule content_uncached)
        fix e assume "e < 30" "b_valid (bufs s e)"
        then show "b_blockno (bufs s e) \<noteq> m" using no[of e] False by (cases "e = b") (auto simp: bt)
      qed
      then show ?thesis using d by simp
    qed
  qed
qed

lemma bget_miss:
  assumes k: "kcache p F H P s" and n: "n < 2 ^ 31" and b: "b < 30" "b_refcnt (bufs s b) = 0"
    and no: "\<And>e. e < 30 \<Longrightarrow> b_dev (bufs s e) = 1 \<Longrightarrow> b_blockno (bufs s e) \<noteq> n"
  shows "wp (bnd (release Lbcache (upd_buf b (\<lambda>x. x\<lparr>b_dev := 1, b_blockno := n, b_valid := False, b_refcnt := 1\<rparr>) (acq Lbcache s)))
           (\<lambda>_ s. bnd (acquiresleep (SLbuf b) s) (\<lambda>_ s. Ok b s)))
         (\<lambda>b t. b \<notin> dom H \<and> kcache p (insert b F) (H(b \<mapsto> n)) P t \<and> cache_step p s t \<and>
           content t = content s \<and> drv t = drv s \<and> wtrace t = wtrace s)"
proof -
  note c = kcacheD(3)[OF k]
  note D = cache_okD[OF c]
  have h: "H b = None" using D(7)[OF b(1)] b(2) by (simp split: if_splits)
  then have nl: "\<not> sl_locked (slocks s (SLbuf b))" using D(12)[OF b(1)] by simp
  note ok = cache_ok_miss[OF c b n no]
  show ?thesis
  proof (rule wp_mono[OF bget_lock[OF kcacheD(1)[OF k] nl]], elim conjE)
    fix b' t assume b': "b' = b" and t: "running p {} t"
      and bt: "body t = (body s)\<lparr>bufs := (bufs s)(b := (bufs s b)\<lparr>b_dev := 1, b_blockno := n, b_valid := False, b_refcnt := 1\<rparr>),
        slocks := (slocks s)(SLbuf b := (slocks s (SLbuf b))\<lparr>sl_locked := True, sl_pid := p_pid (procs s p)\<rparr>)\<rparr>"
    have K: "kcache p (insert b F) (H(b \<mapsto> n)) P t \<and> cache_step p s t \<and> drv t = drv s \<and> wtrace t = wtrace s"
      by (rule kcacheI[OF k t bt ok]) simp_all
    have "bufs t = (bufs s)(b := (bufs s b)\<lparr>b_dev := 1, b_blockno := n, b_valid := False, b_refcnt := 1\<rparr>)"
      using body_eqD(22)[OF bt] by simp
    from content_reuse[OF c kcacheD(3) b _ this] K have "content t = content s" by auto
    with K show "b' \<notin> dom H \<and> kcache p (insert b' F) (H(b' \<mapsto> n)) P t \<and> cache_step p s t \<and>
        content t = content s \<and> drv t = drv s \<and> wtrace t = wtrace s"
      using b' h by (simp add: domIff)
  qed
qed

lemma bget_spec:
  assumes k: "kcache p F H P s" and n: "n < 2 ^ 31" "n \<notin> ran H" and P: "P n + 2 < 2 ^ 32"
    and room: "P n \<noteq> 0 \<or> card (dom H) + card {m. P m \<noteq> 0} < 30"
  shows "wp (bget 1 n s) (\<lambda>b t. b \<notin> dom H \<and> kcache p (insert b F) (H(b \<mapsto> n)) P t \<and> cache_step p s t \<and>
           content t = content s \<and> drv t = drv s \<and> wtrace t = wtrace s)"
proof -
  note c = kcacheD(3)[OF k]
  obtain xs where ring: "bring xs (bufs s)" and xs: "set xs = {0..<30}" using cache_okD(1)[OF c] by blast
  note sc = bring_scans[OF ring xs]
  have A: "acquire Lbcache s = Ok () (acq Lbcache s)" and ab: "bufs (acq Lbcache s) = bufs s"
    using running_acquire(1)[OF kcacheD(1)[OF k], of Lbcache] by (simp_all add: acq_select)
  show ?thesis
  proof (cases "find (\<lambda>b. b_dev (bufs s b) = 1 \<and> b_blockno (bufs s b) = n) xs")
    case (Some b)
    then have "b < 30" "b_dev (bufs s b) = 1" "b_blockno (bufs s b) = n"
      using xs by (auto simp: find_Some_iff)
    from bget_hit[OF k n(2) P this] show ?thesis by (simp add: bget_def A ab sc Some Let_def del: One_nat_def)
  next
    case None
    then have no: "b_blockno (bufs s e) \<noteq> n" if "e < 30" "b_dev (bufs s e) = 1" for e
      using that xs by (auto simp: find_None_iff)
    then have "P n = 0" using cache_okD(14)[OF c] by blast
    then obtain e where "e < 30" "b_refcnt (bufs s e) = 0" using spare_buffer[OF c] room by auto
    then have "find (\<lambda>b. b_refcnt (bufs s b) = 0) (rev xs) \<noteq> None" using xs by (auto simp: find_None_iff)
    then obtain b where fb: "find (\<lambda>b. b_refcnt (bufs s b) = 0) (rev xs) = Some b" by blast
    then obtain i where i: "i < length (rev xs)" "b = rev xs ! i" and r0: "b_refcnt (bufs s b) = 0"
      by (auto simp: find_Some_iff)
    have "b < 30" using nth_mem[OF i(1)] xs by (simp only: i(2)[symmetric] set_rev atLeastLessThan_iff)
    from bget_miss[OF k n(1) \<open>b < 30\<close> r0 no] show ?thesis by (simp add: bget_def A ab sc None fb Let_def del: One_nat_def)
  qed
qed

text \<open>A transfer between a locked buffer and its block.\<close>

lemma disk_io_body: "body (disk_io b write s) = disk_io b write (body s)"
  by (cases "write") (simp_all add: disk_io_def body_simps Let_def)

lemma locked_rw:
  assumes k: "kcache p F H P s" and h: "H b = Some n"
  shows "wp (virtio_disk_rw b write s) (\<lambda>_ t. running p {} t \<and> disk_ready t \<and> cache_step p s t \<and> slocks t = slocks s \<and>
           bufs t = bufs (disk_io b write s) \<and> drv t = drv (disk_io b write s) \<and> wtrace t = wtrace (disk_io b write s))"
proof -
  note c = kcacheD(3)[OF k]
  note D = cache_okD[OF c]
  show ?thesis
  proof (rule wp_mono[OF virtio_disk_rw_env[OF kcacheD(1,2)[OF k] D(3)[OF D(8)[OF h]] D(2)[OF D(8)[OF h]]]], elim conjE)
    fix t assume t: "running p {} t" "disk_ready t" "stirred p s t"
      and bt: "body t = (disk_io b write (body s))\<lparr>vdisk := vdisk t, procs := procs t\<rparr>"
    have "bufs t = bufs (disk_io b write s)" "drv t = drv (disk_io b write s)" "wtrace t = wtrace (disk_io b write s)"
      "slocks t = slocks s"
      using body_eqD[OF bt] by (cases "write"; simp add: disk_io_def Let_def)+
    moreover from this have "body t = (body s)\<lparr>bufs := bufs t, vdisk := vdisk t, procs := procs t, slocks := slocks t,
        drv := drv t, wtrace := wtrace t\<rparr>"
      by (cases "write") (simp_all add: bt disk_io_def Let_def)
    ultimately show "running p {} t \<and> disk_ready t \<and> cache_step p s t \<and> slocks t = slocks s \<and>
        bufs t = bufs (disk_io b write s) \<and> drv t = drv (disk_io b write s) \<and> wtrace t = wtrace (disk_io b write s)"
      using t by (simp add: cache_step_def)
  qed
qed

lemma upd_buf_kcache:
  assumes k: "running p {} t" "disk_ready t" and c: "cache_ok F H P (p_pid (procs t p)) ((bufs t)(b := f (bufs t b))) (slocks t) (drv t)"
  shows "kcache p F H P (upd_buf b f t)" and "cache_step p t (upd_buf b f t)"
  using assms by (auto simp: kcache_def cache_step_def stirred_def upd_buf_def body_simps disk_ready_def)

lemma content_fill:
  assumes c: "cache_ok F H P pid (bufs t) sl d" and h: "H b = Some n" and inv: "\<not> b_valid (bufs t b)"
    and c': "cache_ok F' H P pid' (bufs v) sl' d'" and d: "drv v = drv t"
    and bv: "bufs v = (bufs t)(b := (bufs t b)\<lparr>b_data := dblock (drv t) n, b_disk := False, b_valid := True\<rparr>)"
  shows "content v = content t"
proof
  note D = cache_okD[OF c]
  fix m show "content v m = content t m"
  proof (rule content_eqI[OF c'])
    fix e assume e: "e < 30" "b_valid (bufs v e)" "b_blockno (bufs v e) = m"
    show "b_data (bufs v e) = content t m"
    proof (cases "e = b")
      case True
      have "content t n = dblock (drv t) n"
      proof (rule content_uncached)
        fix e assume "e < 30" "b_valid (bufs t e)"
        then show "b_blockno (bufs t e) \<noteq> n" using D(6)[of e b] D(5)[of e] D(8-10)[OF h] inv by auto
      qed
      then show ?thesis using e True D(10)[OF h] by (simp add: bv)
    next
      case False
      then show ?thesis using e content_cached[OF c, of e m] by (simp add: bv)
    qed
  next
    assume no: "\<And>e. e < 30 \<Longrightarrow> b_valid (bufs v e) \<Longrightarrow> b_blockno (bufs v e) \<noteq> m"
    have "content t m = dblock (drv t) m"
    proof (rule content_uncached)
      fix e assume "e < 30" "b_valid (bufs t e)"
      then show "b_blockno (bufs t e) \<noteq> m" using no[of e] by (cases "e = b") (auto simp: bv)
    qed
    then show "dblock (drv v) m = content t m" by (simp add: d)
  qed
qed

lemma bread_fill:
  assumes k: "kcache p {b} H P t" and h: "H b = Some n" and inv: "\<not> b_valid (bufs t b)"
  shows "wp (virtio_disk_rw b False t) (\<lambda>_ u. let v = upd_buf b (\<lambda>x. x\<lparr>b_valid := True\<rparr>) u in
           kcache p {} H P v \<and> cache_step p t v \<and> content v = content t \<and> drv v = drv t \<and> wtrace v = wtrace t)"
proof (rule wp_mono[OF locked_rw[OF k h]], elim conjE)
  note c = kcacheD(3)[OF k]
  fix u assume u: "running p {} u" "disk_ready u" and su: "cache_step p t u" and sl: "slocks u = slocks t"
    and bu: "bufs u = bufs (disk_io b False t)" "drv u = drv (disk_io b False t)" "wtrace u = wtrace (disk_io b False t)"
  let ?v = "upd_buf b (\<lambda>x. x\<lparr>b_valid := True\<rparr>) u"
  have u': "bufs u = (bufs t)(b := (bufs t b)\<lparr>b_data := dblock (drv t) n, b_disk := False\<rparr>)"
    "drv u = drv t" "wtrace u = wtrace t"
    using bu cache_okD(10)[OF c h] by (simp_all add: disk_io_def Let_def)
  have pu: "procs u p = procs t p" using su by (simp add: cache_step_def stirred_def)
  have "cache_ok {} H P (p_pid (procs u p)) ((bufs u)(b := (bufs u b)\<lparr>b_valid := True\<rparr>)) (slocks u) (drv u)"
    using cache_ok_fill[OF c h, of "dblock (drv t) n"] by (simp add: u' sl pu)
  note K = upd_buf_kcache[OF u, where f = "\<lambda>x. x\<lparr>b_valid := True\<rparr>", OF this]
  have "content ?v = content t"
    by (rule content_fill[OF c h inv kcacheD(3)[OF K(1)]]) (simp_all add: upd_buf_def u')
  then show "let v = ?v in kcache p {} H P v \<and> cache_step p t v \<and> content v = content t \<and> drv v = drv t \<and> wtrace v = wtrace t"
    using K cache_step_trans[OF su K(2)] u' by (simp add: upd_buf_def)
qed

lemma bread_spec:
  assumes k: "kcache p {} H P s" and n: "n < 2 ^ 31" "n \<notin> ran H" and P: "P n + 2 < 2 ^ 32"
    and room: "P n \<noteq> 0 \<or> card (dom H) + card {m. P m \<noteq> 0} < 30"
  shows "wp (bread 1 n s) (\<lambda>b t. b \<notin> dom H \<and> kcache p {} (H(b \<mapsto> n)) P t \<and> cache_step p s t \<and>
           content t = content s \<and> drv t = drv s \<and> wtrace t = wtrace s)"
  unfolding bread_def wp_bnd
proof (rule wp_mono[OF bget_spec[OF k n P room]], elim conjE)
  fix b t assume b: "b \<notin> dom H" and kt: "kcache p {b} (H(b \<mapsto> n)) P t" and st: "cache_step p s t"
    and eq: "content t = content s" "drv t = drv s" "wtrace t = wtrace s"
  show "wp (if \<not> b_valid (bufs t b)
        then bnd (virtio_disk_rw b False t) (\<lambda>_ s. Ok b (upd_buf b (\<lambda>x. x\<lparr>b_valid := True\<rparr>) s)) else Ok b t)
      (\<lambda>b t. b \<notin> dom H \<and> kcache p {} (H(b \<mapsto> n)) P t \<and> cache_step p s t \<and>
        content t = content s \<and> drv t = drv s \<and> wtrace t = wtrace s)"
  proof (cases "b_valid (bufs t b)")
    case True
    then have "kcache p {} (H(b \<mapsto> n)) P t" using kt cache_ok_unfresh[OF kcacheD(3)[OF kt]] by (simp add: kcache_def)
    then show ?thesis using True b st eq by simp
  next
    case False
    have h: "(H(b \<mapsto> n)) b = Some n" by simp
    have "wp (virtio_disk_rw b False t) (\<lambda>_ u. let v = upd_buf b (\<lambda>x. x\<lparr>b_valid := True\<rparr>) u in
        b \<notin> dom H \<and> kcache p {} (H(b \<mapsto> n)) P v \<and> cache_step p s v \<and>
        content v = content s \<and> drv v = drv s \<and> wtrace v = wtrace s)"
      by (rule wp_mono[OF bread_fill[where H = "H(b \<mapsto> n)", OF kt h False]]) (use b eq cache_step_trans[OF st] in \<open>auto simp: Let_def\<close>)
    then show ?thesis using False by (simp add: wp_bnd Let_def)
  qed
qed

text \<open>\<open>bwrite\<close> of a locked buffer, and \<open>brelse\<close> of one that is pinned or unchanged.\<close>

lemma holdingsleep_locked:
  assumes k: "kcache p F H P s" and h: "H b = Some n"
  shows "wp (holdingsleep (SLbuf b) s) (\<lambda>r t. r \<and> running p {} t \<and> body t = body s)"
proof -
  note D = cache_okD[OF kcacheD(3)[OF k]]
  have r: "running p {} s" using k by (simp add: kcache_def)
  then have e: "env (Some p) {} s" by (simp add: running_def)
  have "running p {} t" if "env (Some p) {} t" "body t = body s" for t
    using that body_eqD[OF that(2)] r by (simp add: running_def)
  then show ?thesis
    using wp_mono[OF holdingsleep_env[OF e, of "SLbuf b"]] D(12)[OF D(8)[OF h]] D(13)[OF h] h by auto
qed

lemma same_body:
  assumes "body t = body s" and "running p {} t"
  shows "kcache p F H P t = kcache p F H P s \<or> \<not> running p {} s" and "cache_step p s t" and "content t = content s"
    and "bufs t = bufs s" and "drv t = drv s" and "wtrace t = wtrace s" and "slocks t = slocks s" and "procs t = procs s"
proof -
  note B = body_eqD[OF assms(1)]
  show "kcache p F H P t = kcache p F H P s \<or> \<not> running p {} s"
    using B assms(2) by (auto simp: kcache_def disk_ready_def)
  show "cache_step p s t" using B by (simp add: cache_step_def stirred_def assms(1))
  show "content t = content s" using B by (intro content_cong) simp_all
  show "bufs t = bufs s" "drv t = drv s" "wtrace t = wtrace s" "slocks t = slocks s" "procs t = procs s" using B by simp_all
qed

lemma content_locked:
  "kcache p {} H P s \<Longrightarrow> H b = Some n \<Longrightarrow> content s n = b_data (bufs s b)"
  using content_cached[OF kcacheD(3), of p "{}" H P s b n] cache_okD(8,10,11)[OF kcacheD(3), of p "{}" H P s b n] by simp

lemma content_write:
  assumes c: "cache_ok {} H P pid (bufs s) sl d" and c': "cache_ok {} H P pid' (bufs t) sl' d'" and h: "H b = Some n"
    and bt: "bufs t = (bufs s)(b := (bufs s b)\<lparr>b_disk := False\<rparr>)"
    and dt: "drv t = dput (drv s) n xs" and xs: "length xs = 1024"
  shows "content t = content s"
proof
  note D = cache_okD(8-11)[OF c h]
  fix m show "content t m = content s m"
  proof (rule content_eqI[OF c'])
    fix e assume "e < 30" "b_valid (bufs t e)" "b_blockno (bufs t e) = m"
    then show "b_data (bufs t e) = content s m"
      using content_cached[OF c, of e m] by (cases "e = b") (simp_all add: bt)
  next
    assume no: "\<And>e. e < 30 \<Longrightarrow> b_valid (bufs t e) \<Longrightarrow> b_blockno (bufs t e) \<noteq> m"
    have "m \<noteq> n" using no[of b] D by (simp add: bt)
    moreover have "content s m = dblock (drv s) m"
    proof (rule content_uncached)
      fix e assume "e < 30" "b_valid (bufs s e)"
      then show "b_blockno (bufs s e) \<noteq> m" using no[of e] by (cases "e = b") (auto simp: bt)
    qed
    ultimately show "dblock (drv t) m = content s m" using xs by (simp add: dt dblock_dput)
  qed
qed

lemma bwrite_spec:
  assumes k: "kcache p {} H P s" and h: "H b = Some n"
  shows "wp (bwrite b s) (\<lambda>_ t. kcache p {} H P t \<and> cache_step p s t \<and> content t = content s \<and>
           drv t = dput (drv s) n (content s n) \<and> wtrace t = wtrace s @ [(n, content s n)])"
  unfolding bwrite_def wp_bnd
proof (rule wp_mono[OF holdingsleep_locked[OF k h]], elim conjE)
  fix r t assume r and rt: "running p {} t" and bt: "body t = body s"
  note S = same_body[OF bt rt]
  have kt: "kcache p {} H P t" using S(1) k by (auto simp: kcache_def)
  note c = kcacheD(3)[OF kt]
  have "wp (virtio_disk_rw b True t) (\<lambda>_ t. kcache p {} H P t \<and> cache_step p s t \<and> content t = content s \<and>
      drv t = dput (drv s) n (content s n) \<and> wtrace t = wtrace s @ [(n, content s n)])"
  proof (rule wp_mono[OF locked_rw[OF kt h]], elim conjE)
    fix u assume u: "running p {} u" "disk_ready u" and su: "cache_step p t u" and sl: "slocks u = slocks t"
      and bu: "bufs u = bufs (disk_io b True t)" "drv u = drv (disk_io b True t)" "wtrace u = wtrace (disk_io b True t)"
    let ?xs = "content s n"
    have xs: "b_data (bufs t b) = ?xs" using content_locked[OF kt h] S(3) by simp
    have u': "bufs u = (bufs t)(b := (bufs t b)\<lparr>b_disk := False\<rparr>)"
      "drv u = dput (drv t) n ?xs" "wtrace u = wtrace t @ [(n, ?xs)]"
      using bu cache_okD(10)[OF c h] xs by (simp_all add: disk_io_def Let_def)
    have len: "length ?xs = 1024" using cache_okD(2)[OF c cache_okD(8)[OF c h]] xs by simp
    have pu: "procs u p = procs t p" using su by (simp add: cache_step_def stirred_def)
    have "kcache p {} H P u" using u cache_ok_write[OF c h len] by (simp add: kcache_def u' sl pu)
    moreover from this have "content u = content t"
      using content_write[OF c kcacheD(3) h u'(1,2) len] by blast
    ultimately show "kcache p {} H P u \<and> cache_step p s u \<and> content u = content s \<and>
        drv u = dput (drv s) n ?xs \<and> wtrace u = wtrace s @ [(n, ?xs)]"
      using cache_step_trans[OF S(2) su] S u' by simp
  qed
  then show "wp (if \<not> r then Panic ''bwrite'' else virtio_disk_rw b True t) (\<lambda>_ t. kcache p {} H P t \<and>
      cache_step p s t \<and> content t = content s \<and>
      drv t = dput (drv s) n (content s n) \<and> wtrace t = wtrace s @ [(n, content s n)])"
    using \<open>r\<close> by simp
qed

lemma releasesleep_locked:
  assumes "running p {} s"
  shows "wp (releasesleep lk s) (\<lambda>_ t. running p {} t \<and> stirred p s t \<and> body t = (body s)\<lparr>
           slocks := (slocks s)(lk := (slocks s lk)\<lparr>sl_locked := False, sl_pid := 0\<rparr>), procs := procs t\<rparr>)"
proof -
  have e: "env (Some p) {} s" using assms by (simp add: running_def)
  show ?thesis
  proof (rule wp_mono[OF releasesleep_env[OF e]], elim conjE)
    fix t assume et: "env (Some p) {} t" and bt: "body t = (body s)\<lparr>
      slocks := (slocks s)(lk := (slocks s lk)\<lparr>sl_locked := False, sl_pid := 0\<rparr>),
      procs := woken ({0..<64} - {p}) (Some (Csleeplock lk)) (procs s)\<rparr>"
    have ps: "procs t = woken ({0..<64} - {p}) (Some (Csleeplock lk)) (procs s)" and fu: "future t = future s"
      using body_eqD[OF bt] by simp_all
    then have st: "stirred p s t" by (intro stirred_woken[of p "{0..<64} - {p}"]) auto
    then have "running p {} t" using et fu assms by (simp add: running_def stirred_def)
    with st ps bt show "running p {} t \<and> stirred p s t \<and> body t = (body s)\<lparr>
        slocks := (slocks s)(lk := (slocks s lk)\<lparr>sl_locked := False, sl_pid := 0\<rparr>), procs := procs t\<rparr>" by simp
  qed
qed

text \<open>The buffers after \<open>brelse\<close>: one reference less, and in front of the list when it was the last.\<close>

definition brelse_bufs :: "nat \<Rightarrow> kst \<Rightarrow> kst" where
  "brelse_bufs b s = (let s = upd_buf b (\<lambda>x. x\<lparr>b_refcnt := b_refcnt x - 1\<rparr>) s in
                      if b_refcnt (bufs s b) = 0 then move_front b s else s)"

lemma brelse_bufs_spec:
  assumes c: "cache_ok F H P pid (bufs s) sl d" and b: "b < 30"
  shows "\<exists>bs. brelse_bufs b s = s\<lparr>bufs := bs\<rparr> \<and>
           relinked ((bufs s)(b := (bufs s b)\<lparr>b_refcnt := b_refcnt (bufs s b) - 1\<rparr>)) bs \<and>
           (\<exists>xs. bring xs bs \<and> set xs = {0..<30})"
proof -
  let ?s = "upd_buf b (\<lambda>x. x\<lparr>b_refcnt := b_refcnt x - 1\<rparr>) s"
  have eq: "bufs ?s = (bufs s)(b := (bufs s b)\<lparr>b_refcnt := b_refcnt (bufs s b) - 1\<rparr>)" by (simp add: upd_buf_def)
  obtain xs where xs: "bring xs (bufs s)" "set xs = {0..<30}" using cache_okD(1)[OF c] by blast
  then have ring: "bring xs (bufs ?s)" unfolding eq by (subst bring_upd) simp_all
  show ?thesis
  proof (cases "b_refcnt (bufs ?s b) = 0")
    case True
    obtain ys zs where "xs = ys @ b # zs" using xs(2) b by (metis atLeastLessThan_iff in_set_conv_decomp zero_le)
    then have "bring (b # ys @ zs) (bufs (move_front b ?s))" "set (b # ys @ zs) = {0..<30}"
      using move_front_bring[of ys b zs ?s] ring xs(2) by auto
    moreover have "move_front b ?s = s\<lparr>bufs := bufs (move_front b ?s)\<rparr>"
      using move_front_only[of ?s b] by (auto simp: only_bufs_def upd_buf_def)
    ultimately show ?thesis
      using True move_front_bufs[of ?s b] unfolding brelse_bufs_def Let_def eq by (intro exI[of _ "bufs (move_front b ?s)"]) auto
  next
    case False
    then show ?thesis
      using ring xs(2) relinked_refl unfolding brelse_bufs_def Let_def
      by (intro exI[of _ "bufs ?s"]) (auto simp: upd_buf_def)
  qed
qed

lemma brelse_unlink:
  assumes k: "kcache p {} H P s" and h: "H b = Some n" and clean: "P n = 0 \<Longrightarrow> content s n = dblock (drv s) n"
    and ru: "running p {} u" and su: "stirred p s u"
    and bu: "body u = (body s)\<lparr>slocks := (slocks s)(SLbuf b := (slocks s (SLbuf b))\<lparr>sl_locked := False, sl_pid := 0\<rparr>),
               procs := procs u\<rparr>"
  shows "wp (bnd (acquire Lbcache u) (\<lambda>_ s. release Lbcache (brelse_bufs b s)))
           (\<lambda>_ t. kcache p {} (H(b := None)) P t \<and> cache_step p s t \<and> content t = content s \<and> drv t = drv s \<and> wtrace t = wtrace s)"
proof -
  note c = kcacheD(3)[OF k]
  let ?bs = "(bufs s)(b := (bufs s b)\<lparr>b_refcnt := b_refcnt (bufs s b) - 1\<rparr>)"
  let ?sl = "(slocks s)(SLbuf b := (slocks s (SLbuf b))\<lparr>sl_locked := False, sl_pid := 0\<rparr>)"
  let ?a = "acq Lbcache u"
  have ab: "bufs ?a = bufs s" using body_eqD[OF bu] by (simp add: acq_select)
  obtain bs xs where eq: "brelse_bufs b ?a = ?a\<lparr>bufs := bs\<rparr>" and rl: "relinked ?bs bs"
    and xs: "bring xs bs" "set xs = {0..<30}"
    using brelse_bufs_spec[OF c[folded ab] cache_okD(8)[OF c h]] by (auto simp: ab)
  let ?t = "rel Lbcache (?a\<lparr>bufs := bs\<rparr>)"
  have ra: "running p {Lbcache} (?a\<lparr>bufs := bs\<rparr>)" and A: "acquire Lbcache u = Ok () ?a"
    using running_acquire[OF ru, of Lbcache] by (simp_all add: body_simps)
  have rt: "running p {} ?t" and R: "release Lbcache (?a\<lparr>bufs := bs\<rparr>) = Ok () ?t"
    using running_release[OF ra, of Lbcache] by simp_all
  have bt: "body ?t = (body s)\<lparr>bufs := bs, slocks := ?sl, procs := procs ?t\<rparr>" and pt: "procs ?t = procs u"
    by (simp_all add: body_simps lock_simps bu)
  have st: "stirred p s ?t" using su pt by (simp add: stirred_def)
  have "cache_ok {} (H(b := None)) P (p_pid (procs s p)) ?bs ?sl (drv s)"
    using cache_ok_release[OF c h] clean content_locked[OF k h] by simp
  note ok = cache_ok_relinked[OF this rl xs]
  have "kcache p {} (H(b := None)) P ?t \<and> cache_step p s ?t \<and> drv ?t = drv s \<and> wtrace ?t = wtrace s"
    by (rule kcacheI_stirred[OF k rt st bt ok]) simp
  moreover have "content ?t = content s"
    by (rule content_cong) (use body_eqD[OF bt] rl in \<open>simp_all add: relinked_def\<close>)
  ultimately show ?thesis by (simp add: A eq R)
qed

lemma brelse_eq:
  "brelse b s = bnd (holdingsleep (SLbuf b) s) (\<lambda>h s.
     if \<not> h then Panic ''brelse''
     else bnd (releasesleep (SLbuf b) s) (\<lambda>_ s. bnd (acquire Lbcache s) (\<lambda>_ s. release Lbcache (brelse_bufs b s))))"
  unfolding brelse_def brelse_bufs_def Let_def by (rule refl)

lemma brelse_spec:
  assumes k: "kcache p {} H P s" and h: "H b = Some n" and clean: "P n = 0 \<Longrightarrow> content s n = dblock (drv s) n"
  shows "wp (brelse b s) (\<lambda>_ t. kcache p {} (H(b := None)) P t \<and> cache_step p s t \<and> content t = content s \<and>
           drv t = drv s \<and> wtrace t = wtrace s)"
  unfolding brelse_eq wp_bnd
proof (rule wp_mono[OF holdingsleep_locked[OF k h]], elim conjE)
  fix r t assume r and rt: "running p {} t" and bt: "body t = body s"
  note S = same_body[OF bt rt]
  let ?Q = "\<lambda>_ t. kcache p {} (H(b := None)) P t \<and> cache_step p s t \<and> content t = content s \<and> drv t = drv s \<and> wtrace t = wtrace s"
  have "wp (bnd (releasesleep (SLbuf b) t) (\<lambda>_ s. bnd (acquire Lbcache s) (\<lambda>_ s. release Lbcache (brelse_bufs b s)))) ?Q"
    unfolding wp_bnd[of "releasesleep (SLbuf b) t"]
  proof (rule wp_mono[OF releasesleep_locked[OF rt]], elim conjE)
    fix u assume u: "running p {} u" and su: "stirred p t u" and bu: "body u = (body t)\<lparr>
      slocks := (slocks t)(SLbuf b := (slocks t (SLbuf b))\<lparr>sl_locked := False, sl_pid := 0\<rparr>), procs := procs u\<rparr>"
    have "stirred p s u" using su S(8) by (simp add: stirred_def)
    moreover have "body u = (body s)\<lparr>slocks := (slocks s)(SLbuf b := (slocks s (SLbuf b))\<lparr>sl_locked := False, sl_pid := 0\<rparr>),
        procs := procs u\<rparr>" using bu S(7) bt by simp
    ultimately show "wp (bnd (acquire Lbcache u) (\<lambda>_ s. release Lbcache (brelse_bufs b s))) ?Q"
      using brelse_unlink[OF k h clean u] by blast
  qed
  then show "wp (if \<not> r then Panic ''brelse'' else bnd (releasesleep (SLbuf b) t)
      (\<lambda>_ s. bnd (acquire Lbcache s) (\<lambda>_ s. release Lbcache (brelse_bufs b s)))) ?Q"
    using \<open>r\<close> by simp
qed

end
