(* ===== verification/Cache_Rules.thy ===== *)
theory Cache_Rules
  imports Buffer_Cache
begin

text \<open>
  Rules to run code that uses the buffer cache symbolically. \<open>kc p s0 H P c d w s\<close>: since \<open>s0\<close> only
  the cache and what it rests on has changed, the locked buffers are \<open>H\<close>, the pins \<open>P\<close>, and the
  contents of the blocks, the drive and the trace of block writes are \<open>c\<close>, \<open>d\<close> and \<open>w\<close>. Every rule
  takes one operation off the front of the code.
\<close>

definition kc :: "nat \<Rightarrow> kst \<Rightarrow> (nat \<Rightarrow> nat option) \<Rightarrow> (nat \<Rightarrow> nat) \<Rightarrow> (nat \<Rightarrow> bytes) \<Rightarrow> drive \<Rightarrow>
    (nat \<times> bytes) list \<Rightarrow> kst \<Rightarrow> bool" where
  "kc p s0 H P c d w s \<longleftrightarrow> kcache p {} H P s \<and> cache_step p s0 s \<and> content s = c \<and> drv s = d \<and> wtrace s = w"

lemma kcI: "kcache p {} H P s \<Longrightarrow> kc p s H P (content s) (drv s) (wtrace s) s"
  by (simp add: kc_def cache_step_refl)

lemma kc_kcache: "kc p s0 H P c d w s \<Longrightarrow> kcache p {} H P s"
  by (simp add: kc_def)

lemma kc_after: "kc p s0 H P c d w s \<Longrightarrow> kcache p {} H' P' t \<and> cache_step p s t \<and> content t = c' \<and> drv t = d' \<and> wtrace t = w' \<Longrightarrow>
    kc p s0 H' P' c' d' w' t"
  using cache_step_trans by (auto simp: kc_def)

lemma kc_bread:
  assumes k: "kc p s0 H P c d w s" and n: "n < 2 ^ 31" "n \<notin> ran H" and P: "P n + 2 < 2 ^ 32"
    and room: "P n \<noteq> 0 \<or> card (dom H) + card {m. P m \<noteq> 0} < 30"
    and f: "\<And>b t. b \<notin> dom H \<Longrightarrow> kc p s0 (H(b \<mapsto> n)) P c d w t \<Longrightarrow> wp (f b t) Q"
  shows "wp (bnd (bread 1 n s) f) Q"
  unfolding wp_bnd
proof (rule wp_mono[OF bread_spec[OF _ n P room]])
  show "kcache p {} H P s" using k by (simp add: kc_def)
  fix b t assume "b \<notin> dom H \<and> kcache p {} (H(b \<mapsto> n)) P t \<and> cache_step p s t \<and>
    content t = content s \<and> drv t = drv s \<and> wtrace t = wtrace s"
  then show "wp (f b t) Q" using k by (intro f kc_after[OF k]) (auto simp: kc_def)
qed

lemma kc_bwrite:
  assumes k: "kc p s0 H P c d w s" and h: "H b = Some n"
    and f: "\<And>t. kc p s0 H P c (dput d n (c n)) (w @ [(n, c n)]) t \<Longrightarrow> wp (f () t) Q"
  shows "wp (bnd (bwrite b s) f) Q"
  unfolding wp_bnd
  by (rule wp_mono[OF bwrite_spec[OF kc_kcache[OF k] h]]) (use k in \<open>auto simp: kc_def intro!: f elim: cache_step_trans\<close>)

lemma kc_brelse:
  assumes k: "kc p s0 H P c d w s" and h: "H b = Some n" and clean: "P n = 0 \<Longrightarrow> c n = dblock d n"
    and f: "\<And>t. kc p s0 (H(b := None)) P c d w t \<Longrightarrow> wp (f () t) Q"
  shows "wp (bnd (brelse b s) f) Q"
  unfolding wp_bnd
  by (rule wp_mono[OF brelse_spec[OF kc_kcache[OF k] h]]) (use k clean in \<open>auto simp: kc_def intro!: f elim: cache_step_trans\<close>)

lemma kc_bpin:
  assumes k: "kc p s0 H P c d w s" and h: "H b = Some n" and P: "P n + 2 < 2 ^ 32"
    and f: "\<And>t. kc p s0 H (P(n := P n + 1)) c d w t \<Longrightarrow> wp (f () t) Q"
  shows "wp (bnd (bpin b s) f) Q"
  unfolding wp_bnd
  by (rule wp_mono[OF bpin_spec[OF kc_kcache[OF k] h _ P]]) (use k in \<open>auto simp: kc_def intro!: f elim: cache_step_trans\<close>)

lemma kc_bunpin:
  assumes k: "kc p s0 H P c d w s" and h: "H b = Some n" and P: "P n \<noteq> 0"
    and f: "\<And>t. kc p s0 H (P(n := P n - 1)) c d w t \<Longrightarrow> wp (f () t) Q"
  shows "wp (bnd (bunpin b s) f) Q"
  unfolding wp_bnd
  by (rule wp_mono[OF bunpin_spec[OF kc_kcache[OF k] h _ P]]) (use k in \<open>auto simp: kc_def intro!: f elim: cache_step_trans\<close>)

lemma kc_data: "kc p s0 H P c d w s \<Longrightarrow> H b = Some n \<Longrightarrow> b_data (bufs s b) = c n"
  using content_locked[of p H P s b n] by (auto simp: kc_def)

lemma kc_length: "kc p s0 H P c d w s \<Longrightarrow> length (c n) = 1024"
proof -
  assume k: "kc p s0 H P c d w s"
  then have e: "content s = c" by (simp add: kc_def)
  note c = kcacheD(3)[OF kc_kcache[OF k]]
  have "length (content s n) = 1024"
  proof (cases "\<exists>b<30. b_valid (bufs s b) \<and> b_blockno (bufs s b) = n")
    case True
    then show ?thesis using content_cached[OF c] cache_okD(2)[OF c] by auto
  next
    case False
    then show ?thesis using content_uncached[of s n] by auto
  qed
  then show ?thesis by (simp add: e)
qed

lemma content_set_data:
  assumes c: "cache_ok {} H P pid (bufs s) sl d" and c': "cache_ok {} H P pid' (bufs t) sl' d'" and h: "H b = Some n"
    and bt: "bufs t = (bufs s)(b := (bufs s b)\<lparr>b_data := xs\<rparr>)" and dt: "drv t = drv s"
  shows "content t = (content s)(n := xs)"
proof
  note D = cache_okD(8-11)[OF c h]
  fix m show "content t m = ((content s)(n := xs)) m"
  proof (rule content_eqI[OF c'])
    fix e assume e: "e < 30" "b_valid (bufs t e)" "b_blockno (bufs t e) = m"
    show "b_data (bufs t e) = ((content s)(n := xs)) m"
    proof (cases "e = b")
      case True
      then show ?thesis using e D by (simp add: bt)
    next
      case False
      then have "m \<noteq> n" using e D cache_okD(5)[OF c, of e] cache_okD(6)[OF c, of e b] by (auto simp: bt)
      then show ?thesis using False e content_cached[OF c, of e m] by (simp add: bt)
    qed
  next
    assume no: "\<And>e. e < 30 \<Longrightarrow> b_valid (bufs t e) \<Longrightarrow> b_blockno (bufs t e) \<noteq> m"
    have "m \<noteq> n" using no[of b] D by (auto simp: bt)
    moreover have "content s m = dblock (drv s) m"
    proof (rule content_uncached)
      fix e assume "e < 30" "b_valid (bufs s e)"
      then show "b_blockno (bufs s e) \<noteq> m" using no[of e] by (cases "e = b") (auto simp: bt)
    qed
    ultimately show "dblock (drv t) m = ((content s)(n := xs)) m" by (simp add: dt)
  qed
qed

lemma kc_set_data:
  assumes k: "kc p s0 H P c d w s" and h: "H b = Some n" and len: "length xs = 1024"
    and f: "f (bufs s b) = (bufs s b)\<lparr>b_data := xs\<rparr>"
  shows "kc p s0 H P (c(n := xs)) d w (upd_buf b f s)"
proof -
  have ks: "kcache p {} H P s" using k by (simp add: kc_def)
  note c = kcacheD(3)[OF ks]
  have "cache_ok {} H P (p_pid (procs s p)) ((bufs s)(b := f (bufs s b))) (slocks s) (drv s)"
    using cache_ok_data[OF c h len] f by simp
  note K = upd_buf_kcache[where b = b and f = f, OF kcacheD(1,2)[OF ks] this]
  have "content (upd_buf b f s) = (content s)(n := xs)"
    by (rule content_set_data[OF c kcacheD(3)[OF K(1)] h]) (simp_all add: upd_buf_def f)
  then show ?thesis using K k by (intro kc_after[OF k]) (simp add: kc_def upd_buf_def)
qed

lemma kc_klog:
  assumes "kc p s0 H P c d w s"
  shows "klog s = klog s0" and "sb s = sb s0" and "inodes s = inodes s0" and "procs s p = procs s0 p"
proof -
  have b: "body s = (body s0)\<lparr>bufs := bufs s, vdisk := vdisk s, procs := procs s, slocks := slocks s,
                       drv := drv s, wtrace := wtrace s\<rparr>" and "stirred p s0 s"
    using assms by (simp_all add: kc_def cache_step_def)
  then show "klog s = klog s0" "sb s = sb s0" "inodes s = inodes s0" "procs s p = procs s0 p"
    using body_eqD[OF b] by (simp_all add: stirred_def)
qed

text \<open>The last operation of a function.\<close>

lemma wp_tail: "wp (bnd m (\<lambda>_ s. Ok () s)) Q \<Longrightarrow> wp m Q"
  for m :: "unit k"
  by (cases m) auto

end
