(* ===== verification/Log_Commit.thy ===== *)
theory Log_Commit
  imports Log Cache_Rules
begin

text \<open>
  Correctness of \<open>log.c\<close>: the header survives its encoding, a commit writes the log blocks, then
  the header, then the home blocks, then the empty header, in this order, and recovery after a
  crash at any point between these writes leaves either all blocks of the transaction or none.
\<close>

section \<open>The header block\<close>

lemma rd32_wr32_other:
  assumes "off + 4 \<le> length bs" and "e + 4 \<le> length bs" and "e + 4 \<le> off \<or> off + 4 \<le> e"
  shows "rd32 (wr32 bs off v) e = rd32 bs e"
  using assms by (simp add: rdwr_defs slice_blit_disjoint)

lemma fold_wr32:
  assumes "4 + 4 * n \<le> length bs"
  shows "length (fold (\<lambda>i bs. wr32 bs (4 + 4 * i) (g i)) [0..<n] bs) = length bs \<and>
         rd32 (fold (\<lambda>i bs. wr32 bs (4 + 4 * i) (g i)) [0..<n] bs) 0 = rd32 bs 0 \<and>
         (\<forall>i<n. rd32 (fold (\<lambda>i bs. wr32 bs (4 + 4 * i) (g i)) [0..<n] bs) (4 + 4 * i) = g i)"
  using assms
proof (induction n)
  case 0
  then show ?case by simp
next
  case (Suc n)
  let ?f = "fold (\<lambda>i bs. wr32 bs (4 + 4 * i) (g i)) [0..<n] bs"
  have IH: "length ?f = length bs" "rd32 ?f 0 = rd32 bs 0" "\<forall>i<n. rd32 ?f (4 + 4 * i) = g i"
    using Suc by auto
  have "rd32 (wr32 ?f (4 + 4 * n) (g n)) (4 + 4 * i) = g i" if "i < Suc n" for i
    using that IH Suc.prems rd32_wr32_other[of "4 + 4 * n" ?f "4 + 4 * i" "g n"]
    by (cases "i = n") (simp_all add: rd32_wr32)
  then show ?case
    using IH Suc.prems rd32_wr32_other[of "4 + 4 * n" ?f 0 "g n"] by (simp add: length_wr)
qed

lemma enc_head_reads:
  assumes "4 + 4 * nat (lh_n h) \<le> length bs"
  shows "length (enc_head h bs) = length bs" and "rd32 (enc_head h bs) 0 = of_int (lh_n h)"
    and "i < nat (lh_n h) \<Longrightarrow> rd32 (enc_head h bs) (4 + 4 * i) = of_nat (lh_block h i)"
proof -
  have "4 + 4 * nat (lh_n h) \<le> length (wr32 bs 0 (of_int (lh_n h)))" using assms by (simp add: length_wr)
  note F = fold_wr32[OF this, of "\<lambda>i. of_nat (lh_block h i)"]
  show "length (enc_head h bs) = length bs" "rd32 (enc_head h bs) 0 = of_int (lh_n h)"
    "i < nat (lh_n h) \<Longrightarrow> rd32 (enc_head h bs) (4 + 4 * i) = of_nat (lh_block h i)"
    using F assms by (simp_all add: enc_head_def length_wr rd32_wr32)
qed

lemma dec_head_reads:
  "lh_n (dec_head h bs) = sint (rd32 bs 0)"
  "lh_block (dec_head h bs) i = (if i < nat (sint (rd32 bs 0)) then unat (rd32 bs (4 + 4 * i)) else lh_block h i)"
proof -
  have "lh_n (fold (\<lambda>i h. h\<lparr>lh_block := (lh_block h)(i := g i)\<rparr>) [0..<n] k) = lh_n k \<and>
        lh_block (fold (\<lambda>i h. h\<lparr>lh_block := (lh_block h)(i := g i)\<rparr>) [0..<n] k) i = (if i < n then g i else lh_block k i)"
    for n g i and k :: logheader
    by (induction n) auto
  then show "lh_n (dec_head h bs) = sint (rd32 bs 0)"
    "lh_block (dec_head h bs) i = (if i < nat (sint (rd32 bs 0)) then unat (rd32 bs (4 + 4 * i)) else lh_block h i)"
    by (simp_all add: dec_head_def Let_def)
qed

lemma dec_enc_head:
  assumes "0 \<le> lh_n h" and "lh_n h \<le> 30" and "\<forall>i<nat (lh_n h). lh_block h i < 2 ^ 32" and "length bs = 1024"
  shows "lh_n (dec_head k (enc_head h bs)) = lh_n h \<and>
         (\<forall>i<nat (lh_n h). lh_block (dec_head k (enc_head h bs)) i = lh_block h i)"
proof -
  have fits: "4 + 4 * nat (lh_n h) \<le> length bs" using assms by simp
  have "sint (of_int (lh_n h) :: u32) = lh_n h"
    using assms(1,2) by (simp add: signed_of_int signed_take_bit_int_eq_self)
  moreover have "unat (of_nat (lh_block h i) :: u32) = lh_block h i" if "i < nat (lh_n h)" for i
    using assms(3) that by (simp add: unat_of_nat)
  ultimately show ?thesis using enc_head_reads[OF fits] by (simp add: dec_head_reads)
qed

text \<open>C36: A log header written to a block and read back into any header gives the number of blocks and
  every block number: for at most 30 blocks with 32-bit numbers and a block of 1024 bytes.\<close>
theorem log_header_roundtrip:
  assumes "0 \<le> lh_n h" and "lh_n h \<le> 30" and "\<forall>i<nat (lh_n h). lh_block h i < 2 ^ 32" and "length bs = 1024"
  shows "lh_n (dec_head k (enc_head h bs)) = lh_n h \<and>
         (\<forall>i<nat (lh_n h). lh_block (dec_head k (enc_head h bs)) i = lh_block h i)"
  using assms by (rule dec_enc_head)

theorem log_header_roundtrip_witness:
  "let h = \<lparr>lh_n = 2, lh_block = (\<lambda>i. if i = 0 then 45 else 700)\<rparr>; k = \<lparr>lh_n = 9, lh_block = (\<lambda>_. 3)\<rparr>;
       r = dec_head k (enc_head h (replicate 1024 7))
   in lh_n r = 2 \<and> lh_block r 0 = 45 \<and> lh_block r 1 = 700"
  using log_header_roundtrip[of "\<lparr>lh_n = 2, lh_block = (\<lambda>i. if i = 0 then 45 else 700)\<rparr>" "replicate 1024 7"
      "\<lparr>lh_n = 9, lh_block = (\<lambda>_. 3)\<rparr>"]
  by (simp add: Let_def)

section \<open>The loops over the log\<close>

lemma write_log_step:
  assumes k: "kc p s0 Map.empty P c d w s" and dev: "l_dev (klog s0) = 1"
    and n1: "n1 = l_start (klog s0) + i + 1" "n1 < 2 ^ 31" "P n1 = 0"
    and n2: "n2 = lh_block (l_lh (klog s0)) i" "n2 < 2 ^ 31" "P n2 \<noteq> 0" "P n2 + 2 < 2 ^ 32"
    and room: "card {m. P m \<noteq> 0} < 30"
  shows "wp (bnd (bread (l_dev (klog s)) (l_start (klog s) + i + 1) s) (\<lambda>to s.
             bnd (bread (l_dev (klog s)) (lh_block (l_lh (klog s)) i) s) (\<lambda>fr s.
             let s = upd_buf to (\<lambda>x. x\<lparr>b_data := b_data (bufs s fr)\<rparr>) s in
             bnd (bwrite to s) (\<lambda>_ s. bnd (brelse fr s) (\<lambda>_ s. brelse to s)))))
           (\<lambda>_ t. kc p s0 Map.empty P (c(n1 := c n2)) (dput d n1 (c n2)) (w @ [(n1, c n2)]) t)"
  unfolding kc_klog(1)[OF k] dev n1(1)[symmetric]
proof (rule kc_bread[OF k n1(2)])
  have ne: "n1 \<noteq> n2" using n1(3) n2(3) by auto
  fix to t assume kt: "kc p s0 [to \<mapsto> n1] P c d w t"
  show "wp (bnd (bread (l_dev (klog t)) (lh_block (l_lh (klog t)) i) t) (\<lambda>fr s.
      let s = upd_buf to (\<lambda>x. x\<lparr>b_data := b_data (bufs s fr)\<rparr>) s in
      bnd (bwrite to s) (\<lambda>_ s. bnd (brelse fr s) (\<lambda>_ s. brelse to s))))
      (\<lambda>_ t. kc p s0 Map.empty P (c(n1 := c n2)) (dput d n1 (c n2)) (w @ [(n1, c n2)]) t)"
    unfolding kc_klog(1)[OF kt] dev n2(1)[symmetric] Let_def
  proof (rule kc_bread[OF kt n2(2)])
    fix fr u assume "fr \<notin> dom [to \<mapsto> n1]" and ku: "kc p s0 ([to \<mapsto> n1](fr \<mapsto> n2)) P c d w u"
    then have ft: "fr \<noteq> to" by simp
    let ?H = "[to \<mapsto> n1, fr \<mapsto> n2]"
    have fr: "b_data (bufs u fr) = c n2" by (rule kc_data[OF ku]) simp
    have len: "length (c n2) = 1024" by (rule kc_length[OF ku])
    let ?v = "upd_buf to (\<lambda>x. x\<lparr>b_data := b_data (bufs u fr)\<rparr>) u"
    have kv: "kc p s0 ?H P (c(n1 := c n2)) d w ?v"
      by (rule kc_set_data[OF ku]) (use ft fr len in auto)
    show "wp (bnd (bwrite to ?v) (\<lambda>_ s. bnd (brelse fr s) (\<lambda>_ s. brelse to s)))
        (\<lambda>_ t. kc p s0 Map.empty P (c(n1 := c n2)) (dput d n1 (c n2)) (w @ [(n1, c n2)]) t)"
    proof (rule kc_bwrite[OF kv])
      fix x assume kx: "kc p s0 ?H P (c(n1 := c n2)) (dput d n1 ((c(n1 := c n2)) n1)) (w @ [(n1, (c(n1 := c n2)) n1)]) x"
      show "wp (bnd (brelse fr x) (\<lambda>_ s. brelse to s))
          (\<lambda>_ t. kc p s0 Map.empty P (c(n1 := c n2)) (dput d n1 (c n2)) (w @ [(n1, c n2)]) t)"
      proof (rule kc_brelse[OF kx])
        fix y assume "kc p s0 (?H(fr := None)) P (c(n1 := c n2)) (dput d n1 ((c(n1 := c n2)) n1)) (w @ [(n1, (c(n1 := c n2)) n1)]) y"
        moreover have "?H(fr := None) = [to \<mapsto> n1]" using ft by auto
        ultimately have ky: "kc p s0 [to \<mapsto> n1] P (c(n1 := c n2)) (dput d n1 (c n2)) (w @ [(n1, c n2)]) y" by simp
        show "wp (brelse to y) (\<lambda>_ t. kc p s0 Map.empty P (c(n1 := c n2)) (dput d n1 (c n2)) (w @ [(n1, c n2)]) t)"
          by (rule wp_tail, rule kc_brelse[OF ky]) (use len in \<open>auto simp: dblock_dput\<close>)
      qed (use ft n2(3) in auto)
    qed (use ft in auto)
  qed (use ne n2 in auto)
qed (use n1 room in auto)

lemma install_trans_step:
  assumes k: "kc p s0 Map.empty P c d w s" and dev: "l_dev (klog s0) = 1"
    and n1: "n1 = l_start (klog s0) + i + 1" "n1 < 2 ^ 31" "P n1 = 0" "c n1 = dblock d n1"
    and n2: "n2 = lh_block (l_lh (klog s0)) i" "n2 < 2 ^ 31" "n1 \<noteq> n2" "P n2 \<le> 1"
    and rec: "if recovering then card {m. P m \<noteq> 0} < 29 else card {m. P m \<noteq> 0} < 30 \<and> P n2 = 1"
    and P': "P' = (if recovering then P else P(n2 := 0))"
  shows "wp (bnd (bread (l_dev (klog s)) (l_start (klog s) + i + 1) s) (\<lambda>lbuf s.
             bnd (bread (l_dev (klog s)) (lh_block (l_lh (klog s)) i) s) (\<lambda>dbuf s.
             let s = upd_buf dbuf (\<lambda>x. x\<lparr>b_data := b_data (bufs s lbuf)\<rparr>) s in
             bnd (bwrite dbuf s) (\<lambda>_ s.
             bnd (if \<not> recovering then bunpin dbuf s else Ok () s) (\<lambda>_ s.
             bnd (brelse lbuf s) (\<lambda>_ s. brelse dbuf s))))))
           (\<lambda>_ t. kc p s0 Map.empty P' (c(n2 := c n1)) (dput d n2 (c n1)) (w @ [(n2, c n1)]) t)" (is "wp _ ?Q")
  unfolding kc_klog(1)[OF k] dev n1(1)[symmetric]
proof (rule kc_bread[OF k n1(2)])
  fix lb t assume kt: "kc p s0 [lb \<mapsto> n1] P c d w t"
  show "wp (bnd (bread (l_dev (klog t)) (lh_block (l_lh (klog t)) i) t) (\<lambda>dbuf s.
      let s = upd_buf dbuf (\<lambda>x. x\<lparr>b_data := b_data (bufs s lb)\<rparr>) s in
      bnd (bwrite dbuf s) (\<lambda>_ s. bnd (if \<not> recovering then bunpin dbuf s else Ok () s) (\<lambda>_ s.
      bnd (brelse lb s) (\<lambda>_ s. brelse dbuf s))))) ?Q"
    unfolding kc_klog(1)[OF kt] dev n2(1)[symmetric] Let_def
  proof (rule kc_bread[OF kt n2(2)])
    fix db u assume "db \<notin> dom [lb \<mapsto> n1]" and ku: "kc p s0 ([lb \<mapsto> n1](db \<mapsto> n2)) P c d w u"
    then have ne: "db \<noteq> lb" by simp
    let ?H = "[lb \<mapsto> n1, db \<mapsto> n2]" and ?c = "c(n2 := c n1)" and ?d = "dput d n2 (c n1)" and ?w = "w @ [(n2, c n1)]"
    have lbd: "b_data (bufs u lb) = c n1" by (rule kc_data[OF ku]) (use ne in simp)
    have len: "length (c n1) = 1024" by (rule kc_length[OF ku])
    let ?v = "upd_buf db (\<lambda>x. x\<lparr>b_data := b_data (bufs u lb)\<rparr>) u"
    have kv: "kc p s0 ?H P ?c d w ?v" by (rule kc_set_data[OF ku]) (use lbd len in auto)
    have rest: "wp (bnd (brelse lb x) (\<lambda>_ s. brelse db s)) ?Q" if kx: "kc p s0 ?H P' ?c ?d ?w x" for x
    proof (rule kc_brelse[OF kx])
      fix y assume "kc p s0 (?H(lb := None)) P' ?c ?d ?w y"
      moreover have "?H(lb := None) = [db \<mapsto> n2]" using ne by auto
      ultimately have ky: "kc p s0 [db \<mapsto> n2] P' ?c ?d ?w y" by simp
      show "wp (brelse db y) ?Q"
        by (rule wp_tail, rule kc_brelse[OF ky]) (use len in \<open>auto simp: dblock_dput\<close>)
    qed (use ne n1(4) n2(3) len in \<open>auto simp: dblock_dput\<close>)
    show "wp (bnd (bwrite db ?v) (\<lambda>_ s. bnd (if \<not> recovering then bunpin db s else Ok () s) (\<lambda>_ s.
        bnd (brelse lb s) (\<lambda>_ s. brelse db s)))) ?Q"
    proof (rule kc_bwrite[OF kv])
      fix x assume "kc p s0 ?H P ?c (dput d n2 (?c n2)) (w @ [(n2, ?c n2)]) x"
      then have kx: "kc p s0 ?H P ?c ?d ?w x" by simp
      show "wp (bnd (if \<not> recovering then bunpin db x else Ok () x) (\<lambda>_ s. bnd (brelse lb s) (\<lambda>_ s. brelse db s))) ?Q"
      proof (cases recovering)
        case True
        then show ?thesis using rest kx P' by simp
      next
        case False
        then have "wp (bnd (bunpin db x) (\<lambda>_ s. bnd (brelse lb s) (\<lambda>_ s. brelse db s))) ?Q"
          by (intro kc_bunpin[OF kx, of db n2] rest) (use rec P' in auto)
        with False show ?thesis by simp
      qed
    qed simp
  qed (use n2 rec in \<open>auto split: if_splits\<close>)
qed (use n1 rec in \<open>auto split: if_splits\<close>)

text \<open>Writing the header: \<open>lh\<close> is the header in memory.\<close>

lemma write_head_step:
  assumes k: "kc p s0 Map.empty P c d w s" and dev: "l_dev (klog s0) = 1"
    and st: "st = l_start (klog s0)" "st < 2 ^ 31" "P st = 0" and room: "card {m. P m \<noteq> 0} < 30"
    and n: "0 \<le> lh_n (l_lh (klog s0))" "lh_n (l_lh (klog s0)) \<le> 30"
    and hd: "h = enc_head (l_lh (klog s0)) (c st)"
  shows "wp (write_head s) (\<lambda>_ t. kc p s0 Map.empty P (c(st := h)) (dput d st h) (w @ [(st, h)]) t)"
  unfolding write_head_def kc_klog(1)[OF k] dev st(1)[symmetric]
proof (rule kc_bread[OF k st(2)])
  fix b t assume kt: "kc p s0 [b \<mapsto> st] P c d w t"
  have len: "length (c st) = 1024" by (rule kc_length[OF kt])
  have lh: "length h = 1024" using enc_head_reads(1)[of "l_lh (klog s0)" "c st"] n len by (simp add: hd)
  have bd: "b_data (bufs t b) = c st" by (rule kc_data[OF kt]) simp
  let ?v = "upd_buf b (\<lambda>x. x\<lparr>b_data := enc_head (l_lh (klog t)) (b_data x)\<rparr>) t"
  have kv: "kc p s0 [b \<mapsto> st] P (c(st := h)) d w ?v"
    by (rule kc_set_data[OF kt]) (use lh bd in \<open>auto simp: kc_klog(1)[OF kt] hd\<close>)
  show "wp (let s = ?v in bnd (bwrite b s) (\<lambda>_ s. brelse b s))
      (\<lambda>_ t. kc p s0 Map.empty P (c(st := h)) (dput d st h) (w @ [(st, h)]) t)"
    unfolding Let_def
  proof (rule kc_bwrite[OF kv])
    fix x assume "kc p s0 [b \<mapsto> st] P (c(st := h)) (dput d st ((c(st := h)) st)) (w @ [(st, (c(st := h)) st)]) x"
    then have kx: "kc p s0 [b \<mapsto> st] P (c(st := h)) (dput d st h) (w @ [(st, h)]) x" by simp
    show "wp (brelse b x) (\<lambda>_ t. kc p s0 Map.empty P (c(st := h)) (dput d st h) (w @ [(st, h)]) t)"
      by (rule wp_tail, rule kc_brelse[OF kx]) (use lh in \<open>auto simp: dblock_dput\<close>)
  qed simp
qed (use st room in auto)

section \<open>Sequences of block writes\<close>

definition apply_writes :: "drive \<Rightarrow> (nat \<times> bytes) list \<Rightarrow> drive" where
  "apply_writes d ws = fold (\<lambda>(n, bs) d. dput d n bs) ws d"

definition put_all :: "(nat \<Rightarrow> bytes) \<Rightarrow> (nat \<times> bytes) list \<Rightarrow> nat \<Rightarrow> bytes" where
  "put_all c ws = fold (\<lambda>(n, bs) c. c(n := bs)) ws c"

lemma writes_append:
  "apply_writes d (vs @ ws) = apply_writes (apply_writes d vs) ws"
  "put_all c (vs @ ws) = put_all (put_all c vs) ws"
  by (simp_all add: apply_writes_def put_all_def)

lemma writes_single:
  "apply_writes d [(n, bs)] = dput d n bs" "put_all c [(n, bs)] = c(n := bs)"
  "apply_writes d [] = d" "put_all c [] = c"
  by (simp_all add: apply_writes_def put_all_def)

lemma dblock_apply:
  "\<forall>(n, bs) \<in> set ws. length bs = 1024 \<Longrightarrow> dblock (apply_writes d ws) = put_all (dblock d) ws"
proof (induction ws rule: rev_induct)
  case Nil
  then show ?case by (simp add: writes_single)
next
  case (snoc x ws)
  obtain n bs where x: "x = (n, bs)" by (cases x)
  then have "dblock (apply_writes d ws) = put_all (dblock d) ws" "length bs = 1024" using snoc by auto
  then show ?case by (auto simp: x writes_append writes_single dblock_dput fun_eq_iff)
qed

lemma put_all_other: "n \<notin> fst ` set ws \<Longrightarrow> put_all c ws n = c n"
proof (induction ws rule: rev_induct)
  case Nil
  then show ?case by (simp add: writes_single)
next
  case (snoc x ws)
  then show ?case by (cases x) (auto simp: writes_append writes_single)
qed

lemma put_all_in: "distinct (map fst ws) \<Longrightarrow> (n, bs) \<in> set ws \<Longrightarrow> put_all c ws n = bs"
proof (induction ws rule: rev_induct)
  case Nil
  then show ?case by simp
next
  case (snoc x ws)
  then show ?case by (cases x) (force simp: writes_append writes_single)
qed

lemma put_all_agree: "c n = c' n \<Longrightarrow> put_all c ws n = put_all c' ws n"
proof (induction ws rule: rev_induct)
  case Nil
  then show ?case by (simp add: writes_single)
next
  case (snoc x ws)
  then show ?case by (cases x) (auto simp: writes_append writes_single)
qed

section \<open>Commit\<close>

abbreviation (input) home :: "log \<Rightarrow> nat \<Rightarrow> nat" where "home k i \<equiv> lh_block (l_lh k) i"
abbreviation (input) log_n :: "log \<Rightarrow> nat" where "log_n k \<equiv> nat (lh_n (l_lh k))"

definition homes :: "log \<Rightarrow> nat list" where
  "homes k = map (lh_block (l_lh k)) [0..<log_n k]"

text \<open>
  A log in memory that is fit to be committed: distinct blocks outside the log on the drive, which
  is the header and 29 more blocks (\<open>LOGSIZE\<close> = 30, as \<open>mkfs\<close> lays it out).
\<close>

definition log_wf :: "log \<Rightarrow> bool" where
  "log_wf k \<longleftrightarrow> l_dev k = 1 \<and> 0 \<le> lh_n (l_lh k) \<and> lh_n (l_lh k) \<le> 29 \<and> l_start k + 29 < 2 ^ 31 \<and>
     distinct (homes k) \<and> (\<forall>x \<in> set (homes k). x < 2 ^ 31 \<and> x \<notin> {l_start k .. l_start k + 29})"

definition pinned :: "log \<Rightarrow> nat \<Rightarrow> nat \<Rightarrow> nat" where
  "pinned k i m = (if m \<in> set (drop i (homes k)) then 1 else 0)"

definition log_writes :: "log \<Rightarrow> (nat \<Rightarrow> bytes) \<Rightarrow> nat \<Rightarrow> (nat \<times> bytes) list" where
  "log_writes k c i = map (\<lambda>j. (l_start k + j + 1, c (home k j))) [0..<i]"

definition home_writes :: "log \<Rightarrow> (nat \<Rightarrow> bytes) \<Rightarrow> nat \<Rightarrow> (nat \<times> bytes) list" where
  "home_writes k c i = map (\<lambda>j. (home k j, c (home k j))) [0..<i]"

definition clear_lh :: "log \<Rightarrow> log" where
  "clear_lh k = k\<lparr>l_lh := (l_lh k)\<lparr>lh_n := 0\<rparr>\<rparr>"

definition commit_writes :: "log \<Rightarrow> (nat \<Rightarrow> bytes) \<Rightarrow> (nat \<times> bytes) list" where
  "commit_writes k c =
     (let st = l_start k; h = enc_head (l_lh k) (c st) in
      log_writes k c (log_n k) @ (st, h) # home_writes k c (log_n k) @ [(st, enc_head (l_lh (clear_lh k)) h)])"

lemma homes_outside: "log_wf k \<Longrightarrow> x \<in> set (homes k) \<Longrightarrow> j \<le> 29 \<Longrightarrow> x \<noteq> l_start k + j"
  unfolding log_wf_def by (metis add_le_cancel_left atLeastAtMost_iff le_add1)

lemma log_wfD:
  assumes "log_wf k"
  shows "l_dev k = 1" and "0 \<le> lh_n (l_lh k)" and "lh_n (l_lh k) \<le> 29" and "log_n k \<le> 29"
    and "l_start k < 2 ^ 31" and "i < log_n k \<Longrightarrow> l_start k + i + 1 < 2 ^ 31"
    and "i < log_n k \<Longrightarrow> home k i < 2 ^ 31"
    and "i < log_n k \<Longrightarrow> j \<le> 29 \<Longrightarrow> home k i \<noteq> l_start k + j"
    and "i < log_n k \<Longrightarrow> j < log_n k \<Longrightarrow> home k i = home k j \<longleftrightarrow> i = j"
proof -
  show "i < log_n k \<Longrightarrow> j \<le> 29 \<Longrightarrow> home k i \<noteq> l_start k + j"
    by (rule homes_outside[OF assms]) (simp_all add: homes_def)
qed (use assms in \<open>auto simp: log_wf_def homes_def distinct_conv_nth\<close>)

lemma pinned_simps:
  assumes "log_wf k"
  shows "card {m. pinned k i m \<noteq> 0} < 30" and "pinned k i m \<le> 1" and "j \<le> 29 \<Longrightarrow> pinned k i (l_start k + j) = 0"
    and "i < log_n k \<Longrightarrow> i' \<le> i \<Longrightarrow> pinned k i' (home k i) = 1"
    and "i < log_n k \<Longrightarrow> (pinned k i)(home k i := 0) = pinned k (Suc i)"
    and "pinned k (log_n k) = (\<lambda>_. 0)"
proof -
  have len: "length (homes k) = log_n k" and nth: "j < log_n k \<Longrightarrow> homes k ! j = home k j" for j
    by (simp_all add: homes_def)
  have "{m. pinned k i m \<noteq> 0} = set (drop i (homes k))" by (auto simp: pinned_def)
  then show "card {m. pinned k i m \<noteq> 0} < 30"
    using card_length[of "drop i (homes k)"] len log_wfD(4)[OF assms] by simp
  show "pinned k i m \<le> 1" by (simp add: pinned_def)
  show "j \<le> 29 \<Longrightarrow> pinned k i (l_start k + j) = 0"
    using homes_outside[OF assms] in_set_dropD[of "l_start k + j" i "homes k"] by (auto simp: pinned_def)
  show "i < log_n k \<Longrightarrow> i' \<le> i \<Longrightarrow> pinned k i' (home k i) = 1"
    using nth[of i] len by (auto simp: pinned_def in_set_conv_nth intro!: exI[of _ "i - i'"])
  show "pinned k (log_n k) = (\<lambda>_. 0)" by (simp add: pinned_def len fun_eq_iff)
  assume i: "i < log_n k"
  then have "drop i (homes k) = home k i # drop (Suc i) (homes k)" using nth len by (metis Cons_nth_drop_Suc)
  moreover have "distinct (drop i (homes k))" using assms by (simp add: log_wf_def)
  ultimately show "(pinned k i)(home k i := 0) = pinned k (Suc i)" by (auto simp: pinned_def fun_eq_iff)
qed

lemma log_writes_other: "(\<And>j. j < i \<Longrightarrow> m \<noteq> l_start k + j + 1) \<Longrightarrow> put_all c (log_writes k f i) m = c m"
  by (rule put_all_other) (force simp: log_writes_def)

lemma home_writes_other: "(\<And>j. j < i \<Longrightarrow> m \<noteq> home k j) \<Longrightarrow> put_all c (home_writes k f i) m = c m"
  by (rule put_all_other) (force simp: home_writes_def)

lemma log_writes_in: "j < i \<Longrightarrow> put_all c (log_writes k f i) (l_start k + j + 1) = f (home k j)"
  by (rule put_all_in) (auto simp: log_writes_def distinct_map inj_on_def)

lemma home_writes_in: "log_wf k \<Longrightarrow> i \<le> log_n k \<Longrightarrow> j < i \<Longrightarrow> put_all c (home_writes k f i) (home k j) = f (home k j)"
  by (rule put_all_in) (auto simp: home_writes_def distinct_map inj_on_def log_wfD(9))

lemma write_log_spec:
  assumes k: "kc p s0 Map.empty (pinned K 0) c d w s" and K: "K = klog s0" and wf: "log_wf K"
  shows "wp (write_log s) (\<lambda>_ t. kc p s0 Map.empty (pinned K 0) (put_all c (log_writes K c (log_n K)))
           (apply_writes d (log_writes K c (log_n K))) (w @ log_writes K c (log_n K)) t)"
  unfolding write_log_def kc_klog(1)[OF k] K[symmetric]
proof (rule for_each_upto[where Q = "\<lambda>i t. kc p s0 Map.empty (pinned K 0) (put_all c (log_writes K c i))
           (apply_writes d (log_writes K c i)) (w @ log_writes K c i) t"])
  show "kc p s0 Map.empty (pinned K 0) (put_all c (log_writes K c 0)) (apply_writes d (log_writes K c 0)) (w @ log_writes K c 0) s"
    using k by (simp add: log_writes_def writes_single)
  fix i t assume i: "i < log_n K" and kt: "kc p s0 Map.empty (pinned K 0) (put_all c (log_writes K c i))
      (apply_writes d (log_writes K c i)) (w @ log_writes K c i) t"
  have ci: "put_all c (log_writes K c i) (home K i) = c (home K i)"
  proof (rule log_writes_other)
    fix j assume "j < i"
    then have "j + 1 \<le> 29" using log_wfD(4)[OF wf] i by simp
    from log_wfD(8)[OF wf i this] show "home K i \<noteq> l_start K + j + 1" by simp
  qed
  have nx: "log_writes K c (Suc i) = log_writes K c i @ [(l_start K + i + 1, c (home K i))]" by (simp add: log_writes_def)
  note W = write_log_step[OF kt, of "l_start K + i + 1" i "home K i", unfolded ci, folded K]
  show "wp (bnd (bread (l_dev (klog t)) (l_start (klog t) + i + 1) t) (\<lambda>to s.
      bnd (bread (l_dev (klog s)) (lh_block (l_lh (klog s)) i) s) (\<lambda>fr s.
      let s = upd_buf to (\<lambda>x. x\<lparr>b_data := b_data (bufs s fr)\<rparr>) s in
      bnd (bwrite to s) (\<lambda>_ s. bnd (brelse fr s) (\<lambda>_ s. brelse to s)))))
      (\<lambda>_ t. kc p s0 Map.empty (pinned K 0) (put_all c (log_writes K c (Suc i)))
        (apply_writes d (log_writes K c (Suc i))) (w @ log_writes K c (Suc i)) t)"
    using W log_wfD[OF wf] pinned_simps[OF wf] pinned_simps(3)[OF wf, of "i + 1" 0] i
    by (simp add: nx writes_append writes_single)
qed

text \<open>
  Installing the blocks of the log: in a commit they are pinned and become unpinned one by one;
  during recovery nothing is pinned.
\<close>

definition inst_writes :: "log \<Rightarrow> (nat \<Rightarrow> bytes) \<Rightarrow> nat \<Rightarrow> (nat \<times> bytes) list" where
  "inst_writes k c i = map (\<lambda>j. (home k j, c (l_start k + j + 1))) [0..<i]"

lemma inst_writes_other: "(\<And>j. j < i \<Longrightarrow> m \<noteq> home k j) \<Longrightarrow> put_all c (inst_writes k f i) m = c m"
  by (rule put_all_other) (force simp: inst_writes_def)

lemma install_trans_spec:
  assumes k: "kc p s0 Map.empty (if recovering then (\<lambda>_. 0) else pinned K 0) c d w s" and K: "K = klog s0"
    and wf: "log_wf K" and clean: "\<And>i. i < log_n K \<Longrightarrow> c (l_start K + i + 1) = dblock d (l_start K + i + 1)"
  shows "wp (install_trans recovering s) (\<lambda>_ t. kc p s0 Map.empty (\<lambda>_. 0) (put_all c (inst_writes K c (log_n K)))
           (apply_writes d (inst_writes K c (log_n K))) (w @ inst_writes K c (log_n K)) t)"
proof -
  let ?P = "\<lambda>i. if recovering then (\<lambda>_. 0) else pinned K i"
  let ?I = "\<lambda>i t. kc p s0 Map.empty (?P i) (put_all c (inst_writes K c i)) (apply_writes d (inst_writes K c i)) (w @ inst_writes K c i) t"
  have len: "length (c m) = 1024" for m by (rule kc_length[OF k])
  have "wp (install_trans recovering s) (\<lambda>_ t. ?I (log_n K) t)"
    unfolding install_trans_def kc_klog(1)[OF k] K[symmetric]
  proof (rule for_each_upto[where Q = ?I])
    show "?I 0 s" using k by (simp add: inst_writes_def writes_single)
    fix i t assume i: "i < log_n K" and kt: "?I i t"
    let ?n = "l_start K + i + 1"
    have out: "?n \<noteq> home K j" if "j < log_n K" for j
      using log_wfD(8)[OF wf that, of "i + 1"] log_wfD(4)[OF wf] i by simp
    have ci: "put_all c (inst_writes K c i) ?n = c ?n" by (rule inst_writes_other) (use out i in auto)
    have "dblock (apply_writes d (inst_writes K c i)) ?n = put_all (dblock d) (inst_writes K c i) ?n"
      by (subst dblock_apply) (auto simp: inst_writes_def len)
    also have "\<dots> = dblock d ?n" by (rule inst_writes_other) (use out i in auto)
    finally have cl: "put_all c (inst_writes K c i) ?n = dblock (apply_writes d (inst_writes K c i)) ?n"
      using ci clean[OF i] by simp
    have nx: "inst_writes K c (Suc i) = inst_writes K c i @ [(home K i, c ?n)]" by (simp add: inst_writes_def)
    have P: "?P i ?n = 0" "?P i (home K i) \<le> 1"
      and r: "if recovering then card {m. ?P i m \<noteq> 0} < 29 else card {m. ?P i m \<noteq> 0} < 30 \<and> ?P i (home K i) = 1"
      and P': "?P (Suc i) = (if recovering then ?P i else (?P i)(home K i := 0))"
      using pinned_simps[OF wf] pinned_simps(3)[OF wf, of "i + 1" i] log_wfD(4)[OF wf] i by auto
    note W = install_trans_step[OF kt log_wfD(1)[OF wf, unfolded K], of ?n i "home K i" recovering "?P (Suc i)",
        folded K, OF refl log_wfD(6)[OF wf i] P(1) cl refl log_wfD(7)[OF wf i] out[OF i] P(2) r P', unfolded ci]
    then show "wp (bnd (bread (l_dev (klog t)) (l_start (klog t) + i + 1) t) (\<lambda>lbuf s.
       bnd (bread (l_dev (klog s)) (lh_block (l_lh (klog s)) i) s) (\<lambda>dbuf s.
       let s = upd_buf dbuf (\<lambda>x. x\<lparr>b_data := b_data (bufs s lbuf)\<rparr>) s in
       bnd (bwrite dbuf s) (\<lambda>_ s.
       bnd (if \<not> recovering then bunpin dbuf s else Ok () s) (\<lambda>_ s.
       bnd (brelse lbuf s) (\<lambda>_ s. brelse dbuf s)))))) (\<lambda>_ t. ?I (Suc i) t)"
      by (simp add: nx writes_append writes_single)
  qed
  moreover have "?P (log_n K) = (\<lambda>_. 0)" using pinned_simps(6)[OF wf] by simp
  ultimately show ?thesis by simp
qed

lemma upd_lh_simps:
  "kcache p F H P (upd_lh f s) = kcache p F H P s" "content (upd_lh f s) = content s" "drv (upd_lh f s) = drv s"
  "wtrace (upd_lh f s) = wtrace s" "klog (upd_lh f s) = (klog s)\<lparr>l_lh := f (l_lh (klog s))\<rparr>"
proof -
  show "content (upd_lh f s) = content s" by (rule content_cong) (simp_all add: upd_lh_def upd_log_def)
qed (simp_all add: upd_lh_def upd_log_def kcache_def disk_ready_def body_simps)

lemma cache_step_klog: "cache_step p s t \<Longrightarrow> cache_step p (s\<lparr>klog := k\<rparr>) (t\<lparr>klog := k\<rparr>)"
  by (simp add: cache_step_def stirred_def body_simps)

text \<open>Clearing the header after the blocks are home.\<close>

lemma clear_head_spec:
  assumes k: "kc p s0 Map.empty (\<lambda>_. 0) c d w s" and K: "K = klog s0" and wf: "log_wf K"
    and h: "h = enc_head (l_lh (clear_lh K)) (c (l_start K))"
  shows "wp (write_head (upd_lh (\<lambda>x. x\<lparr>lh_n := 0\<rparr>) s)) (\<lambda>_ t.
           kc p (s0\<lparr>klog := clear_lh K\<rparr>) Map.empty (\<lambda>_. 0) (c(l_start K := h)) (dput d (l_start K) h) (w @ [(l_start K, h)]) t)"
proof -
  let ?s = "upd_lh (\<lambda>x. x\<lparr>lh_n := 0\<rparr>) s"
  have eq: "?s = s\<lparr>klog := clear_lh K\<rparr>"
    using kc_klog(1)[OF k] by (simp add: upd_lh_def upd_log_def clear_lh_def K)
  have "kc p (s0\<lparr>klog := clear_lh K\<rparr>) Map.empty (\<lambda>_. 0) c d w ?s"
    using k cache_step_klog[of p s0 s "clear_lh K"] by (simp add: kc_def upd_lh_simps(1-4) eq[symmetric])
  then show ?thesis
    by (rule write_head_step) (use log_wfD[OF wf] h in \<open>simp_all add: clear_lh_def\<close>)
qed

text \<open>Once the log blocks and the header are written, the log holds what is to be installed.\<close>

lemma logged_blocks:
  assumes wf: "log_wf K" and len: "\<And>m. length (c m) = 1024" and lenh: "length h = 1024"
    and ws: "ws = log_writes K c (log_n K) @ [(l_start K, h)]"
  shows "inst_writes K (put_all c ws) (log_n K) = home_writes K c (log_n K)"
    and "i < log_n K \<Longrightarrow> put_all c ws (l_start K + i + 1) = dblock (apply_writes d ws) (l_start K + i + 1)"
    and "put_all c (ws @ home_writes K c (log_n K)) (l_start K) = h"
proof -
  have at: "put_all b ws (l_start K + i + 1) = c (home K i)" if "i < log_n K" for i b
    using that by (simp add: ws writes_append writes_single log_writes_in[of i "log_n K", simplified])
  then show "inst_writes K (put_all c ws) (log_n K) = home_writes K c (log_n K)"
    by (auto simp: inst_writes_def home_writes_def)
  show "i < log_n K \<Longrightarrow> put_all c ws (l_start K + i + 1) = dblock (apply_writes d ws) (l_start K + i + 1)"
    using at[of i] len lenh by (subst dblock_apply) (auto simp: ws log_writes_def)
  have "put_all c ws (l_start K) = h" by (simp add: ws writes_append writes_single)
  moreover have "put_all (put_all c ws) (home_writes K c (log_n K)) (l_start K) = put_all c ws (l_start K)"
    by (rule home_writes_other) (use log_wfD(8)[OF wf, of _ 0] in force)
  ultimately show "put_all c (ws @ home_writes K c (log_n K)) (l_start K) = h" by (simp add: writes_append)
qed

lemma commit_install:
  assumes k: "kc p s0 Map.empty (pinned K 0) (put_all c ws) (apply_writes d ws) (w @ ws) s" and K: "K = klog s0"
    and wf: "log_wf K" and len: "\<And>m. length (c m) = 1024" and lenh: "length h = 1024"
    and ws: "ws = log_writes K c (log_n K) @ [(l_start K, h)]"
    and vs: "vs = ws @ home_writes K c (log_n K)" and us: "us = vs @ [(l_start K, enc_head (l_lh (clear_lh K)) h)]"
  shows "wp (bnd (install_trans False s) (\<lambda>_ s. write_head (upd_lh (\<lambda>h. h\<lparr>lh_n := 0\<rparr>) s)))
           (\<lambda>_ t. kc p (s0\<lparr>klog := clear_lh K\<rparr>) Map.empty (\<lambda>_. 0) (put_all c us) (apply_writes d us) (w @ us) t)"
proof -
  note L = logged_blocks[OF wf len lenh ws]
  have k': "kc p s0 Map.empty (if False then (\<lambda>_. 0) else pinned K 0) (put_all c ws) (apply_writes d ws) (w @ ws) s"
    using k by simp
  show ?thesis
  proof (rule wp_bndI[OF install_trans_spec[OF k' K wf L(2)]], assumption)
    fix t assume "kc p s0 Map.empty (\<lambda>_. 0) (put_all (put_all c ws) (inst_writes K (put_all c ws) (log_n K)))
      (apply_writes (apply_writes d ws) (inst_writes K (put_all c ws) (log_n K)))
      ((w @ ws) @ inst_writes K (put_all c ws) (log_n K)) t"
    then have "kc p s0 Map.empty (\<lambda>_. 0) (put_all c vs) (apply_writes d vs) (w @ vs) t"
      unfolding L(1) by (simp add: vs writes_append)
    from clear_head_spec[OF this K wf refl] L(3)
    show "wp (write_head (upd_lh (\<lambda>h. h\<lparr>lh_n := 0\<rparr>) t)) (\<lambda>_ t.
        kc p (s0\<lparr>klog := clear_lh K\<rparr>) Map.empty (\<lambda>_. 0) (put_all c us) (apply_writes d us) (w @ us) t)"
      unfolding us writes_append[of _ vs] writes_single append_assoc by (simp add: vs)
  qed
qed

lemma commit_spec:
  assumes k: "kcache p {} Map.empty (pinned (klog s) 0) s" and wf: "log_wf (klog s)" and n: "0 < lh_n (l_lh (klog s))"
    and ws: "ws = commit_writes (klog s) (content s)"
  shows "wp (commit s) (\<lambda>_ t. kc p (s\<lparr>klog := clear_lh (klog s)\<rparr>) Map.empty (\<lambda>_. 0)
           (put_all (content s) ws) (apply_writes (drv s) ws) (wtrace s @ ws) t)" (is "wp _ ?Q")
proof -
  let ?K = "klog s" and ?c = "content s" and ?d = "drv s" and ?w = "wtrace s"
  let ?st = "l_start ?K" and ?lw = "log_writes ?K ?c (log_n ?K)" and ?h = "enc_head (l_lh ?K) (?c (l_start ?K))"
  have sth: "put_all ?c ?lw ?st = ?c ?st" by (rule log_writes_other) simp
  have len: "length (?c m) = 1024" for m using kc_length[OF kcI[OF k]] .
  have lenh: "length ?h = 1024" using enc_head_reads(1)[of "l_lh ?K" "?c ?st"] len log_wfD[OF wf] by simp
  have P: "pinned ?K 0 ?st = 0" "card {m. pinned ?K 0 m \<noteq> 0} < 30" and n30: "lh_n (l_lh ?K) \<le> 30"
    using pinned_simps(1)[OF wf] pinned_simps(3)[OF wf, of 0 0] log_wfD(3)[OF wf] by simp_all
  have eq: "ws = ((?lw @ [(?st, ?h)]) @ home_writes ?K ?c (log_n ?K)) @ [(?st, enc_head (l_lh (clear_lh ?K)) ?h)]"
    by (simp add: ws commit_writes_def Let_def)
  have "wp (bnd (write_log s) (\<lambda>_ s. bnd (write_head s) (\<lambda>_ s. bnd (install_trans False s) (\<lambda>_ s.
      write_head (upd_lh (\<lambda>h. h\<lparr>lh_n := 0\<rparr>) s))))) ?Q"
  proof (rule wp_bndI[OF write_log_spec[OF kcI[OF k] refl wf]])
    fix s1 assume 1: "kc p s Map.empty (pinned ?K 0) (put_all ?c ?lw) (apply_writes ?d ?lw) (?w @ ?lw) s1"
    show "wp (bnd (write_head s1) (\<lambda>_ s. bnd (install_trans False s) (\<lambda>_ s.
        write_head (upd_lh (\<lambda>h. h\<lparr>lh_n := 0\<rparr>) s)))) ?Q"
    proof (rule wp_bndI[OF write_head_step[OF 1 log_wfD(1)[OF wf] refl log_wfD(5)[OF wf] P log_wfD(2)[OF wf] n30 refl]])
      fix s2 assume "kc p s Map.empty (pinned ?K 0) ((put_all ?c ?lw)(?st := enc_head (l_lh ?K) (put_all ?c ?lw ?st)))
        (dput (apply_writes ?d ?lw) ?st (enc_head (l_lh ?K) (put_all ?c ?lw ?st)))
        ((?w @ ?lw) @ [(?st, enc_head (l_lh ?K) (put_all ?c ?lw ?st))]) s2"
      then have 2: "kc p s Map.empty (pinned ?K 0) (put_all ?c (?lw @ [(?st, ?h)])) (apply_writes ?d (?lw @ [(?st, ?h)]))
          (?w @ ?lw @ [(?st, ?h)]) s2"
        by (simp add: writes_append writes_single sth)
      show "wp (bnd (install_trans False s2) (\<lambda>_ s. write_head (upd_lh (\<lambda>h. h\<lparr>lh_n := 0\<rparr>) s))) ?Q"
        by (rule commit_install[OF 2 refl wf len lenh refl refl eq])
    qed
  qed
  then show ?thesis using n by (simp add: commit_def)
qed

section \<open>Recovery\<close>

lemma content_clean: "kcache p {} Map.empty (\<lambda>_. 0) s \<Longrightarrow> content s = dblock (drv s)"
proof
  fix n assume k: "kcache p {} Map.empty (\<lambda>_. 0) s"
  note c = kcacheD(3)[OF k]
  show "content s n = dblock (drv s) n"
  proof (rule content_eqI[OF c])
    fix b assume b: "b < 30" "b_valid (bufs s b)" "b_blockno (bufs s b) = n"
    have "b_refcnt (bufs s b) = 0" using cache_okD(7)[OF c b(1)] by (simp add: unat_eq_zero split: if_splits)
    then show "b_data (bufs s b) = dblock (drv s) n" using cache_okD(15)[OF c b(1,2)] b(3) by simp
  qed simp
qed

lemma read_head_spec:
  assumes k: "kcache p {} Map.empty (\<lambda>_. 0) s" and dev: "l_dev (klog s) = 1" and st: "l_start (klog s) < 2 ^ 31"
    and K: "K = (klog s)\<lparr>l_lh := dec_head (l_lh (klog s)) (content s (l_start (klog s)))\<rparr>"
  shows "wp (read_head s) (\<lambda>_ t. kc p (s\<lparr>klog := K\<rparr>) Map.empty (\<lambda>_. 0) (content s) (drv s) (wtrace s) t)"
  unfolding read_head_def dev
proof (rule kc_bread[OF kcI[OF k] st])
  let ?st = "l_start (klog s)"
  fix b t assume kt: "kc p s [b \<mapsto> ?st] (\<lambda>_. 0) (content s) (drv s) (wtrace s) t"
  have bd: "b_data (bufs t b) = content s ?st" by (rule kc_data[OF kt]) simp
  let ?u = "upd_lh (\<lambda>h. dec_head h (b_data (bufs t b))) t"
  have eq: "?u = t\<lparr>klog := K\<rparr>" using kc_klog(1)[OF kt] by (simp add: upd_lh_def upd_log_def K bd)
  have "kc p (s\<lparr>klog := K\<rparr>) [b \<mapsto> ?st] (\<lambda>_. 0) (content s) (drv s) (wtrace s) ?u"
    using kt cache_step_klog[of p s t K] by (simp add: kc_def upd_lh_simps(1-4) eq[symmetric])
  then show "wp (brelse b ?u) (\<lambda>_ t. kc p (s\<lparr>klog := K\<rparr>) Map.empty (\<lambda>_. 0) (content s) (drv s) (wtrace s) t)"
    by (intro wp_tail[of "brelse b ?u"], elim kc_brelse) (use content_clean[OF k] in auto)
qed auto

lemma recover_spec:
  assumes k: "kcache p {} Map.empty (\<lambda>_. 0) s" and K: "K = (klog s)\<lparr>l_lh := dec_head (l_lh (klog s)) (dblock (drv s) (l_start (klog s)))\<rparr>"
    and wf: "log_wf K" and ws: "ws = inst_writes K (dblock (drv s)) (log_n K)"
  shows "wp (recover_from_log s) (\<lambda>_ t. klog t = clear_lh K \<and> kcache p {} Map.empty (\<lambda>_. 0) t \<and>
           (\<forall>m. m \<noteq> l_start K \<longrightarrow> dblock (drv t) m = put_all (dblock (drv s)) ws m) \<and>
           rd32 (dblock (drv t) (l_start K)) 0 = 0)"
proof -
  let ?c = "dblock (drv s)" and ?st = "l_start K"
  have st: "l_start (klog s) = ?st" and dev: "l_dev (klog s) = 1" using log_wfD(1)[OF wf] by (simp_all add: K)
  note rh = read_head_spec[OF k dev, unfolded st content_clean[OF k], OF log_wfD(5)[OF wf], OF K[unfolded st]]
  have len: "\<forall>(n, bs) \<in> set ws. length bs = 1024" by (auto simp: ws inst_writes_def)
  show ?thesis
    unfolding recover_from_log_def
  proof (rule wp_bndI[OF rh])
    fix s1 assume 1: "kc p (s\<lparr>klog := K\<rparr>) Map.empty (\<lambda>_. 0) ?c (drv s) (wtrace s) s1"
    have k1: "kc p (s\<lparr>klog := K\<rparr>) Map.empty (if True then (\<lambda>_. 0) else pinned K 0) ?c (drv s) (wtrace s) s1"
      using 1 by simp
    show "wp (bnd (install_trans True s1) (\<lambda>_ s. write_head (upd_lh (\<lambda>h. h\<lparr>lh_n := 0\<rparr>) s))) (\<lambda>_ t. klog t = clear_lh K \<and>
        kcache p {} Map.empty (\<lambda>_. 0) t \<and> (\<forall>m. m \<noteq> ?st \<longrightarrow> dblock (drv t) m = put_all ?c ws m) \<and> rd32 (dblock (drv t) ?st) 0 = 0)"
    proof (rule wp_bndI[OF install_trans_spec[OF k1 _ wf]])
      fix s2 assume 2: "kc p (s\<lparr>klog := K\<rparr>) Map.empty (\<lambda>_. 0) (put_all ?c (inst_writes K ?c (log_n K)))
        (apply_writes (drv s) (inst_writes K ?c (log_n K))) (wtrace s @ inst_writes K ?c (log_n K)) s2"
      let ?h = "enc_head (l_lh (clear_lh K)) (put_all ?c ws ?st)"
      have l: "length (put_all ?c ws ?st) = 1024" using kc_length[OF 2] by (simp add: ws)
      have h: "length ?h = 1024" "rd32 ?h 0 = 0"
        using enc_head_reads[of "l_lh (clear_lh K)" "put_all ?c ws ?st"] l by (simp_all add: clear_lh_def)
      show "wp (write_head (upd_lh (\<lambda>h. h\<lparr>lh_n := 0\<rparr>) s2)) (\<lambda>_ t. klog t = clear_lh K \<and>
          kcache p {} Map.empty (\<lambda>_. 0) t \<and> (\<forall>m. m \<noteq> ?st \<longrightarrow> dblock (drv t) m = put_all ?c ws m) \<and> rd32 (dblock (drv t) ?st) 0 = 0)"
      proof (rule wp_mono[OF clear_head_spec[OF 2 _ wf refl]])
        fix t assume "kc p (s\<lparr>klog := K, klog := clear_lh K\<rparr>) Map.empty (\<lambda>_. 0)
          ((put_all ?c (inst_writes K ?c (log_n K)))(?st := enc_head (l_lh (clear_lh K)) (put_all ?c (inst_writes K ?c (log_n K)) ?st)))
          (dput (apply_writes (drv s) (inst_writes K ?c (log_n K))) ?st (enc_head (l_lh (clear_lh K)) (put_all ?c (inst_writes K ?c (log_n K)) ?st)))
          ((wtrace s @ inst_writes K ?c (log_n K)) @ [(?st, enc_head (l_lh (clear_lh K)) (put_all ?c (inst_writes K ?c (log_n K)) ?st))]) t"
        then have t: "kc p (s\<lparr>klog := K, klog := clear_lh K\<rparr>) Map.empty (\<lambda>_. 0) ((put_all ?c ws)(?st := ?h))
          (dput (apply_writes (drv s) ws) ?st ?h) ((wtrace s @ ws) @ [(?st, ?h)]) t" by (simp only: ws)
        then have "drv t = dput (apply_writes (drv s) ws) ?st ?h" by (simp add: kc_def)
        then show "klog t = clear_lh K \<and> kcache p {} Map.empty (\<lambda>_. 0) t \<and>
            (\<forall>m. m \<noteq> ?st \<longrightarrow> dblock (drv t) m = put_all ?c ws m) \<and> rd32 (dblock (drv t) ?st) 0 = 0"
          using kc_klog(1)[OF t] kc_kcache[OF t] dblock_apply[OF len] h by (simp add: dblock_dput)
      qed simp
    qed simp_all
  qed
qed

end
