(* ===== verification/Idle_Machine.thy ===== *)
theory Idle_Machine
  imports Cache_Rules
begin

text \<open>
  A concrete machine on which the storage theorems are applied: process 0 runs, no disk request is
  outstanding and every buffer is unused. Its contents are those of an arbitrary drive, so it is
  also the machine after a reboot.
\<close>

definition idle_bufs :: "nat \<Rightarrow> buf" where
  "idle_bufs b = zero_buf\<lparr>b_next := (if b = 30 then 0 else b + 1), b_prev := (if b = 0 then 30 else b - 1)\<rparr>"

definition idle_kst :: "drive \<Rightarrow> kst" where
  "idle_kst d = zero_kst\<lparr>cpus := (\<lambda>_. \<lparr>c_proc = Some 0, c_noff = 0, c_intena = False\<rparr>),
     procs := (\<lambda>_. zero_proc)(0 := zero_proc\<lparr>p_state := RUNNING, p_pid := 1\<rparr>),
     vdisk := zero_vdisk\<lparr>d_free := (\<lambda>i. i < 8)\<rparr>, bufs := idle_bufs, drv := d\<rparr>"

lemma idle_ring: "bring [0..<30] idle_bufs"
proof -
  have "dseg (\<lambda>b. b_next (idle_bufs b)) (\<lambda>b. b_prev (idle_bufs b)) i [Suc i..<30] 30" if "i < 30" for i
    using that
  proof (induction "29 - i" arbitrary: i)
    case 0
    then show ?case by (simp add: idle_bufs_def)
  next
    case (Suc k)
    then have "dseg (\<lambda>b. b_next (idle_bufs b)) (\<lambda>b. b_prev (idle_bufs b)) (Suc i) [Suc (Suc i)..<30] 30"
      and "[Suc i..<30] = Suc i # [Suc (Suc i)..<30]" by (auto simp: upt_conv_Cons)
    then show ?case using Suc.prems by (simp add: idle_bufs_def)
  qed
  from this[of 0] have "dseg (\<lambda>b. b_next (idle_bufs b)) (\<lambda>b. b_prev (idle_bufs b)) 30 (0 # [1..<30]) 30"
    by (simp add: idle_bufs_def)
  moreover have "[0..<30] = 0 # [1..<30::nat]" by (simp add: upt_conv_Cons)
  ultimately show ?thesis by (simp only: bring_def) simp
qed

lemma idle_running: "running 0 {} (idle_kst d)" "disk_ready (idle_kst d)"
  by (simp_all add: idle_kst_def running_def env_def zero_defs disk_ready_def ref_blk_conforms)

lemma idle_cache: "kcache 0 {} Map.empty (\<lambda>_. 0) (idle_kst d)"
proof -
  have "bufs (idle_kst d) = idle_bufs" "slocks (idle_kst d) = (\<lambda>_. \<lparr>sl_locked = False, sl_name = [], sl_pid = 0\<rparr>)"
    by (simp_all add: idle_kst_def zero_kst_def)
  moreover have "\<exists>xs. bring xs idle_bufs \<and> set xs = {0..<30}" using idle_ring by (intro exI[of _ "[0..<30]"]) simp
  ultimately show ?thesis
    using idle_running[of d] by (simp add: kcache_def cache_ok_def slot_ok_def idle_bufs_def[abs_def] zero_buf_def)
qed

end
