(* ===== verification/Crash_Safety.thy ===== *)
theory Crash_Safety
  imports Log_Commit Idle_Machine
begin

text \<open>
  Crash safety of the log. A crash stops \<open>commit\<close> between two block writes; after the reboot
  \<open>initlog\<close> recovers. Whatever prefix of the writes reached the drive, the blocks outside the log
  area are those before the transaction, or those after it.
\<close>

section \<open>What is on the drive after a crash\<close>

lemma take_log_writes: "i \<le> n \<Longrightarrow> take i (log_writes K c n) = log_writes K c i"
  "i \<le> n \<Longrightarrow> take i (home_writes K c n) = home_writes K c i"
  "length (log_writes K c n) = n" "length (home_writes K c n) = n"
  by (simp_all add: log_writes_def home_writes_def take_map)

lemma commit_prefixes:
  assumes st: "st = l_start K" and h: "h = enc_head (l_lh K) (c st)"
  obtains (log) "k \<le> log_n K" and "take k (commit_writes K c) = log_writes K c k"
    | (head) j where "log_n K < k" and "j \<le> log_n K"
        and "take k (commit_writes K c) = log_writes K c (log_n K) @ (st, h) # home_writes K c j"
    | (clear) "log_n K < k" and "take k (commit_writes K c) =
        log_writes K c (log_n K) @ (st, h) # home_writes K c (log_n K) @ [(st, enc_head (l_lh (clear_lh K)) h)]"
proof -
  let ?n = "log_n K"
  consider "k \<le> ?n" | "?n < k" "k \<le> 2 * ?n + 1" | "2 * ?n + 1 < k" by linarith
  then show ?thesis
  proof cases
    case 1
    then show ?thesis using log by (simp add: commit_writes_def Let_def take_log_writes)
  next
    case 2
    then have "take k (commit_writes K c) = log_writes K c ?n @ (st, h) # home_writes K c (k - ?n - 1)"
      by (simp add: commit_writes_def Let_def take_log_writes st h take_Cons')
    then show ?thesis using head[of "k - ?n - 1"] 2 by linarith
  next
    case 3
    then show ?thesis using clear by (simp add: commit_writes_def Let_def take_log_writes st h take_Cons')
  qed
qed

text \<open>Blocks outside the log area under the writes of a commit.\<close>

lemma outside_log:
  assumes wf: "log_wf K" and m: "m \<notin> {l_start K .. l_start K + 29}"
  shows "i \<le> log_n K \<Longrightarrow> put_all b (log_writes K c i) m = b m" and "put_all b ((l_start K, h) # ws) m = put_all b ws m"
proof -
  show "i \<le> log_n K \<Longrightarrow> put_all b (log_writes K c i) m = b m"
    by (rule log_writes_other) (use m log_wfD(4)[OF wf] in auto)
  have "put_all b ((l_start K, h) # ws) m = put_all (b(l_start K := h)) ws m"
    using writes_append(2)[of b "[(l_start K, h)]" ws] by (simp add: writes_single)
  also have "\<dots> = put_all b ws m" by (rule put_all_agree) (use m in auto)
  finally show "put_all b ((l_start K, h) # ws) m = put_all b ws m" .
qed

lemma home_writes_all:
  assumes wf: "log_wf K" and clean: "m \<notin> set (homes K) \<Longrightarrow> c m = b m"
  shows "put_all b (home_writes K c (log_n K)) m = c m"
proof (cases "m \<in> set (homes K)")
  case True
  then obtain j where "j < log_n K" "m = home K j" by (auto simp: homes_def)
  then show ?thesis using home_writes_in[OF wf, of "log_n K" j b c] by simp
next
  case False
  then have "put_all b (home_writes K c (log_n K)) m = b m" by (intro home_writes_other) (auto simp: homes_def)
  then show ?thesis using clean[OF False] by simp
qed

lemma empty_header:
  assumes "rd32 bs 0 = 0" and "l_dev K = 1" and "l_start K + 29 < 2 ^ 31" and "l_lh K = dec_head h bs"
  shows "log_wf K" and "log_n K = 0"
  using assms by (simp_all add: log_wf_def homes_def dec_head_reads)

lemma decoded_header:
  assumes wf: "log_wf K" and len: "length bs = 1024" and K': "l_dev K' = 1" "l_start K' = l_start K"
    "l_lh K' = dec_head h (enc_head (l_lh K) bs)"
  shows "log_wf K'" and "log_n K' = log_n K" and "i < log_n K \<Longrightarrow> home K' i = home K i"
proof -
  have "\<forall>i<log_n K. home K i < 2 ^ 32" using log_wfD(7)[OF wf] by force
  from dec_enc_head[OF log_wfD(2)[OF wf] _ this len, of h] log_wfD(3)[OF wf] K'(3)
  have n: "lh_n (l_lh K') = lh_n (l_lh K)" and b: "\<And>i. i < log_n K \<Longrightarrow> home K' i = home K i" by simp_all
  then have "homes K' = homes K" by (simp add: homes_def)
  then show "log_wf K'" using wf K' n by (simp add: log_wf_def)
  show "log_n K' = log_n K" "i < log_n K \<Longrightarrow> home K' i = home K i" using n b by simp_all
qed

lemma no_home: "log_wf K \<Longrightarrow> m \<in> {l_start K .. l_start K + 29} \<Longrightarrow> i < log_n K \<Longrightarrow> m \<noteq> home K i"
  by (auto simp: log_wf_def homes_def)

text \<open>The header has reached the drive: the log holds the transaction, whatever was installed.\<close>

lemma image_head:
  assumes wf: "log_wf K" and len: "\<And>m. length (c m) = 1024" and clean: "\<And>m. m \<notin> set (homes K) \<Longrightarrow> c m = a m"
    and h: "h = enc_head (l_lh K) (c (l_start K))" and j: "j \<le> log_n K"
    and b: "b = put_all a (log_writes K c (log_n K) @ (l_start K, h) # home_writes K c j)"
    and K': "l_dev K' = 1" "l_start K' = l_start K" "l_lh K' = dec_head h0 (b (l_start K))"
  shows "log_wf K' \<and> (\<forall>m. m \<notin> {l_start K .. l_start K + 29} \<longrightarrow> put_all b (inst_writes K' b (log_n K')) m = c m)"
proof -
  let ?n = "log_n K" and ?st = "l_start K"
  have b': "b = put_all (put_all a (log_writes K c ?n)) ((?st, h) # home_writes K c j)" by (simp add: b writes_append)
  have at: "put_all e ((?st, h) # home_writes K c j) x = (if x = ?st then h else e x)" if "x \<in> {?st .. ?st + 29}" for e x
    using writes_append(2)[of e "[(?st, h)]" "home_writes K c j"] home_writes_other[of j x K "e(?st := h)" c]
      no_home[OF wf that] j by (simp add: writes_single)
  have "b ?st = h" using at[of ?st] by (simp add: b')
  then have D: "log_wf K'" "log_n K' = ?n" "\<And>i. i < ?n \<Longrightarrow> home K' i = home K i"
    using decoded_header[OF wf len[of ?st] K'(1,2)] K'(3) by (simp_all add: h)
  have "b (?st + i + 1) = c (home K i)" if "i < ?n" for i
    using at[of "?st + i + 1"] that log_wfD(4)[OF wf] log_writes_in[OF that, of a K c] by (simp add: b')
  then have iw: "inst_writes K' b (log_n K') = home_writes K c ?n"
    using D K'(2) by (auto simp: inst_writes_def home_writes_def)
  have "put_all b (home_writes K c ?n) m = c m" if m: "m \<notin> {?st .. ?st + 29}" for m
  proof (rule home_writes_all[OF wf])
    assume nh: "m \<notin> set (homes K)"
    then have "put_all (put_all a (log_writes K c ?n)) (home_writes K c j) m = put_all a (log_writes K c ?n) m"
      using j by (intro home_writes_other) (auto simp: homes_def)
    then show "c m = b m" using clean[OF nh] outside_log[OF wf m] by (simp add: b')
  qed
  then show ?thesis using D iw by simp
qed

text \<open>The cleared header has reached the drive: the blocks are home.\<close>

lemma image_clear:
  assumes wf: "log_wf K" and clean: "\<And>m. m \<notin> set (homes K) \<Longrightarrow> c m = a m" and lenh: "length h = 1024"
    and b: "b = put_all a (log_writes K c (log_n K) @ (l_start K, h) # home_writes K c (log_n K) @
              [(l_start K, enc_head (l_lh (clear_lh K)) h)])"
    and K': "l_dev K' = 1" "l_start K' = l_start K" "l_lh K' = dec_head h0 (b (l_start K))"
  shows "log_wf K' \<and> (\<forall>m. m \<notin> {l_start K .. l_start K + 29} \<longrightarrow> put_all b (inst_writes K' b (log_n K')) m = c m)"
proof -
  let ?n = "log_n K" and ?st = "l_start K" and ?h0 = "enc_head (l_lh (clear_lh K)) h"
  have b': "b = (put_all (put_all a (log_writes K c ?n)) ((?st, h) # home_writes K c ?n))(?st := ?h0)"
    using writes_append(2)[of _ "(?st, h) # home_writes K c ?n" "[(?st, ?h0)]"]
    by (simp add: b writes_append(2)[of _ "log_writes K c ?n"] writes_single)
  have st29: "l_start K' + 29 < 2 ^ 31" using wf K' by (simp add: log_wf_def)
  have "rd32 (b ?st) 0 = 0" using enc_head_reads(2)[of "l_lh (clear_lh K)" h] lenh by (simp add: b' clear_lh_def)
  then have e: "log_wf K'" "log_n K' = 0" using empty_header[OF _ K'(1) st29 K'(3)] by simp_all
  have "b m = c m" if m: "m \<notin> {?st .. ?st + 29}" for m
  proof -
    have "b m = put_all (put_all a (log_writes K c ?n)) (home_writes K c ?n) m"
      using m outside_log(2)[OF wf m] by (auto simp: b')
    also have "\<dots> = c m" by (rule home_writes_all[OF wf]) (use clean outside_log(1)[OF wf m order.refl] in auto)
    finally show ?thesis .
  qed
  then show ?thesis using e by (auto simp: inst_writes_def writes_single)
qed

lemma crash_image:
  assumes wf: "log_wf K" and len: "\<And>m. length (c m) = 1024"
    and clean: "\<And>m. m \<notin> set (homes K) \<Longrightarrow> c m = dblock d m" and hdr: "rd32 (dblock d (l_start K)) 0 = 0"
    and b: "b = put_all (dblock d) (take k (commit_writes K c))"
    and K': "l_dev K' = 1" "l_start K' = l_start K" "l_lh K' = dec_head h0 (b (l_start K))"
  shows "log_wf K' \<and> (\<forall>m. m \<notin> {l_start K .. l_start K + 29} \<longrightarrow>
           put_all b (inst_writes K' b (log_n K')) m = (if k \<le> log_n K then dblock d m else c m))"
proof (cases rule: commit_prefixes[OF refl refl, of k K c, case_names log head clear])
  case log
  have "b (l_start K) = dblock d (l_start K)" unfolding b log(2) by (rule log_writes_other) simp
  moreover have "l_start K' + 29 < 2 ^ 31" using wf K' by (simp add: log_wf_def)
  ultimately have "log_wf K'" "log_n K' = 0" using empty_header[OF hdr K'(1)] K'(3) by simp_all
  then show ?thesis using log outside_log(1)[OF wf _ log(1)] by (auto simp: inst_writes_def writes_single b)
next
  case (head j)
  then have b': "b = put_all (dblock d) (log_writes K c (log_n K) @
      (l_start K, enc_head (l_lh K) (c (l_start K))) # home_writes K c j)" by (simp only: b)
  show ?thesis using image_head[where c = c and a = "dblock d" and b = b, OF wf len _ refl head(2) b' K'] clean head(1) by simp
next
  case clear
  have "length (enc_head (l_lh K) (c (l_start K))) = 1024"
    using enc_head_reads(1)[of "l_lh K" "c (l_start K)"] len log_wfD[OF wf] by simp
  moreover have "b = put_all (dblock d) (log_writes K c (log_n K) @ (l_start K, enc_head (l_lh K) (c (l_start K))) #
      home_writes K c (log_n K) @ [(l_start K, enc_head (l_lh (clear_lh K)) (enc_head (l_lh K) (c (l_start K))))])"
    by (simp only: b clear(2))
  ultimately show ?thesis using image_clear[where c = c and a = "dblock d" and b = b, OF wf _ _ _ K'] clean clear(1) by simp
qed

section \<open>Commit, crash, recovery\<close>

lemma initlock_kcache: "kcache p F H P s \<Longrightarrow> kcache p F H P (initlock l nm s)"
  by (auto simp: kcache_def running_def env_def disk_ready_def initlock_def intr_get_def)

lemma upd_log_kcache: "kcache p F H P (upd_log f s) = kcache p F H P s"
  by (simp add: upd_log_def kcache_def disk_ready_def body_simps)

lemma initlog_spec:
  assumes k: "kcache p {} Map.empty (\<lambda>_. 0) s"
    and K: "K = (klog s)\<lparr>l_start := sb_logstart sbk, l_size := sb_nlog sbk, l_dev := 1,
                  l_lh := dec_head (l_lh (klog s)) (dblock (drv s) (sb_logstart sbk))\<rparr>"
    and wf: "log_wf K"
  shows "wp (initlog 1 sbk s) (\<lambda>_ t. kcache p {} Map.empty (\<lambda>_. 0) t \<and>
           (\<forall>m. m \<noteq> l_start K \<longrightarrow> dblock (drv t) m = put_all (dblock (drv s)) (inst_writes K (dblock (drv s)) (log_n K)) m) \<and>
           rd32 (dblock (drv t) (l_start K)) 0 = 0)"
proof -
  let ?s = "upd_log (\<lambda>l. l\<lparr>l_start := sb_logstart sbk, l_size := sb_nlog sbk, l_dev := 1\<rparr>) (initlock Llog ''log'' s)"
  have k': "kcache p {} Map.empty (\<lambda>_. 0) ?s" using initlock_kcache[OF k] by (simp add: upd_log_kcache)
  have d: "drv ?s = drv s" by (simp add: upd_log_def initlock_def)
  have K': "K = (klog ?s)\<lparr>l_lh := dec_head (l_lh (klog ?s)) (dblock (drv ?s) (l_start (klog ?s)))\<rparr>"
    by (simp add: K upd_log_def initlock_def)
  have "initlog 1 sbk s = recover_from_log ?s" by (simp add: initlog_def)
  moreover note R = recover_spec[OF k' K' wf refl, unfolded d]
  ultimately show ?thesis by (simp only:) (rule wp_mono[OF R], auto)
qed

lemma commit_writes_length:
  assumes "log_wf K" and "\<And>m. length (c m) = 1024"
  shows "\<forall>(n, bs) \<in> set (take k (commit_writes K c)). length bs = 1024"
  using assms(2) enc_head_reads(1)[of "l_lh K" "c (l_start K)"] log_wfD[OF assms(1)]
    enc_head_reads(1)[of "l_lh (clear_lh K)" "enc_head (l_lh K) (c (l_start K))"]
  by (auto simp: commit_writes_def log_writes_def home_writes_def Let_def clear_lh_def dest!: in_set_takeD)

lemma crash_recovery:
  assumes wf: "log_wf K" and len: "\<And>m. length (c m) = 1024" and clean: "\<And>m. m \<notin> set (homes K) \<Longrightarrow> c m = dblock d m"
    and hdr: "rd32 (dblock d (l_start K)) 0 = 0" and r: "kcache q {} Map.empty (\<lambda>_. 0) r"
    and dr: "drv r = apply_writes d (take k (commit_writes K c))" and sbk: "sb_logstart sbk = l_start K"
  shows "\<exists>r'. initlog 1 sbk r = Ok () r' \<and> rd32 (dblock (drv r') (l_start K)) 0 = 0 \<and>
      (\<forall>m. m \<notin> {l_start K .. l_start K + 29} \<longrightarrow>
        dblock (drv r') m = (if k \<le> nat (lh_n (l_lh K)) then dblock d m else c m))"
proof -
  let ?K' = "(klog r)\<lparr>l_start := sb_logstart sbk, l_size := sb_nlog sbk, l_dev := 1,
    l_lh := dec_head (l_lh (klog r)) (dblock (drv r) (sb_logstart sbk))\<rparr>"
  have b: "dblock (drv r) = put_all (dblock d) (take k (commit_writes K c))"
    using dblock_apply[OF commit_writes_length[where c = c, OF wf len]] dr by simp
  have I: "log_wf ?K' \<and> (\<forall>m. m \<notin> {l_start K .. l_start K + 29} \<longrightarrow>
      put_all (dblock (drv r)) (inst_writes ?K' (dblock (drv r)) (log_n ?K')) m = (if k \<le> log_n K then dblock d m else c m))"
    by (rule crash_image[OF wf len _ hdr b]) (use clean sbk in auto)
  show ?thesis using initlog_spec[OF r refl conjunct1[OF I]] conjunct2[OF I] sbk by (auto simp: wp_iff)
qed

text \<open>C2: Crash safety. A commit of a well-formed, non-empty log (at most 29 different blocks, pinned in the
  cache and outside the 30 blocks of the log, which start at \<open>l_start\<close>; every other block in the cache
  as on the drive; the header on the drive empty) writes a sequence of blocks. If the machine stops
  after any number \<open>k\<close> of these writes, each of which is done or not done, and reboots with an empty
  cache, \<open>initlog\<close> returns, and every block outside the log is as before the transaction when the
  header had not yet been written, and as after it otherwise; the header on the drive is empty again.\<close>
theorem commit_crash_safe:
  assumes "kcache p {} Map.empty (pinned (klog s) 0) s" and "log_wf (klog s)" and "0 < lh_n (l_lh (klog s))"
    and "\<forall>m. m \<notin> set (homes (klog s)) \<longrightarrow> content s m = dblock (drv s) m"
    and "rd32 (dblock (drv s) (l_start (klog s))) 0 = 0"
  shows "\<exists>t ws. commit s = Ok () t \<and> wtrace t = wtrace s @ ws \<and> drv t = apply_writes (drv s) ws \<and>
    (\<forall>k q r sbk. kcache q {} Map.empty (\<lambda>_. 0) r \<longrightarrow> drv r = apply_writes (drv s) (take k ws) \<longrightarrow>
       sb_logstart sbk = l_start (klog s) \<longrightarrow>
       (\<exists>r'. initlog 1 sbk r = Ok () r' \<and> rd32 (dblock (drv r') (l_start (klog s))) 0 = 0 \<and>
          (\<forall>m. m \<notin> {l_start (klog s) .. l_start (klog s) + 29} \<longrightarrow>
             dblock (drv r') m = (if k \<le> nat (lh_n (l_lh (klog s))) then dblock (drv s) m else content s m))))"
proof -
  let ?ws = "commit_writes (klog s) (content s)"
  have len: "length (content s m) = 1024" for m using kc_length[OF kcI[OF assms(1)]] .
  obtain t where t: "commit s = Ok () t" "wtrace t = wtrace s @ ?ws" "drv t = apply_writes (drv s) ?ws"
    using commit_spec[OF assms(1-3) refl] by (auto simp: wp_iff kc_def)
  note R = crash_recovery[where c = "content s", OF assms(2) len _ assms(5)]
  show ?thesis
    by (rule exI[of _ t], rule exI[of _ ?ws], intro conjI t allI impI) (rule R, use assms(4) in auto)
qed

section \<open>A concrete transaction\<close>

text \<open>A transaction of one block: block 45, modified and pinned in buffer 0.\<close>

definition txn_kst :: kst where
  "txn_kst = (idle_kst (\<lambda>_. 0))\<lparr>
     bufs := idle_bufs(0 := (idle_bufs 0)\<lparr>b_valid := True, b_dev := 1, b_blockno := 45, b_refcnt := 1,
                                            b_data := replicate 1024 7\<rparr>),
     klog := \<lparr>l_start = 2, l_size = 30, l_outstanding = 0, l_committing = True, l_dev = 1,
              l_lh = \<lparr>lh_n = 1, lh_block = (\<lambda>_. 45)\<rparr>\<rparr>\<rparr>"

lemma txn_log: "log_wf (klog txn_kst)" "homes (klog txn_kst) = [45]" "pinned (klog txn_kst) 0 = (\<lambda>m. if m = 45 then 1 else 0)"
  by (auto simp: txn_kst_def log_wf_def homes_def pinned_def)

lemma txn_cache: "kcache 0 {} Map.empty (pinned (klog txn_kst) 0) txn_kst"
proof -
  let ?s = "idle_kst (\<lambda>_. 0)" and ?P = "\<lambda>m. if m = 45 then 1 else 0 :: nat"
  let ?x = "(idle_bufs 0)\<lparr>b_valid := True, b_dev := 1, b_blockno := 45, b_refcnt := 1, b_data := replicate 1024 7\<rparr>"
  note c = kcacheD(3)[OF idle_cache]
  have bs: "bufs ?s = idle_bufs" by (simp add: idle_kst_def)
  have dev: "b_dev (idle_bufs b) = 0" for b by (simp add: idle_bufs_def zero_buf_def)
  have "cache_ok {} Map.empty ?P (p_pid (procs ?s 0)) ((bufs ?s)(0 := ?x)) ((slocks ?s)(SLbuf 0 := slocks ?s (SLbuf 0))) (drv ?s)"
  proof (rule cache_ok_upd[OF c])
    show "slot_ok {} Map.empty ?P (p_pid (procs ?s 0)) (drv ?s) 0 ?x (slocks ?s (SLbuf 0))"
      by (simp add: slot_ok_def idle_kst_def zero_kst_def idle_bufs_def zero_buf_def)
    show "slot_ok {} Map.empty ?P (p_pid (procs ?s 0)) (drv ?s) e (bufs ?s e) (slocks ?s (SLbuf e))" if "e < 30" "e \<noteq> 0" for e
      by (rule slot_ok_other[OF cache_ok_slot[OF c that(1)]]) (simp_all add: bs dev)
  qed (auto simp: bs dev split: if_splits)
  then have "cache_ok {} Map.empty ?P (p_pid (procs txn_kst 0)) (bufs txn_kst) (slocks txn_kst) (drv txn_kst)"
    by (simp add: txn_kst_def bs)
  moreover have "running 0 {} txn_kst" "disk_ready txn_kst"
    using idle_running[of "\<lambda>_. 0"] by (simp_all add: txn_kst_def body_simps disk_ready_def)
  ultimately show ?thesis by (simp add: kcache_def txn_log(3))
qed

lemma txn_content: "content txn_kst m = (if m = 45 then replicate 1024 7 else dblock (\<lambda>_. 0) m)"
proof (rule content_eqI[OF kcacheD(3)[OF txn_cache]])
  fix b assume "b < 30" "b_valid (bufs txn_kst b)" "b_blockno (bufs txn_kst b) = m"
  then show "b_data (bufs txn_kst b) = (if m = 45 then replicate 1024 7 else dblock (\<lambda>_. 0) m)"
    by (auto simp: txn_kst_def idle_bufs_def zero_buf_def split: if_splits)
next
  assume "\<And>b. b < 30 \<Longrightarrow> b_valid (bufs txn_kst b) \<Longrightarrow> b_blockno (bufs txn_kst b) \<noteq> m"
  from this[of 0] show "dblock (drv txn_kst) m = (if m = 45 then replicate 1024 7 else dblock (\<lambda>_. 0) m)"
    by (simp add: txn_kst_def idle_kst_def)
qed

theorem commit_crash_safe_witness:
  "\<exists>t ws. commit txn_kst = Ok () t \<and> (\<forall>k. \<exists>r.
     initlog 1 ((sb zero_kst)\<lparr>sb_logstart := 2\<rparr>) (idle_kst (apply_writes (\<lambda>_. 0) (take k ws))) = Ok () r \<and>
     dblock (drv r) 45 = (if k \<le> 1 then replicate 1024 0 else replicate 1024 7) \<and> dblock (drv r) 46 = replicate 1024 0)"
proof -
  have d: "drv txn_kst = (\<lambda>_. 0)" "l_start (klog txn_kst) = 2" "lh_n (l_lh (klog txn_kst)) = 1"
    by (simp_all add: txn_kst_def idle_kst_def)
  have z: "dblock (\<lambda>_. 0) m = replicate 1024 0" for m by (simp add: dblock_def map_replicate_const)
  have "rd32 (replicate 1024 0) 0 = 0" by (simp add: rd32_def slice_def numeral_eq_Suc)
  then have hdr: "rd32 (dblock (drv txn_kst) (l_start (klog txn_kst))) 0 = 0" by (simp add: d z)
  have cl: "\<forall>m. m \<notin> set (homes (klog txn_kst)) \<longrightarrow> content txn_kst m = dblock (drv txn_kst) m"
    by (simp add: txn_log txn_content d)
  have pos: "0 < lh_n (l_lh (klog txn_kst))" by (simp add: d)
  obtain t ws where c: "commit txn_kst = Ok () t" and
    w: "\<forall>k q r sbk. kcache q {} Map.empty (\<lambda>_. 0) r \<longrightarrow> drv r = apply_writes (\<lambda>_. 0) (take k ws) \<longrightarrow> sb_logstart sbk = 2 \<longrightarrow>
       (\<exists>r'. initlog 1 sbk r = Ok () r' \<and> rd32 (dblock (drv r') 2) 0 = 0 \<and> (\<forall>m. m \<notin> {2..2 + 29} \<longrightarrow>
          dblock (drv r') m = (if k \<le> nat 1 then dblock (\<lambda>_. 0) m else content txn_kst m)))"
    using commit_crash_safe[OF txn_cache txn_log(1) pos cl hdr, unfolded d] by (elim exE conjE) (rule that; assumption)
  have "\<exists>r. initlog 1 ((sb zero_kst)\<lparr>sb_logstart := 2\<rparr>) (idle_kst (apply_writes (\<lambda>_. 0) (take k ws))) = Ok () r \<and>
      dblock (drv r) 45 = (if k \<le> 1 then replicate 1024 0 else replicate 1024 7) \<and> dblock (drv r) 46 = replicate 1024 0" for k
  proof -
    have "drv (idle_kst x) = x" for x by (simp add: idle_kst_def)
    from w[rule_format, OF idle_cache this, of "(sb zero_kst)\<lparr>sb_logstart := 2\<rparr>"]
    obtain r where "initlog 1 ((sb zero_kst)\<lparr>sb_logstart := 2\<rparr>) (idle_kst (apply_writes (\<lambda>_. 0) (take k ws))) = Ok () r"
      and m: "\<And>m. m \<notin> {2..2 + 29} \<Longrightarrow> dblock (drv r) m = (if k \<le> nat 1 then dblock (\<lambda>_. 0) m else content txn_kst m)"
      by auto
    then show ?thesis using m[of 45] m[of 46] by (auto simp: z txn_content)
  qed
  with c show ?thesis by blast
qed

end
