(* ===== verification/Storage.thy ===== *)
theory Storage
  imports Crash_Safety
begin

text \<open>
  The properties of \<open>wakeup\<close>, of the disk driver and of the buffer cache, on top of the contracts of
  \<open>Kernel_Env\<close>, \<open>Disk_Rw\<close> and \<open>Buffer_Cache\<close>.
\<close>

section \<open>Wakeups\<close>

text \<open>C17: \<open>wakeup\<close> makes runnable exactly the processes of the table, other than the caller, that sleep
  on the channel, and changes nothing else; it returns with the same locks held. This holds for any
  set of locks held that contains no process lock.\<close>
theorem wakeup_wakes_waiters:
  assumes "env mp L s" and "\<forall>q. Lproc q \<notin> L"
  shows "\<exists>t. wakeup c s = Ok () t \<and> env mp L t \<and> body t = (body s)\<lparr>procs := procs t\<rparr> \<and>
           (\<forall>q. procs t q = (if q < 64 \<and> mp \<noteq> Some q \<and> p_state (procs s q) = SLEEPING \<and> p_chan (procs s q) = Some c
                              then (procs s q)\<lparr>p_state := RUNNABLE\<rparr> else procs s q))"
proof -
  have "wp (wakeup c s) (\<lambda>_ t. env mp L t \<and>
      body t = (body s)\<lparr>procs := woken ({0..<64} - set_option mp) (Some c) (procs s)\<rparr>)"
    using assms by (intro wakeup_env) auto
  then obtain t where t: "wakeup c s = Ok () t" "env mp L t"
    and b: "body t = (body s)\<lparr>procs := woken ({0..<64} - set_option mp) (Some c) (procs s)\<rparr>"
    by (auto simp: wp_iff)
  have "procs t = woken ({0..<64} - set_option mp) (Some c) (procs s)" using body_eqD(12)[OF b] by simp
  then show ?thesis using t b by (auto simp: woken_def elem_set)
qed

definition sleepers_kst :: kst where
  "sleepers_kst = (idle_kst (\<lambda>_. 0))\<lparr>procs := (procs (idle_kst (\<lambda>_. 0)))(
     3 := zero_proc\<lparr>p_state := SLEEPING, p_chan := Some Clog\<rparr>, 4 := zero_proc\<lparr>p_state := SLEEPING, p_chan := Some Cticks\<rparr>)\<rparr>"

theorem wakeup_wakes_waiters_witness:
  "\<exists>t. wakeup Clog sleepers_kst = Ok () t \<and> p_state (procs t 3) = RUNNABLE \<and> p_state (procs t 4) = SLEEPING \<and>
       p_state (procs t 0) = RUNNING"
proof -
  have "env (Some 0) {} sleepers_kst"
    using idle_running(1)[of "\<lambda>_. 0"] by (simp add: sleepers_kst_def running_def body_simps)
  from wakeup_wakes_waiters[OF this, of Clog] obtain t where t: "wakeup Clog sleepers_kst = Ok () t"
    and p: "\<And>q. procs t q = (if q < 64 \<and> Some 0 \<noteq> Some q \<and> p_state (procs sleepers_kst q) = SLEEPING \<and>
        p_chan (procs sleepers_kst q) = Some Clog
      then (procs sleepers_kst q)\<lparr>p_state := RUNNABLE\<rparr> else procs sleepers_kst q)" by auto
  show ?thesis using t p[of 3] p[of 4] p[of 0] by (simp add: sleepers_kst_def idle_kst_def)
qed

section \<open>Disk transfers\<close>

text \<open>C18: Disk transfers. The device looks at the available ring when it is notified, follows the chain of
  descriptors, moves as many bytes as the data descriptor says, reports an error for a chain
  whose lengths or flags do not fit the request, and interrupts; what it does with a well-formed
  request is a parameter that conforms to the virtio specification (\<open>blk_conforms\<close>). With such a
  device, no other request outstanding, a block number below \<open>2 ^ 31\<close> and a buffer of 1024 bytes,
  \<open>virtio_disk_rw\<close> returns; a read fills the buffer with the bytes of its block on the drive, a
  write puts the bytes of the buffer there, the driver is ready for the next request (all
  descriptors free again, the rings caught up, the interrupt acknowledged), and apart from the
  driver's bookkeeping and processes made runnable nothing else changes.\<close>
theorem virtio_disk_rw_transfers:
  assumes "running p {} s" and "disk_ready s" and "b_blockno (bufs s b) < 2 ^ 31" and "length (b_data (bufs s b)) = 1024"
  shows "\<exists>t. virtio_disk_rw b write s = Ok () t \<and> running p {} t \<and> disk_ready t \<and> stirred p s t \<and>
           body t = (body s)\<lparr>vdisk := vdisk t, procs := procs t, bufs := bufs t, drv := drv t, wtrace := wtrace t\<rparr> \<and>
           bufs t = (bufs s)(b := (bufs s b)\<lparr>b_disk := False,
                      b_data := if write then b_data (bufs s b) else dblock (drv s) (b_blockno (bufs s b))\<rparr>) \<and>
           drv t = (if write then dput (drv s) (b_blockno (bufs s b)) (b_data (bufs s b)) else drv s)"
proof -
  obtain t where t: "virtio_disk_rw b write s = Ok () t" "running p {} t" "disk_ready t" "stirred p s t"
    and b: "body t = (disk_io b write (body s))\<lparr>vdisk := vdisk t, procs := procs t\<rparr>"
    using virtio_disk_rw_env[OF assms] by (auto simp: wp_iff)
  have e: "bufs t = (bufs s)(b := (bufs s b)\<lparr>b_disk := False,
      b_data := if write then b_data (bufs s b) else dblock (drv s) (b_blockno (bufs s b))\<rparr>)"
    "drv t = (if write then dput (drv s) (b_blockno (bufs s b)) (b_data (bufs s b)) else drv s)"
    using body_eqD(22,24)[OF b] by (cases "write"; cases "bufs s b"; simp add: disk_io_def Let_def)+
  moreover have "body t = (body s)\<lparr>vdisk := vdisk t, procs := procs t, bufs := bufs t, drv := drv t, wtrace := wtrace t\<rparr>"
    using body_eqD(26)[OF b] body_eqD(22,24)[OF b] by (cases "write") (simp_all add: b disk_io_def Let_def)
  ultimately show ?thesis using t by blast
qed

theorem virtio_disk_rw_transfers_witness:
  "\<exists>t u. virtio_disk_rw 5 True ((idle_kst (\<lambda>_. 0))\<lparr>bufs := idle_bufs(5 := (idle_bufs 5)\<lparr>b_blockno := 33, b_data := replicate 1024 9\<rparr>)\<rparr>)
       = Ok () t \<and> dblock (drv t) 33 = replicate 1024 9 \<and>
     virtio_disk_rw 6 False (t\<lparr>bufs := idle_bufs(6 := (idle_bufs 6)\<lparr>b_blockno := 33\<rparr>)\<rparr>) = Ok () u \<and>
     b_data (bufs u 6) = replicate 1024 9"
proof -
  let ?s = "(idle_kst (\<lambda>_. 0))\<lparr>bufs := idle_bufs(5 := (idle_bufs 5)\<lparr>b_blockno := 33, b_data := replicate 1024 9\<rparr>)\<rparr>"
  have "running 0 {} ?s" "disk_ready ?s" using idle_running[of "\<lambda>_. 0"] by (simp_all add: body_simps disk_ready_def)
  from virtio_disk_rw_transfers[OF this, of 5 True] obtain t where t: "virtio_disk_rw 5 True ?s = Ok () t"
    "running 0 {} t" "disk_ready t" "drv t = dput (drv ?s) 33 (replicate 1024 9)" by auto
  let ?u = "t\<lparr>bufs := idle_bufs(6 := (idle_bufs 6)\<lparr>b_blockno := 33\<rparr>)\<rparr>"
  have "running 0 {} ?u" "disk_ready ?u" using t by (simp_all add: body_simps disk_ready_def)
  from virtio_disk_rw_transfers[OF this, of 6 False] obtain u where "virtio_disk_rw 6 False ?u = Ok () u"
    "b_data (bufs u 6) = dblock (drv t) 33" by (auto simp: idle_bufs_def zero_buf_def)
  then show ?thesis using t by (auto simp: dblock_dput)
qed

section \<open>Setting up the cache\<close>

definition binit_step :: "nat \<Rightarrow> kst \<Rightarrow> kst" where
  "binit_step b s =
     (let s = set_next b (b_next (bufs s 30)) s; s = set_prev b 30 s; s = initsleeplock (SLbuf b) ''buffer'' s;
          s = set_prev (b_next (bufs s 30)) b s
      in set_next 30 b s)"

lemma binit_eq: "binit s = for_each [0..<30] (\<lambda>b s. Ok () (binit_step b s)) (set_next 30 30 (set_prev 30 30 (initlock Lbcache ''bcache'' s)))"
  by (simp add: binit_def binit_step_def Let_def)

lemma initsleeplock_links [simp]: "bufs (initsleeplock lk nm s) = bufs s" "nxt (initsleeplock lk nm s) = nxt s" "prv (initsleeplock lk nm s) = prv s"
  by (simp_all add: initsleeplock_def initlock_def upd_slock_def nxt_def prv_def)

lemma set_link_slocks [simp]: "slocks (set_next a n s) = slocks s" "slocks (set_prev a n s) = slocks s"
  by (simp_all add: set_next_def set_prev_def upd_buf_def)

lemma binit_step_links:
  assumes "b \<noteq> 30"
  shows "nxt (binit_step b s) = (nxt s)(b := nxt s 30, 30 := b)" and "prv (binit_step b s) = (prv s)(b := 30, nxt s 30 := b)"
  unfolding binit_step_def Let_def links_fold nxt_prv_set initsleeplock_links using assms by simp_all

lemma binit_step_relinked: "relinked bs (bufs s) \<Longrightarrow> relinked bs (bufs (binit_step b s))"
  by (simp add: binit_step_def Let_def relinked_set)

lemma binit_step_slocks: "slocks (binit_step b s) = (slocks s)(SLbuf b := \<lparr>sl_locked = False, sl_name = ''buffer'', sl_pid = 0\<rparr>)"
  by (cases "slocks s (SLbuf b)")
    (simp add: binit_step_def Let_def initsleeplock_def initlock_def upd_slock_def set_next_def set_prev_def upd_buf_def)

lemma binit_spec:
  "wp (binit s) (\<lambda>_ t. bring (rev [0..<30]) (bufs t) \<and> relinked (bufs s) (bufs t) \<and> (\<forall>b<30. \<not> sl_locked (slocks t (SLbuf b))))"
  unfolding binit_eq
proof (rule for_each_upto[where Q = "\<lambda>i t. bring (rev [0..<i]) (bufs t) \<and> relinked (bufs s) (bufs t) \<and>
    (\<forall>b<i. \<not> sl_locked (slocks t (SLbuf b)))"])
  show "bring (rev [0..<0]) (bufs (set_next 30 30 (set_prev 30 30 (initlock Lbcache ''bcache'' s)))) \<and>
      relinked (bufs s) (bufs (set_next 30 30 (set_prev 30 30 (initlock Lbcache ''bcache'' s)))) \<and>
      (\<forall>b<0. \<not> sl_locked (slocks (set_next 30 30 (set_prev 30 30 (initlock Lbcache ''bcache'' s))) (SLbuf b)))"
    by (auto simp: bring_def initlock_def relinked_def set_next_def set_prev_def upd_buf_def)
next
  fix i and t :: kst assume i: "i < 30" and I: "bring (rev [0..<i]) (bufs t) \<and> relinked (bufs s) (bufs t) \<and>
    (\<forall>b<i. \<not> sl_locked (slocks t (SLbuf b)))"
  have "dseg (nxt t) (prv t) 30 (rev [0..<i]) 30" using I by (simp add: bring_def nxt_def prv_def)
  then have "dseg ((nxt t)(i := nxt t 30, 30 := i)) ((prv t)(i := 30, nxt t 30 := i)) 30 (i # rev [0..<i]) 30"
    by (rule dseg_insert) (use i in auto)
  then have "bring (rev [0..<Suc i]) (bufs (binit_step i t))"
    unfolding bring_def nxt_def[symmetric] prv_def[symmetric] using i by (simp add: binit_step_links)
  then show "wp (Ok () (binit_step i t)) (\<lambda>_ t. bring (rev [0..<Suc i]) (bufs t) \<and> relinked (bufs s) (bufs t) \<and>
      (\<forall>b<Suc i. \<not> sl_locked (slocks t (SLbuf b))))"
    using I by (auto simp: binit_step_relinked binit_step_slocks less_Suc_eq)
qed

section \<open>The cache invariant\<close>

text \<open>
  The states reached from \<open>binit\<close> on zeroed buffers when a process uses the cache by the rules
  that \<open>bio.c\<close> states at its top and \<open>log.c\<close> adds to: it gets a buffer with \<open>bread\<close>, may change
  its data, calls \<open>bwrite\<close> after changing it, and is done with it at \<open>brelse\<close>; instead of
  writing a changed block it may pin it (\<open>log_write\<close> does) and write it before the last unpin is
  followed by \<open>brelse\<close>. \<open>H\<close> are the locked buffers, \<open>P\<close> counts the pins of each block, and \<open>D\<close> are
  the blocks changed since they were last written. The calls follow each other in any order
  otherwise. A block is read when the process does not have it locked already and it is pinned
  or fewer than 30 buffers are in use, which is when \<open>bget\<close> finds a buffer.
\<close>

inductive cache_reach :: "nat \<Rightarrow> (nat \<Rightarrow> nat option) \<Rightarrow> (nat \<Rightarrow> nat) \<Rightarrow> nat set \<Rightarrow> kst \<Rightarrow> bool" for p where
  start: "binit s0 = Ok () t0 \<Longrightarrow> bufs s0 = (\<lambda>_. zero_buf) \<Longrightarrow> running p {} s \<Longrightarrow> disk_ready s \<Longrightarrow> bufs s = bufs t0 \<Longrightarrow>
    slocks s = slocks t0 \<Longrightarrow> cache_reach p Map.empty (\<lambda>_. 0) {} s"
| read: "cache_reach p H P D s \<Longrightarrow> n < 2 ^ 31 \<Longrightarrow> n \<notin> ran H \<Longrightarrow> P n + 2 < 2 ^ 32 \<Longrightarrow>
    P n \<noteq> 0 \<or> card (dom H) + card {m. P m \<noteq> 0} < 30 \<Longrightarrow> bread 1 n s = Ok b t \<Longrightarrow> cache_reach p (H(b \<mapsto> n)) P D t"
| change: "cache_reach p H P D s \<Longrightarrow> H b = Some n \<Longrightarrow> length xs = 1024 \<Longrightarrow>
    cache_reach p H P (insert n D) (upd_buf b (\<lambda>x. x\<lparr>b_data := xs\<rparr>) s)"
| flush: "cache_reach p H P D s \<Longrightarrow> H b = Some n \<Longrightarrow> bwrite b s = Ok () t \<Longrightarrow> cache_reach p H P (D - {n}) t"
| unlock: "cache_reach p H P D s \<Longrightarrow> H b = Some n \<Longrightarrow> n \<notin> D \<or> P n \<noteq> 0 \<Longrightarrow> brelse b s = Ok () t \<Longrightarrow>
    cache_reach p (H(b := None)) P D t"
| pin: "cache_reach p H P D s \<Longrightarrow> H b = Some n \<Longrightarrow> P n + 2 < 2 ^ 32 \<Longrightarrow> bpin b s = Ok () t \<Longrightarrow>
    cache_reach p H (P(n := P n + 1)) D t"
| unpin: "cache_reach p H P D s \<Longrightarrow> H b = Some n \<Longrightarrow> P n \<noteq> 0 \<Longrightarrow> bunpin b s = Ok () t \<Longrightarrow>
    cache_reach p H (P(n := P n - 1)) D t"

lemma relinked_zero:
  assumes "relinked (\<lambda>_. zero_buf) bs" and "bring xs bs" and "set xs = {0..<30}" and "\<forall>b<30. \<not> sl_locked (sl (SLbuf b))"
  shows "cache_ok {} Map.empty (\<lambda>_. 0) pid bs sl d"
  using assms by (auto simp: cache_ok_def slot_ok_def relinked_def zero_buf_def)

text \<open>A block that was not changed since it was last written is on the drive as the cache has it.\<close>

definition written :: "nat set \<Rightarrow> kst \<Rightarrow> bool" where
  "written D s \<longleftrightarrow> (\<forall>n. n \<notin> D \<longrightarrow> content s n = dblock (drv s) n)"

lemma cache_reach_kcache: "cache_reach p H P D s \<Longrightarrow> kcache p {} H P s \<and> written D s"
proof (induction rule: cache_reach.induct)
  case (start s0 t0 s)
  have "bring (rev [0..<30]) (bufs t0) \<and> relinked (bufs s0) (bufs t0) \<and> (\<forall>b<30. \<not> sl_locked (slocks t0 (SLbuf b)))"
    using binit_spec[of s0] start(1) by (simp add: wp_iff)
  then have r: "bring (rev [0..<30]) (bufs s)" "relinked (\<lambda>_. zero_buf) (bufs s)" "\<forall>b<30. \<not> sl_locked (slocks s (SLbuf b))"
    unfolding start(2,5,6) by blast+
  then have c: "cache_ok {} Map.empty (\<lambda>_. 0) (p_pid (procs s p)) (bufs s) (slocks s) (drv s)"
    by (intro relinked_zero[of _ "rev [0..<30]"]) auto
  have "\<not> b_valid (bufs s b)" for b using r(2) by (auto simp: relinked_def zero_buf_def)
  then have "content s n = dblock (drv s) n" for n by (intro content_uncached) auto
  then show ?case using start c by (simp add: kcache_def written_def)
next
  case (read H P D s n b t)
  show ?case using bread_spec[OF conjunct1[OF read.IH] read(2-5)] read(6) read.IH
    by (simp add: wp_iff written_def del: fun_upd_apply)
next
  case (change H P D s b n xs)
  have "kc p s H P ((content s)(n := xs)) (drv s) (wtrace s) (upd_buf b (\<lambda>x. x\<lparr>b_data := xs\<rparr>) s)"
    by (rule kc_set_data[OF kcI[OF conjunct1[OF change.IH]] change(2,3)]) simp
  then show ?case using change.IH by (auto simp: kc_def written_def)
next
  case (flush H P D s b n t)
  note c = kcacheD(3)[OF conjunct1[OF flush.IH]]
  have "length (content s n) = 1024"
    using content_locked[OF conjunct1[OF flush.IH] flush(2)] cache_okD(2)[OF c cache_okD(8)[OF c flush(2)]] by simp
  then show ?case using bwrite_spec[OF conjunct1[OF flush.IH] flush(2)] flush(3) flush.IH
    by (auto simp: wp_iff written_def dblock_dput)
next
  case (unlock H P D s b n t)
  then have "P n = 0 \<Longrightarrow> content s n = dblock (drv s) n" by (auto simp: written_def)
  then show ?case using brelse_spec[OF conjunct1[OF unlock.IH] unlock(2)] unlock(4) unlock.IH
    by (simp add: wp_iff written_def del: fun_upd_apply)
next
  case (pin H P D s b n t)
  show ?case using bpin_spec[OF conjunct1[OF pin.IH] pin(2) _ pin(3)] pin(4) pin.IH
    by (simp add: wp_iff written_def del: fun_upd_apply)
next
  case (unpin H P D s b n t)
  show ?case using bunpin_spec[OF conjunct1[OF unpin.IH] unpin(2) _ unpin(3)] unpin(4) unpin.IH
    by (simp add: wp_iff written_def del: fun_upd_apply)
qed

text \<open>C19: The cache invariant. A process that follows the rules of the cache from \<open>binit\<close> on (a changed
  block is written or pinned before it is released, \<open>bread\<close> is called for a block it has not
  locked while a buffer is available, pins do not overflow the reference count) reaches only
  states in which no two buffers hold the same block, the circular list runs through every
  buffer exactly once, the reference count of a buffer is the lock plus the pins on its block,
  exactly the locked buffers have their sleep lock taken, every block not changed since it was
  last written has in the cache the bytes it has on the drive, and so does every buffer that may
  be recycled. In such a state \<open>bread\<close>, \<open>bwrite\<close> and \<open>brelse\<close> return when they are called by the
  rules.\<close>
theorem cache_reach_invariant:
  assumes "cache_reach p H P D s"
  shows "(\<exists>xs. bring xs (bufs s) \<and> distinct xs \<and> set xs = {0..<30}) \<and>
    (\<forall>b<30. \<forall>c<30. b_valid (bufs s b) \<and> b_valid (bufs s c) \<and> b_blockno (bufs s b) = b_blockno (bufs s c) \<longrightarrow> b = c) \<and>
    (\<forall>b<30. b_valid (bufs s b) \<longrightarrow> unat (b_refcnt (bufs s b)) = (if H b = None then 0 else 1) + P (b_blockno (bufs s b))) \<and>
    (\<forall>b<30. sl_locked (slocks s (SLbuf b)) \<longleftrightarrow> H b \<noteq> None) \<and>
    (\<forall>b<30. b_valid (bufs s b) \<and> b_blockno (bufs s b) \<notin> D \<longrightarrow> b_data (bufs s b) = dblock (drv s) (b_blockno (bufs s b))) \<and>
    (\<forall>b<30. b_valid (bufs s b) \<and> b_refcnt (bufs s b) = 0 \<longrightarrow> b_data (bufs s b) = dblock (drv s) (b_blockno (bufs s b))) \<and>
    (n < 2 ^ 31 \<and> n \<notin> ran H \<and> P n + 2 < 2 ^ 32 \<and> (P n \<noteq> 0 \<or> card (dom H) + card {m. P m \<noteq> 0} < 30) \<longrightarrow>
       (\<exists>b t. bread 1 n s = Ok b t)) \<and>
    (H b = Some n \<longrightarrow> (\<exists>t. bwrite b s = Ok () t) \<and> (n \<notin> D \<or> P n \<noteq> 0 \<longrightarrow> (\<exists>t. brelse b s = Ok () t)))"
proof -
  have k: "kcache p {} H P s" and w: "written D s" using cache_reach_kcache[OF assms] by auto
  note c = kcacheD(3)[OF k]
  obtain xs where "bring xs (bufs s)" "set xs = {0..<30}" using cache_okD(1)[OF c] by blast
  then have "\<exists>xs. bring xs (bufs s) \<and> distinct xs \<and> set xs = {0..<30}" by (auto simp: bring_def)
  moreover have "\<forall>b<30. b_valid (bufs s b) \<and> b_blockno (bufs s b) \<notin> D \<longrightarrow> b_data (bufs s b) = dblock (drv s) (b_blockno (bufs s b))"
    using w content_cached[OF c, OF _ _ refl] by (metis written_def)
  moreover have "\<exists>b t. bread 1 n s = Ok b t"
    if "n < 2 ^ 31" "n \<notin> ran H" "P n + 2 < 2 ^ 32" "P n \<noteq> 0 \<or> card (dom H) + card {m. P m \<noteq> 0} < 30"
    using bread_spec[OF k that] by (auto simp: wp_iff)
  moreover have "\<exists>t. bwrite b s = Ok () t" if "H b = Some n" using bwrite_spec[OF k that] by (auto simp: wp_iff)
  moreover have "\<exists>t. brelse b s = Ok () t" if "H b = Some n" "n \<notin> D \<or> P n \<noteq> 0"
    using brelse_spec[OF k that(1)] that(2) w by (auto simp: wp_iff written_def)
  ultimately show ?thesis
    using cache_okD(5)[OF c] cache_okD(6)[OF c] cache_okD(7)[OF c] cache_okD(12)[OF c] cache_okD(15)[OF c] by simp
qed

definition fresh_cache :: kst where
  "fresh_cache = (case binit ((idle_kst (\<lambda>_. 4))\<lparr>bufs := \<lambda>_. zero_buf\<rparr>) of
     Ok _ t \<Rightarrow> (idle_kst (\<lambda>_. 4))\<lparr>bufs := bufs t, slocks := slocks t\<rparr> | _ \<Rightarrow> idle_kst (\<lambda>_. 4))"

lemma fresh_cache_reach: "cache_reach 0 Map.empty (\<lambda>_. 0) {} fresh_cache"
proof -
  let ?s0 = "(idle_kst (\<lambda>_. 4))\<lparr>bufs := \<lambda>_. zero_buf\<rparr>"
  obtain t0 where t: "binit ?s0 = Ok () t0" using binit_spec[of ?s0] by (auto simp: wp_iff)
  have "running 0 {} fresh_cache" "disk_ready fresh_cache"
    unfolding fresh_cache_def t by (simp_all add: idle_kst_def running_def env_def zero_defs disk_ready_def ref_blk_conforms)
  then show ?thesis by (intro cache_reach.start[OF t]) (simp_all add: fresh_cache_def t)
qed

text \<open>Block 7 is read, changed, written and released.\<close>
theorem cache_reach_invariant_witness:
  "\<exists>b t u v. bread 1 7 fresh_cache = Ok b t \<and> unat (b_refcnt (bufs t b)) = 1 \<and> sl_locked (slocks t (SLbuf b)) \<and>
     bwrite b (upd_buf b (\<lambda>x. x\<lparr>b_data := replicate 1024 5\<rparr>) t) = Ok () u \<and> brelse b u = Ok () v \<and>
     \<not> sl_locked (slocks v (SLbuf b))"
proof -
  have 7: "(7 :: nat) < 2 ^ 31 \<and> 7 \<notin> ran Map.empty \<and> (0 :: nat) + 2 < 2 ^ 32 \<and>
      ((0 :: nat) \<noteq> 0 \<or> card (dom (Map.empty :: nat \<Rightarrow> nat option)) + card {m :: nat. (0 :: nat) \<noteq> 0} < 30)" by simp
  then obtain b t where t: "bread 1 7 fresh_cache = Ok b t"
    using cache_reach_invariant[OF fresh_cache_reach, of 7 0] by auto
  have r: "cache_reach 0 (Map.empty(b \<mapsto> 7)) (\<lambda>_. 0) {} t"
    by (rule cache_reach.read[OF fresh_cache_reach _ _ _ _ t]) simp_all
  note c = kcacheD(3)[OF conjunct1[OF cache_reach_kcache[OF r]]]
  have b: "b < 30" "b_valid (bufs t b)" using cache_okD(8,11)[OF c, of b 7] by simp_all
  let ?t = "upd_buf b (\<lambda>x. x\<lparr>b_data := replicate 1024 5\<rparr>) t"
  have r2: "cache_reach 0 (Map.empty(b \<mapsto> 7)) (\<lambda>_. 0) {7} ?t"
    using cache_reach.change[OF r, of b 7 "replicate 1024 5"] by simp
  obtain u where u: "bwrite b ?t = Ok () u" using cache_reach_invariant[OF r2, of 7 b] by auto
  have r3: "cache_reach 0 (Map.empty(b \<mapsto> 7)) (\<lambda>_. 0) {} u" using cache_reach.flush[OF r2 _ u, of 7] by simp
  obtain v where v: "brelse b u = Ok () v" using cache_reach_invariant[OF r3, of 7 b] by auto
  have r4: "cache_reach 0 Map.empty (\<lambda>_. 0) {} v" using cache_reach.unlock[OF r3 _ _ v, of 7] by simp
  show ?thesis
    using t u v b cache_reach_invariant[OF r, of 7 b] cache_reach_invariant[OF r4, of 7 b] by auto
qed

section \<open>Reading what was written\<close>

lemma write_then_read:
  assumes k: "kcache p {} Map.empty P s" and n: "n < 2 ^ 31" "P n + 2 < 2 ^ 32"
    and room: "P n \<noteq> 0 \<or> card {m. P m \<noteq> 0} < 30" and len: "length xs = 1024"
  shows "wp (bnd (bread 1 n s) (\<lambda>b s. bnd (bwrite b (upd_buf b (\<lambda>x. x\<lparr>b_data := xs\<rparr>) s)) (\<lambda>_ s.
      bnd (brelse b s) (\<lambda>_ s. bread 1 n s))))
    (\<lambda>b t. kc p s (Map.empty(b \<mapsto> n)) P ((content s)(n := xs)) (dput (drv s) n xs) (wtrace s @ [(n, xs)]) t)"
proof (rule kc_bread[OF kcI[OF k] n(1) _ n(2)])
  fix b t assume t: "kc p s (Map.empty(b \<mapsto> n)) P (content s) (drv s) (wtrace s) t"
  have u: "kc p s (Map.empty(b \<mapsto> n)) P ((content s)(n := xs)) (drv s) (wtrace s) (upd_buf b (\<lambda>x. x\<lparr>b_data := xs\<rparr>) t)"
    by (rule kc_set_data[OF t _ len]) simp_all
  show "wp (bnd (bwrite b (upd_buf b (\<lambda>x. x\<lparr>b_data := xs\<rparr>) t)) (\<lambda>_ s. bnd (brelse b s) (\<lambda>_ s. bread 1 n s)))
    (\<lambda>b t. kc p s (Map.empty(b \<mapsto> n)) P ((content s)(n := xs)) (dput (drv s) n xs) (wtrace s @ [(n, xs)]) t)"
  proof (rule kc_bwrite[OF u])
    show "[b \<mapsto> n] b = Some n" by simp
    fix v assume v: "kc p s [b \<mapsto> n] P ((content s)(n := xs)) (dput (drv s) n (((content s)(n := xs)) n))
        (wtrace s @ [(n, ((content s)(n := xs)) n)]) v"
    show "wp (bnd (brelse b v) (\<lambda>_. bread 1 n))
        (\<lambda>b t. kc p s [b \<mapsto> n] P ((content s)(n := xs)) (dput (drv s) n xs) (wtrace s @ [(n, xs)]) t)"
    proof (rule kc_brelse[OF v])
      fix w assume "kc p s ([b \<mapsto> n](b := None)) P ((content s)(n := xs)) (dput (drv s) n (((content s)(n := xs)) n))
        (wtrace s @ [(n, ((content s)(n := xs)) n)]) w"
      then have w: "kc p s Map.empty P ((content s)(n := xs)) (dput (drv s) n xs) (wtrace s @ [(n, xs)]) w" by simp
      show "wp (bread 1 n w) (\<lambda>b t. kc p s [b \<mapsto> n] P ((content s)(n := xs)) (dput (drv s) n xs) (wtrace s @ [(n, xs)]) t)"
        by (rule wp_mono[OF bread_spec[OF kc_kcache[OF w] n(1) _ n(2)]])
           (use room w in \<open>auto simp del: fun_upd_apply simp: kc_def elim: cache_step_trans\<close>)
    qed (use len in \<open>auto simp: dblock_dput\<close>)
  qed
qed (use room in auto)

text \<open>C20: Reading back what was written. Reading a block, replacing its bytes, writing it with \<open>bwrite\<close>,
  releasing it and reading it again returns a buffer with the new bytes, from the cache or from the
  disk; the new bytes are also on the drive, and every other block is as before.\<close>
theorem bread_returns_written:
  assumes "kcache p {} Map.empty P s" and "n < 2 ^ 31" and "P n + 2 < 2 ^ 32"
    and "P n \<noteq> 0 \<or> card {m. P m \<noteq> 0} < 30" and "length xs = 1024"
  shows "\<exists>b t. bnd (bread 1 n s) (\<lambda>b s. bnd (bwrite b (upd_buf b (\<lambda>x. x\<lparr>b_data := xs\<rparr>) s)) (\<lambda>_ s.
           bnd (brelse b s) (\<lambda>_ s. bread 1 n s))) = Ok b t \<and>
         b_data (bufs t b) = xs \<and> dblock (drv t) n = xs \<and>
         (\<forall>m. m \<noteq> n \<longrightarrow> content t m = content s m \<and> dblock (drv t) m = dblock (drv s) m)"
proof -
  obtain b t where e: "bnd (bread 1 n s) (\<lambda>b s. bnd (bwrite b (upd_buf b (\<lambda>x. x\<lparr>b_data := xs\<rparr>) s)) (\<lambda>_ s.
           bnd (brelse b s) (\<lambda>_ s. bread 1 n s))) = Ok b t"
    and k: "kc p s (Map.empty(b \<mapsto> n)) P ((content s)(n := xs)) (dput (drv s) n xs) (wtrace s @ [(n, xs)]) t"
    using write_then_read[OF assms] unfolding wp_iff by blast
  have "b_data (bufs t b) = xs" using kc_data[OF k, of b n] by simp
  moreover have "content t = (content s)(n := xs)" "drv t = dput (drv s) n xs" using k by (simp_all add: kc_def)
  ultimately show ?thesis using e assms(5) by (auto simp: dblock_dput)
qed

theorem bread_returns_written_witness:
  "\<exists>b t. bnd (bread 1 46 (idle_kst (\<lambda>_. 4))) (\<lambda>b s. bnd (bwrite b (upd_buf b (\<lambda>x. x\<lparr>b_data := replicate 1024 7\<rparr>) s)) (\<lambda>_ s.
     bnd (brelse b s) (\<lambda>_ s. bread 1 46 s))) = Ok b t \<and> b_data (bufs t b) = replicate 1024 7"
  using bread_returns_written[OF idle_cache, of 46 "replicate 1024 7" "\<lambda>_. 4"] by auto

end
