(* ===== verification/Transaction.thy ===== *)
theory Transaction
  imports Crash_Safety
begin

text \<open>
  Whole transactions of \<open>log.c\<close>: what \<open>begin_op\<close>, \<open>log_write\<close> and \<open>end_op\<close> do to the log in memory, and
  the atomicity of a system call that brackets its updates with \<open>begin_op\<close> and \<open>end_op\<close>. The last
  section runs the operations of three processes, switching between them, on one log.
\<close>

section \<open>Absorption\<close>

lemma absorb_at_bounds:
  "i \<le> absorb_at i n f b" "absorb_at i n f b \<le> i + n"
  "absorb_at i n f b < i + n \<Longrightarrow> f (absorb_at i n f b) = b"
  "i \<le> j \<Longrightarrow> j < absorb_at i n f b \<Longrightarrow> f j \<noteq> b"
proof -
  show "i \<le> absorb_at i n f b"
  proof (induction n arbitrary: i)
    case (Suc n)
    have "Suc i \<le> absorb_at (Suc i) n f b" by (rule Suc)
    then show ?case by simp
  qed simp
  show "absorb_at i n f b < i + n \<Longrightarrow> f (absorb_at i n f b) = b"
    by (induction n arbitrary: i) (auto split: if_splits)
  show "absorb_at i n f b \<le> i + n"
  proof (induction n arbitrary: i)
    case (Suc n)
    then show ?case using Suc[of "Suc i"] by simp
  qed simp
  show "i \<le> j \<Longrightarrow> j < absorb_at i n f b \<Longrightarrow> f j \<noteq> b"
  proof (induction n arbitrary: i)
    case (Suc n)
    then show ?case using Suc.IH[of "Suc i"] by (cases "j = i") (auto split: if_splits)
  qed simp
qed

lemma absorb_at_found: "b \<in> f ` {0..<n} \<longleftrightarrow> absorb_at 0 n f b < n"
proof
  assume "absorb_at 0 n f b < n"
  then show "b \<in> f ` {0..<n}" using absorb_at_bounds(3)[of 0 n f b] by (intro image_eqI[of _ _ "absorb_at 0 n f b"]) auto
next
  assume "b \<in> f ` {0..<n}"
  then obtain j where "j < n" "f j = b" by auto
  then show "absorb_at 0 n f b < n" using absorb_at_bounds(4)[of 0 j n f b] by force
qed

text \<open>The log in memory after \<open>log_write\<close> of block \<open>n\<close>.\<close>

definition log_add :: "nat \<Rightarrow> log \<Rightarrow> log" where
  "log_add n k = (if n \<in> set (homes k) then k
     else k\<lparr>l_lh := (l_lh k)\<lparr>lh_n := lh_n (l_lh k) + 1, lh_block := (lh_block (l_lh k))(log_n k := n)\<rparr>\<rparr>)"

lemma homes_log_add: "0 \<le> lh_n (l_lh k) \<Longrightarrow> homes (log_add n k) = (if n \<in> set (homes k) then homes k else homes k @ [n])"
  by (auto simp: log_add_def homes_def nat_add_distrib)

lemma log_add_wf:
  assumes "log_wf k" and "lh_n (l_lh k) < 29" and "n < 2 ^ 31" and "n \<notin> {l_start k .. l_start k + 29}"
  shows "log_wf (log_add n k)"
  using assms homes_log_add[of k n] by (auto simp: log_wf_def) (auto simp: log_add_def)

lemma pinned_log_add:
  assumes "0 \<le> lh_n (l_lh k)" and "n \<notin> set (homes k)"
  shows "pinned (log_add n k) 0 = (pinned k 0)(n := pinned k 0 n + 1)"
  using assms homes_log_add[OF assms(1), of n] by (auto simp: pinned_def fun_eq_iff)

section \<open>Adding a block to the log\<close>

lemma running_upd_lh [simp]: "running p L (upd_lh f s) = running p L s" "running p L (upd_log g s) = running p L s"
  by (simp_all add: upd_lh_def upd_log_def body_simps)

lemma body_upd_lh: "body (upd_lh f s) = (body s)\<lparr>klog := (klog s)\<lparr>l_lh := f (l_lh (klog s))\<rparr>\<rparr>"
  "body (upd_log g s) = (body s)\<lparr>klog := g (klog s)\<rparr>"
  by (simp_all add: upd_lh_def upd_log_def body_simps)

lemma bpin_running:
  assumes "running p L s" and "Lbcache \<notin> L"
  shows "\<exists>t. bpin b s = Ok () t \<and> running p L t \<and>
    body t = (body s)\<lparr>bufs := (bufs s)(b := (bufs s b)\<lparr>b_refcnt := b_refcnt (bufs s b) + 1\<rparr>)\<rparr>"
  using running_acquire[OF assms] assms(2)
    running_release[of p "insert Lbcache L" "upd_buf b (\<lambda>x. x\<lparr>b_refcnt := b_refcnt x + 1\<rparr>) (acq Lbcache s)" Lbcache]
  by (simp add: bpin_def body_simps lock_simps)

lemma log_write_running:
  assumes r: "running p {} s" and n: "0 \<le> lhn s" "lhn s < 30" "lhn s < int (l_size (klog s)) - 1"
    and o: "1 \<le> l_outstanding (klog s)" and blk: "n = b_blockno (bufs s b)"
  shows "wp (log_write b s) (\<lambda>_ t. running p {} t \<and> body t = (body s)\<lparr>klog := log_add n (klog s),
           bufs := if n \<in> set (homes (klog s)) then bufs s
                   else (bufs s)(b := (bufs s b)\<lparr>b_refcnt := b_refcnt (bufs s b) + 1\<rparr>)\<rparr>)"
proof -
  let ?i = "absorb_at 0 (nat (lhn s)) (lh_block (l_lh (klog s))) n"
  let ?u = "upd_lh (\<lambda>h. h\<lparr>lh_block := (lh_block h)(?i := n)\<rparr>) (acq Llog s)"
  have a: "acquire Llog s = Ok () (acq Llog s)" and ra: "running p {Llog} (acq Llog s)"
    using running_acquire[OF r, of Llog] by simp_all
  have h: "n \<in> set (homes (klog s)) \<longleftrightarrow> ?i < nat (lhn s)" using absorb_at_found[of n _ "nat (lhn s)"] by (simp add: homes_def)
  have ru: "running p {Llog} ?u" using ra by simp
  show ?thesis
  proof (cases "n \<in> set (homes (klog s))")
    case True
    then have "lh_block (l_lh (klog s)) ?i = n" using h absorb_at_bounds(3)[of 0 "nat (lhn s)"] by simp
    then have bu: "body ?u = body s" by (simp add: body_upd_lh acq_select lock_simps fun_upd_idem body_simps)
    have "int ?i \<noteq> lhn s" using True h n(1) by simp
    then have "log_write b s = release Llog ?u"
      using n o by (simp add: log_write_def a acq_select Let_def blk upd_lh_simps)
    then show ?thesis using running_release[OF ru, of Llog] True bu by (simp add: log_add_def lock_simps body_simps)
  next
    case False
    then have i: "?i = nat (lhn s)" using h absorb_at_bounds(2)[of 0 "nat (lhn s)" "lh_block (l_lh (klog s))" n] by simp
    obtain v where v: "bpin b ?u = Ok () v" "running p {Llog} v"
      and bv: "body v = (body ?u)\<lparr>bufs := (bufs ?u)(b := (bufs ?u b)\<lparr>b_refcnt := b_refcnt (bufs ?u b) + 1\<rparr>)\<rparr>"
      using bpin_running[OF ru] by auto
    have bs: "bufs ?u = bufs s" by (simp add: upd_lh_def upd_log_def acq_select)
    let ?w = "upd_lh (\<lambda>h. h\<lparr>lh_n := lh_n h + 1\<rparr>) v"
    have "log_write b s = release Llog ?w"
      using n o i v(1) by (simp add: log_write_def a acq_select Let_def blk upd_lh_simps)
    moreover have "running p {Llog} ?w" using v by simp
    moreover have "body ?w = (body s)\<lparr>klog := log_add n (klog s), bufs := (bufs s)(b := (bufs s b)\<lparr>b_refcnt := b_refcnt (bufs s b) + 1\<rparr>)\<rparr>"
      using body_eqD(27)[OF bv] False i bs by (simp add: body_upd_lh bv log_add_def body_simps lock_simps)
    ultimately show ?thesis using running_release[of p "{Llog}" ?w Llog] False by (simp add: lock_simps body_simps)
  qed
qed

lemma log_write_spec:
  assumes k: "kcache p {} H (pinned (klog s) 0) s" and wf: "log_wf (klog s)" and h: "H b = Some n"
    and n: "lhn s < 29" "lhn s < int (l_size (klog s)) - 1" and o: "1 \<le> l_outstanding (klog s)"
  shows "wp (log_write b s) (\<lambda>_ t. kcache p {} H (pinned (klog t) 0) t \<and> klog t = log_add n (klog s) \<and>
           content t = content s \<and> drv t = drv s \<and> wtrace t = wtrace s \<and> stirred p s t)"
proof -
  note c = kcacheD(3)[OF k]
  have "n = b_blockno (bufs s b)" using cache_okD(10)[OF c h] by simp
  note W = log_write_running[OF kcacheD(1)[OF k] log_wfD(2)[OF wf] _ n(2) o this]
  let ?s = "s\<lparr>klog := log_add n (klog s)\<rparr>"
  let ?bs = "if n \<in> set (homes (klog s)) then bufs s else (bufs s)(b := (bufs s b)\<lparr>b_refcnt := b_refcnt (bufs s b) + 1\<rparr>)"
  have ks: "kcache p {} H (pinned (klog s) 0) ?s" using k by (simp add: kcache_def disk_ready_def body_simps)
  have cs: "content ?s = content s" by (rule content_cong) simp_all
  have co: "cache_ok {} H (pinned (log_add n (klog s)) 0) (p_pid (procs ?s p)) ?bs (slocks ?s) (drv ?s)"
  proof (cases "n \<in> set (homes (klog s))")
    case True
    then show ?thesis using c by (simp add: log_add_def)
  next
    case False
    have "unat (b_refcnt (bufs s b) + 1) = 1 + (pinned (klog s) 0 n + 1)"
      using locked_refcnt(1)[OF c h] False by (simp add: unat_word_ariths pinned_def)
    from cache_ok_pins[OF c h _ this] False log_wfD(2)[OF wf] show ?thesis by (simp add: pinned_log_add)
  qed
  show ?thesis
  proof (rule wp_mono[OF W])
    show "lhn s < 30" using n by simp
    fix u t assume "running p {} t \<and> body t = (body s)\<lparr>klog := log_add n (klog s), bufs := ?bs\<rparr>"
    then have r: "running p {} t" and bt: "body t = (body ?s)\<lparr>bufs := ?bs, slocks := slocks ?s\<rparr>" by (simp_all add: body_simps)
    have "kcache p {} H (pinned (log_add n (klog s)) 0) t \<and> cache_step p ?s t \<and> drv t = drv ?s \<and> wtrace t = wtrace ?s"
      by (rule kcacheI[OF ks r bt co]) simp
    moreover have "content t = content ?s" by (rule content_bufs[OF bt]) simp
    moreover have "klog t = log_add n (klog s)" using body_eqD(27)[OF bt] by simp
    ultimately show "kcache p {} H (pinned (klog t) 0) t \<and> klog t = log_add n (klog s) \<and>
        content t = content s \<and> drv t = drv s \<and> wtrace t = wtrace s \<and> stirred p s t"
      by (simp add: cs cache_step_def stirred_def)
  qed
qed

section \<open>The updates of one transaction\<close>

text \<open>The use of the log that the comment on \<open>log_write\<close> describes: read, modify, log, release.\<close>

definition update_block :: "nat \<times> bytes \<Rightarrow> kst \<Rightarrow> unit k" where
  "update_block w s =
     bnd (bread 1 (fst w) s) (\<lambda>b s.
     let s = upd_buf b (\<lambda>x. x\<lparr>b_data := snd w\<rparr>) s in
     bnd (log_write b s) (\<lambda>_ s. brelse b s))"

definition transaction :: "(nat \<times> bytes) list \<Rightarrow> kst \<Rightarrow> unit k" where
  "transaction us s =
     bnd (begin_op s) (\<lambda>_ s.
     bnd (for_each us update_block s) (\<lambda>_ s. end_op s))"

text \<open>A transaction of one process is open, and its updates so far are those of \<open>c\<close>.\<close>

definition txn_open :: "int \<Rightarrow> nat \<Rightarrow> kst \<Rightarrow> nat list \<Rightarrow> (nat \<Rightarrow> bytes) \<Rightarrow> kst \<Rightarrow> bool" where
  "txn_open n_ops p s0 hs c s \<longleftrightarrow> kcache p {} Map.empty (pinned (klog s) 0) s \<and> log_wf (klog s) \<and> homes (klog s) = hs \<and>
     content s = c \<and> drv s = drv s0 \<and> wtrace s = wtrace s0 \<and> stirred p s0 s \<and>
     klog s = (klog s0)\<lparr>l_outstanding := n_ops, l_lh := l_lh (klog s)\<rparr>"

lemma txn_update:
  assumes t: "txn_open n_ops p s0 hs c s" and n: "n < 2 ^ 31" "n \<notin> {l_start (klog s0) .. l_start (klog s0) + 29}"
    and len: "length xs = 1024" and hs: "length hs < 29" "length hs < l_size (klog s0) - 1" and o: "1 \<le> n_ops"
  shows "wp (update_block (n, xs) s) (\<lambda>_ t. txn_open n_ops p s0 (if n \<in> set hs then hs else hs @ [n]) (c(n := xs)) t)"
proof -
  let ?P = "pinned (klog s) 0" and ?K = "log_add n (klog s)"
  have k: "kcache p {} Map.empty ?P s" and wf: "log_wf (klog s)" and hm: "homes (klog s) = hs" and c: "content s = c"
    and kl: "klog s = (klog s0)\<lparr>l_outstanding := n_ops, l_lh := l_lh (klog s)\<rparr>" using t by (simp_all add: txn_open_def)
  have k0: "kc p s Map.empty ?P c (drv s0) (wtrace s0) s" using kcI[OF k] t by (simp add: txn_open_def)
  have lh: "lhn s = int (length hs)" using hm log_wfD(2)[OF wf] by (auto simp: homes_def)
  have st: "l_start (klog s) = l_start (klog s0)" "l_size (klog s) = l_size (klog s0)" "l_outstanding (klog s) = n_ops"
    by (subst kl; simp)+
  show ?thesis
    unfolding update_block_def Let_def fst_conv snd_conv
  proof (rule kc_bread[OF k0 n(1)])
    fix b u assume u: "kc p s [b \<mapsto> n] ?P c (drv s0) (wtrace s0) u"
    let ?v = "upd_buf b (\<lambda>x. x\<lparr>b_data := xs\<rparr>) u"
    have v: "kc p s [b \<mapsto> n] ?P (c(n := xs)) (drv s0) (wtrace s0) ?v" by (rule kc_set_data[OF u _ len]) simp_all
    note kv = kc_klog(1)[OF v]
    show "wp (bnd (log_write b ?v) (\<lambda>_ s. brelse b s)) (\<lambda>_ t. txn_open n_ops p s0 (if n \<in> set hs then hs else hs @ [n]) (c(n := xs)) t)"
    proof (rule wp_bndI[OF log_write_spec[where H = "[b \<mapsto> n]" and n = n]])
      fix a w assume w: "kcache p {} [b \<mapsto> n] (pinned (klog w) 0) w \<and> klog w = log_add n (klog ?v) \<and>
        content w = content ?v \<and> drv w = drv ?v \<and> wtrace w = wtrace ?v \<and> stirred p ?v w"
      have wfw: "log_wf (klog w)" "homes (klog w) = (if n \<in> set hs then hs else hs @ [n])"
        using w kv log_add_wf[OF wf _ n(1)] homes_log_add[OF log_wfD(2)[OF wf], of n] n(2) lh hs st hm by simp_all
      have "n \<in> set (homes (klog w))" using wfw(2) by simp
      then have "pinned (klog w) 0 n \<noteq> 0" by (simp add: pinned_def)
      note br = brelse_spec[of p "[b \<mapsto> n]" "pinned (klog w) 0" w b n]
      have "klog w = (klog s)\<lparr>l_lh := l_lh (klog w)\<rparr>" using w kv by (simp add: log_add_def)
      then have kw: "klog w = (klog s0)\<lparr>l_outstanding := n_ops, l_lh := l_lh (klog w)\<rparr>" by (subst (asm) kl) simp
      have sw: "stirred p s0 w" using w v t by (auto simp: kc_def cache_step_def txn_open_def elim: stirred_trans)
      show "wp (brelse b w) (\<lambda>_ t. txn_open n_ops p s0 (if n \<in> set hs then hs else hs @ [n]) (c(n := xs)) t)"
      proof (rule wp_mono[OF br])
        fix a z assume z: "kcache p {} ([b \<mapsto> n](b := None)) (pinned (klog w) 0) z \<and> cache_step p w z \<and>
          content z = content w \<and> drv z = drv w \<and> wtrace z = wtrace w"
        then have kz: "klog z = klog w" and sz: "stirred p w z" using body_eqD(27)[of z] by (auto simp: cache_step_def)
        show "txn_open n_ops p s0 (if n \<in> set hs then hs else hs @ [n]) (c(n := xs)) z"
          unfolding txn_open_def kz
          using z w v wfw kw stirred_trans[OF sw sz] by (simp add: kc_def)
      qed (use w \<open>pinned (klog w) 0 n \<noteq> 0\<close> in auto)
    qed (use v wf kv lh hs st o in \<open>auto simp: kc_def\<close>)
  qed (use pinned_simps(1)[OF wf, of 0] pinned_simps(2)[OF wf, of 0 n] in auto)
qed

lemma txn_updates:
  assumes "txn_open n_ops p s0 hs c s" and "\<forall>(n, xs) \<in> set us. n < 2 ^ 31 \<and> n \<notin> {l_start (klog s0) .. l_start (klog s0) + 29} \<and> length xs = 1024"
    and "card (set hs \<union> fst ` set us) \<le> 28" and "l_size (klog s0) = 30" and "1 \<le> n_ops"
  shows "wp (for_each us update_block s) (\<lambda>_ t. \<exists>hs'. set hs' = set hs \<union> fst ` set us \<and> txn_open n_ops p s0 hs' (put_all c us) t)"
  using assms
proof (induction us arbitrary: s hs c)
  case Nil
  then show ?case by (auto simp: writes_single)
next
  case (Cons u us)
  obtain n xs where u: "u = (n, xs)" by (cases u)
  let ?hs = "if n \<in> set hs then hs else hs @ [n]"
  have "distinct hs" using Cons.prems(1) by (auto simp: txn_open_def log_wf_def)
  then have "length hs = card (set hs)" by (simp add: distinct_card)
  also have "\<dots> \<le> card (set hs \<union> fst ` set (u # us))" by (rule card_mono) auto
  finally have len: "length hs \<le> 28" using Cons.prems(3) by simp
  have pa: "put_all c ((n, xs) # us) = put_all (c(n := xs)) us" by (simp add: put_all_def)
  have hs: "set ?hs \<union> fst ` set us = set hs \<union> fst ` set (u # us)" by (auto simp: u)
  show ?case
    unfolding for_each.simps u pa
  proof (rule wp_bndI[OF txn_update[OF Cons.prems(1)]])
    fix a t assume "txn_open n_ops p s0 ?hs (c(n := xs)) t"
    from Cons.IH[OF this] show "wp (for_each us update_block t) (\<lambda>_ t. \<exists>hs'. set hs' = set hs \<union> fst ` set ((n, xs) # us) \<and>
        txn_open n_ops p s0 hs' (put_all (c(n := xs)) us) t)"
      using Cons.prems(2-5) unfolding hs u by (auto simp del: fun_upd_apply)
  qed (use Cons.prems u len in auto)
qed

section \<open>Opening and closing a transaction\<close>

definition log_idle :: "log \<Rightarrow> bool" where
  "log_idle k \<longleftrightarrow> l_dev k = 1 \<and> l_size k = 30 \<and> l_start k + 29 < 2 ^ 31 \<and> l_outstanding k = 0 \<and> \<not> l_committing k \<and>
     lh_n (l_lh k) = 0"

lemma begin_op_admits:
  assumes t: "txn_open n p s0 hs c s" and i: "\<not> l_committing (klog s0)" and n: "int (length hs) + (n + 1) * 10 \<le> 30"
  shows "wp (begin_op s) (\<lambda>_ t. txn_open (n + 1) p s0 hs c t)"
proof -
  have k: "kcache p {} Map.empty (pinned (klog s) 0) s" and wf: "log_wf (klog s)" and hm: "homes (klog s) = hs"
    and kl: "klog s = (klog s0)\<lparr>l_outstanding := n, l_lh := l_lh (klog s)\<rparr>" using t by (simp_all add: txn_open_def)
  let ?K = "(klog s)\<lparr>l_outstanding := n + 1\<rparr>"
  let ?u = "upd_log (\<lambda>l. l\<lparr>l_outstanding := l_outstanding l + 1\<rparr>) (acq Llog s)"
  let ?t = "rel Llog ?u" and ?s = "s\<lparr>klog := ?K\<rparr>"
  have o: "l_outstanding (klog s) = n" "\<not> l_committing (klog s)" using i by (subst kl; simp)+
  have lh: "lhn s = int (length hs)" using hm log_wfD(2)[OF wf] by (auto simp: homes_def)
  note a = running_acquire[OF kcacheD(1)[OF k], of Llog]
  have r: "release Llog ?u = Ok () ?t" "running p {} ?t" using running_release[of p "{Llog}" ?u Llog] a by simp_all
  have e: "begin_op s = Ok () ?t"
    using o n lh a r(1) by (simp add: begin_op_def begin_op_loop.simps[of "acq Llog s"] acq_select)
  have bt: "body ?t = (body ?s)\<lparr>bufs := bufs ?s, slocks := slocks ?s\<rparr>"
    using o by (simp add: body_upd_lh lock_simps body_simps)
  have P: "pinned ?K 0 = pinned (klog s) 0" "homes ?K = homes (klog s)" "log_wf ?K = log_wf (klog s)"
    by (simp_all add: pinned_def homes_def log_wf_def fun_eq_iff)
  have ks: "kcache p {} Map.empty (pinned (klog s) 0) ?s" using k by (simp add: kcache_def disk_ready_def body_simps)
  have kc: "kcache p {} Map.empty (pinned (klog s) 0) ?t \<and> cache_step p ?s ?t \<and> drv ?t = drv ?s \<and> wtrace ?t = wtrace ?s"
    by (rule kcacheI[OF ks r(2) bt]) (use kcacheD(3)[OF ks] in simp_all)
  have ct: "content ?t = content s" using body_eqD(22,24)[OF bt] by (intro content_cong) simp_all
  have kt: "klog ?t = ?K" using body_eqD(27)[OF bt] by simp
  have K: "?K = (klog s0)\<lparr>l_outstanding := n + 1, l_lh := l_lh ?K\<rparr>" by (subst kl) simp
  have "stirred p s0 ?t" using body_eqD(12)[OF bt] t by (simp add: stirred_def txn_open_def)
  then show ?thesis unfolding e txn_open_def wp.simps kt P using kc ct t K by (simp add: txn_open_def)
qed

lemma txn_open_idle: "kcache p {} Map.empty (\<lambda>_. 0) s \<Longrightarrow> log_idle (klog s) \<Longrightarrow> txn_open 0 p s [] (content s) s"
  by (cases "klog s") (auto simp: txn_open_def log_idle_def log_wf_def homes_def pinned_def[abs_def] kcache_def)

lemma begin_op_idle:
  assumes "kcache p {} Map.empty (\<lambda>_. 0) s" and "log_idle (klog s)"
  shows "wp (begin_op s) (\<lambda>_ t. txn_open 1 p s [] (content s) t)"
  using begin_op_admits[OF txn_open_idle[OF assms]] assms(2) by (simp add: log_idle_def)

lemma running_wakeup:
  assumes "running p L s" and "\<And>q. Lproc q \<notin> L"
  shows "wp (wakeup c s) (\<lambda>_ t. running p L t \<and> stirred p s t \<and> body t = (body s)\<lparr>procs := procs t\<rparr>)"
proof (rule wp_mono[OF wakeup_env[of "Some p" L s c]], goal_cases)
  case (3 a t)
  then have ps: "procs t = woken ({0..<64} - {p}) (Some c) (procs s)" and fu: "future t = future s"
    using body_eqD(12,36)[of t] by auto
  then have "stirred p s t" by (intro stirred_woken[of p "{0..<64} - {p}"]) auto
  then show ?case using 3 ps fu assms(1) by (simp add: running_def stirred_def)
qed (use assms in \<open>auto simp: running_def\<close>)

text \<open>\<open>end_op\<close> of the last open operation: commit, then let the waiting operations in.\<close>

lemma end_op_tail:
  assumes k: "kcache p {} Map.empty (\<lambda>_. 0) u"
  shows "wp (bnd (acquire Llog u) (\<lambda>_ s. let s = upd_log (\<lambda>l. l\<lparr>l_committing := False\<rparr>) s in
      bnd (wakeup Clog s) (\<lambda>_ s. release Llog s)))
    (\<lambda>_ t. kcache p {} Map.empty (\<lambda>_. 0) t \<and> content t = content u \<and> drv t = drv u \<and> wtrace t = wtrace u \<and>
       stirred p u t \<and> klog t = (klog u)\<lparr>l_committing := False\<rparr>)"
proof -
  let ?K = "(klog u)\<lparr>l_committing := False\<rparr>"
  let ?a = "upd_log (\<lambda>l. l\<lparr>l_committing := False\<rparr>) (acq Llog u)" and ?u = "u\<lparr>klog := ?K\<rparr>"
  note a = running_acquire[OF kcacheD(1)[OF k], of Llog]
  have ku: "kcache p {} Map.empty (\<lambda>_. 0) ?u" using k by (simp add: kcache_def disk_ready_def body_simps)
  have ba: "body ?a = (body u)\<lparr>klog := ?K\<rparr>" by (simp add: body_upd_lh acq_select lock_simps body_simps)
  have ra: "running p {Llog} ?a" using a by simp
  have "wp (bnd (wakeup Clog ?a) (\<lambda>_ s. release Llog s)) (\<lambda>_ t. kcache p {} Map.empty (\<lambda>_. 0) t \<and> content t = content u \<and>
       drv t = drv u \<and> wtrace t = wtrace u \<and> stirred p u t \<and> klog t = ?K)"
  proof (rule wp_bndI[OF running_wakeup[OF ra]])
    fix x v assume v: "running p {Llog} v \<and> stirred p ?a v \<and> body v = (body ?a)\<lparr>procs := procs v\<rparr>"
    let ?t = "rel Llog v"
    have r: "release Llog v = Ok () ?t" "running p {} ?t" using running_release[of p "{Llog}" v Llog] v by simp_all
    have bt: "body ?t = (body ?u)\<lparr>bufs := bufs ?u, slocks := slocks ?u, procs := procs ?t\<rparr>"
      using v by (simp add: ba lock_simps body_simps rel_select)
    have st: "stirred p ?u ?t" using v by (simp add: stirred_def rel_select upd_log_def acq_select)
    have "kcache p {} Map.empty (\<lambda>_. 0) ?t \<and> cache_step p ?u ?t \<and> drv ?t = drv ?u \<and> wtrace ?t = wtrace ?u"
      by (rule kcacheI_stirred[OF ku r(2) st bt]) (use kcacheD(3)[OF ku] in simp_all)
    moreover have "content ?t = content u" using body_eqD(22,24)[OF bt] by (intro content_cong) simp_all
    moreover have "klog ?t = ?K" using body_eqD(27)[OF bt] by simp
    ultimately show "wp (release Llog v) (\<lambda>_ t. kcache p {} Map.empty (\<lambda>_. 0) t \<and> content t = content u \<and>
       drv t = drv u \<and> wtrace t = wtrace u \<and> stirred p u t \<and> klog t = ?K)"
      using st r by (simp add: stirred_def)
  qed simp
  then show ?thesis using a(1) by simp
qed

lemma commit_writes_cong: "l_lh K' = l_lh K \<Longrightarrow> l_start K' = l_start K \<Longrightarrow> commit_writes K' c = commit_writes K c"
  by (simp add: commit_writes_def log_writes_def home_writes_def clear_lh_def Let_def)

lemma end_op_commits:
  assumes t: "txn_open 1 p s0 hs c s" and hs: "hs \<noteq> []" and i: "\<not> l_committing (klog s0)"
    and ws: "ws = commit_writes (klog s) c"
  shows "wp (end_op s) (\<lambda>_ t. kcache p {} Map.empty (\<lambda>_. 0) t \<and> content t = put_all c ws \<and>
           drv t = apply_writes (drv s0) ws \<and> wtrace t = wtrace s0 @ ws \<and>
           klog t = (klog s0)\<lparr>l_outstanding := 0, l_lh := (l_lh (klog s))\<lparr>lh_n := 0\<rparr>\<rparr>)" (is "wp _ ?Q")
proof -
  have k: "kcache p {} Map.empty (pinned (klog s) 0) s" and wf: "log_wf (klog s)" and hm: "homes (klog s) = hs"
    and c: "content s = c" "drv s = drv s0" "wtrace s = wtrace s0"
    and kl: "klog s = (klog s0)\<lparr>l_outstanding := 1, l_lh := l_lh (klog s)\<rparr>" using t by (simp_all add: txn_open_def)
  have o: "l_outstanding (klog s) = 1" "\<not> l_committing (klog s)" using i by (subst kl; simp)+
  let ?K = "(klog s)\<lparr>l_outstanding := 0, l_committing := True\<rparr>"
  let ?a = "upd_log (\<lambda>l. l\<lparr>l_outstanding := l_outstanding l - 1\<rparr>) (acq Llog s)"
  let ?b = "upd_log (\<lambda>l. l\<lparr>l_committing := True\<rparr>) ?a" and ?s = "s\<lparr>klog := ?K\<rparr>"
  let ?v = "rel Llog ?b"
  note a = running_acquire[OF kcacheD(1)[OF k], of Llog]
  have r: "release Llog ?b = Ok () ?v" "running p {} ?v" using running_release[of p "{Llog}" ?b Llog] a by simp_all
  have bv: "body ?v = (body ?s)\<lparr>bufs := bufs ?s, slocks := slocks ?s\<rparr>"
    using o by (simp add: upd_log_def lock_simps body_simps acq_select)
  have P: "pinned ?K 0 = pinned (klog s) 0" by (simp add: pinned_def homes_def fun_eq_iff)
  have ks: "kcache p {} Map.empty (pinned ?K 0) ?s" using k by (simp add: kcache_def disk_ready_def body_simps P)
  have v: "kcache p {} Map.empty (pinned ?K 0) ?v" "drv ?v = drv s0" "wtrace ?v = wtrace s0"
    using kcacheI[OF ks r(2) bv] kcacheD(3)[OF ks] c by simp_all
  have cv: "content ?v = c" using body_eqD(22,24)[OF bv] c by (subst content_cong[of ?v s]) simp_all
  have kv: "klog ?v = ?K" using body_eqD(27)[OF bv] by simp
  have wfK: "log_wf (klog ?v)" using wf by (simp add: kv log_wf_def homes_def)
  have pos: "0 < lhn ?v" using hs hm log_wfD(2)[OF wf] by (cases "lhn s = 0") (auto simp: kv homes_def)
  have w: "ws = commit_writes (klog ?v) (content ?v)" unfolding ws cv by (rule commit_writes_cong[symmetric]) (simp_all add: kv)
  have "end_op s = bnd (commit ?v) (\<lambda>_ s. bnd (acquire Llog s) (\<lambda>_ s. let s = upd_log (\<lambda>l. l\<lparr>l_committing := False\<rparr>) s in
      bnd (wakeup Clog s) (\<lambda>_ s. release Llog s)))"
    using a(1) r(1) o by (simp add: end_op_def upd_log_def acq_select)
  moreover have "wp (bnd (commit ?v) (\<lambda>_ s. bnd (acquire Llog s) (\<lambda>_ s. let s = upd_log (\<lambda>l. l\<lparr>l_committing := False\<rparr>) s in
      bnd (wakeup Clog s) (\<lambda>_ s. release Llog s)))) ?Q"
  proof (rule wp_bndI[OF commit_spec[OF _ wfK pos w]])
    show "kcache p {} Map.empty (pinned (klog ?v) 0) ?v" using v(1) by (simp add: kv)
    fix x u assume u: "kc p (?v\<lparr>klog := clear_lh (klog ?v)\<rparr>) Map.empty (\<lambda>_. 0) (put_all (content ?v) ws) (apply_writes (drv ?v) ws) (wtrace ?v @ ws) u"
    have ku: "klog u = clear_lh ?K" using kc_klog(1)[OF u] by (simp add: kv)
    have "(klog u)\<lparr>l_committing := False\<rparr> = (klog s0)\<lparr>l_outstanding := 0, l_lh := (l_lh (klog s))\<lparr>lh_n := 0\<rparr>\<rparr>"
      unfolding ku clear_lh_def using i by (subst kl, cases "klog s0") simp
    then show "wp (bnd (acquire Llog u) (\<lambda>_ s. let s = upd_log (\<lambda>l. l\<lparr>l_committing := False\<rparr>) s in
        bnd (wakeup Clog s) (\<lambda>_ s. release Llog s))) ?Q"
      using u by (intro wp_mono[OF end_op_tail[OF kc_kcache[OF u]]]) (simp add: kc_def cv v)
  qed
  ultimately show ?thesis by simp
qed

lemma commit_writes_effect:
  assumes wf: "log_wf K" and len: "\<And>m. length (c m) = 1024"
  shows "m \<notin> {l_start K .. l_start K + 29} \<Longrightarrow> put_all c (commit_writes K c) m = c m"
    and "rd32 (put_all c (commit_writes K c) (l_start K)) 0 = 0"
proof -
  let ?st = "l_start K" and ?n = "log_n K" and ?h = "enc_head (l_lh K) (c (l_start K))"
  let ?e = "enc_head (l_lh (clear_lh K)) ?h"
  have eq: "put_all c (commit_writes K c) =
      (put_all (put_all c (log_writes K c ?n)) ((?st, ?h) # home_writes K c ?n))(?st := ?e)"
    using writes_append(2)[of _ "(?st, ?h) # home_writes K c ?n" "[(?st, ?e)]"]
    by (simp add: commit_writes_def Let_def writes_append(2)[of _ "log_writes K c ?n"] writes_single)
  show "put_all c (commit_writes K c) m = c m" if m: "m \<notin> {?st .. ?st + 29}"
  proof -
    have "put_all c (commit_writes K c) m = put_all (put_all c (log_writes K c ?n)) (home_writes K c ?n) m"
      using m outside_log(2)[OF wf m] by (auto simp: eq)
    also have "\<dots> = c m" by (rule home_writes_all[OF wf]) (use outside_log(1)[OF wf m order.refl] in auto)
    finally show ?thesis .
  qed
  have "length ?h = 1024" using enc_head_reads(1)[of "l_lh K" "c ?st"] len log_wfD[OF wf] by simp
  then show "rd32 (put_all c (commit_writes K c) ?st) 0 = 0"
    using enc_head_reads(2)[of "l_lh (clear_lh K)" ?h] by (simp add: eq clear_lh_def)
qed

lemma put_all_length: "(\<And>m. length (c m) = 1024) \<Longrightarrow> \<forall>(n, xs) \<in> set us. length xs = 1024 \<Longrightarrow> length (put_all c us m) = 1024"
  by (induction us arbitrary: c) (auto simp: put_all_def)

section \<open>Atomicity\<close>

lemma transaction_run:
  assumes k: "kcache p {} Map.empty (\<lambda>_. 0) s" and i: "log_idle (klog s)" and "us \<noteq> []"
    and u: "\<forall>(n, xs) \<in> set us. n < 2 ^ 31 \<and> n \<notin> {l_start (klog s) .. l_start (klog s) + 29} \<and> length xs = 1024"
    and card: "card (fst ` set us) \<le> 10" and c: "c = put_all (content s) us"
  shows "wp (transaction us s) (\<lambda>_ t. \<exists>K. kcache p {} Map.empty (\<lambda>_. 0) t \<and> log_wf K \<and> set (homes K) = fst ` set us \<and>
    lh_n (l_lh K) = int (card (fst ` set us)) \<and> klog t = (klog s)\<lparr>l_lh := (l_lh K)\<lparr>lh_n := 0\<rparr>\<rparr> \<and> l_start K = l_start (klog s) \<and>
    content t = put_all c (commit_writes K c) \<and> drv t = apply_writes (drv s) (commit_writes K c) \<and>
    wtrace t = wtrace s @ commit_writes K c)" (is "wp _ (\<lambda>_ t. \<exists>K. ?Q t K)")
  unfolding transaction_def
proof (rule wp_bndI[OF begin_op_idle[OF k i]])
  have sz: "l_size (klog s) = 30" "\<not> l_committing (klog s)" using i by (simp_all add: log_idle_def)
  fix a t assume t: "txn_open 1 p s [] (content s) t"
  show "wp (bnd (for_each us update_block t) (\<lambda>_ s. end_op s)) (\<lambda>_ t. \<exists>K. ?Q t K)"
  proof (rule wp_bndI[OF txn_updates[OF t u _ sz(1)]])
    show "card (set [] \<union> fst ` set us) \<le> 28" using card by simp
    fix b v assume "\<exists>hs'. set hs' = set [] \<union> fst ` set us \<and> txn_open 1 p s hs' (put_all (content s) us) v"
    then obtain hs where hs: "set hs = fst ` set us" and v: "txn_open 1 p s hs c v" by (auto simp: c)
    have ne: "hs \<noteq> []" using hs assms(3) by (cases us) auto
    have wf: "log_wf (klog v)" and hm: "homes (klog v) = hs"
      and kv: "klog v = (klog s)\<lparr>l_outstanding := 1, l_lh := l_lh (klog v)\<rparr>" using v by (simp_all add: txn_open_def)
    then have "lh_n (l_lh (klog v)) = int (card (set hs))"
      using log_wfD(2)[OF wf] distinct_card[of hs] by (auto simp: log_wf_def homes_def)
    moreover have "l_start (klog v) = l_start (klog s)" by (subst kv) simp
    moreover have "(klog s)\<lparr>l_outstanding := 0, l_lh := x\<rparr> = (klog s)\<lparr>l_lh := x\<rparr>" for x
      using i by (cases "klog s") (simp add: log_idle_def)
    ultimately show "wp (end_op v) (\<lambda>_ t. \<exists>K. ?Q t K)"
      using wf hm hs by (intro wp_mono[OF end_op_commits[OF v ne sz(2) refl]] exI[of _ "klog v"]) simp
  qed simp
qed

text \<open>C1: A transaction is atomic. On a log that is idle in memory and empty on the drive, with nothing else
  running, a process that brackets updates of at most \<open>MAXOPBLOCKS\<close> = 10 different blocks outside the
  30 blocks of the log (read, modify, \<open>log_write\<close>, release; a block may be updated more than once)
  with \<open>begin_op\<close> and \<open>end_op\<close> gets through without a panic; then all updates are on the drive, every
  other block outside the log is unchanged and the log is idle again. If the machine stops after any number \<open>k\<close> of
  the block writes of this run and reboots, \<open>initlog\<close> leaves either none of the updates or all.\<close>
theorem transaction_atomic:
  assumes "kcache p {} Map.empty (\<lambda>_. 0) s" and "log_idle (klog s)" and "us \<noteq> []"
    and "\<forall>(n, xs) \<in> set us. n < 2 ^ 31 \<and> n \<notin> {l_start (klog s) .. l_start (klog s) + 29} \<and> length xs = 1024"
    and "card (fst ` set us) \<le> 10" and "rd32 (dblock (drv s) (l_start (klog s))) 0 = 0"
  shows "\<exists>t ws. transaction us s = Ok () t \<and> kcache p {} Map.empty (\<lambda>_. 0) t \<and> log_idle (klog t) \<and>
    l_start (klog t) = l_start (klog s) \<and> rd32 (dblock (drv t) (l_start (klog t))) 0 = 0 \<and>
    wtrace t = wtrace s @ ws \<and> drv t = apply_writes (drv s) ws \<and>
    (\<forall>m. m \<notin> {l_start (klog s) .. l_start (klog s) + 29} \<longrightarrow> dblock (drv t) m = put_all (dblock (drv s)) us m) \<and>
    (\<forall>k q r sbk. kcache q {} Map.empty (\<lambda>_. 0) r \<longrightarrow> drv r = apply_writes (drv s) (take k ws) \<longrightarrow>
       sb_logstart sbk = l_start (klog s) \<longrightarrow>
       (\<exists>r'. initlog 1 sbk r = Ok () r' \<and> (\<forall>m. m \<notin> {l_start (klog s) .. l_start (klog s) + 29} \<longrightarrow>
          dblock (drv r') m = (if k \<le> card (fst ` set us) then dblock (drv s) m else put_all (dblock (drv s)) us m))))"
proof -
  have cs: "content s = dblock (drv s)" by (rule content_clean[OF assms(1)])
  let ?c = "put_all (dblock (drv s)) us"
  have len: "length (?c m) = 1024" for m using assms(4) by (intro put_all_length) auto
  obtain t K where t: "transaction us s = Ok () t" "kcache p {} Map.empty (\<lambda>_. 0) t" "wtrace t = wtrace s @ commit_writes K ?c"
    "drv t = apply_writes (drv s) (commit_writes K ?c)" and ct: "content t = put_all ?c (commit_writes K ?c)"
    and wf: "log_wf K" and hm: "set (homes K) = fst ` set us" and n: "lh_n (l_lh K) = int (card (fst ` set us))"
    and kt: "klog t = (klog s)\<lparr>l_lh := (l_lh K)\<lparr>lh_n := 0\<rparr>\<rparr>" and st: "l_start K = l_start (klog s)"
    by (rule wp_unitE[OF transaction_run[OF assms(1-5) refl], unfolded cs]) (elim exE conjE, rule that; assumption)
  have clean: "\<And>m. m \<notin> set (homes K) \<Longrightarrow> ?c m = dblock (drv s) m" unfolding hm by (rule put_all_other)
  note R = crash_recovery[where c = ?c, OF wf len clean, unfolded st n, OF _ assms(6)]
  have "log_idle (klog t)" using assms(2) by (simp add: kt log_idle_def)
  moreover have "dblock (drv t) = put_all ?c (commit_writes K ?c)" using content_clean[OF t(2)] ct by simp
  moreover have "\<exists>r'. initlog 1 sbk r = Ok () r' \<and> (\<forall>m. m \<notin> {l_start (klog s) .. l_start (klog s) + 29} \<longrightarrow>
      dblock (drv r') m = (if k \<le> card (fst ` set us) then dblock (drv s) m else ?c m))"
    if "kcache q {} Map.empty (\<lambda>_. 0) r" "drv r = apply_writes (drv s) (take k (commit_writes K ?c))" "sb_logstart sbk = l_start (klog s)"
    for k q r sbk using R[OF _ that] by auto
  ultimately show ?thesis
    using t commit_writes_effect[where c = ?c, OF wf len, unfolded st]
    by (intro exI[of _ t] exI[of _ "commit_writes K ?c"]) (simp add: kt)
qed

definition log_kst :: kst where
  "log_kst = (idle_kst (\<lambda>_. 0))\<lparr>klog := \<lparr>l_start = 2, l_size = 30, l_outstanding = 0, l_committing = False, l_dev = 1,
     l_lh = \<lparr>lh_n = 0, lh_block = (\<lambda>_. 0)\<rparr>\<rparr>\<rparr>"

lemma log_kst_ok:
  "kcache 0 {} Map.empty (\<lambda>_. 0) log_kst" "log_idle (klog log_kst)" "drv log_kst = (\<lambda>_. 0)" "l_start (klog log_kst) = 2"
  using idle_cache[of "\<lambda>_. 0"] by (simp_all add: log_kst_def kcache_def disk_ready_def body_simps log_idle_def)
    (simp_all add: idle_kst_def)

lemma zero_dblock: "dblock (\<lambda>_. 0) m = replicate 1024 0" "rd32 (dblock (\<lambda>_. 0) m) 0 = 0"
proof -
  show z: "dblock (\<lambda>_. 0) m = replicate 1024 0" by (simp add: dblock_def map_replicate_const)
  show "rd32 (dblock (\<lambda>_. 0) m) 0 = 0" unfolding z by (simp add: rd32_def slice_def numeral_eq_Suc)
qed

theorem transaction_atomic_witness:
  "\<exists>t ws. transaction [(45, replicate 1024 7), (46, replicate 1024 8), (45, replicate 1024 9)] log_kst = Ok () t \<and>
     dblock (drv t) 45 = replicate 1024 9 \<and> dblock (drv t) 46 = replicate 1024 8 \<and>
     (\<forall>k. \<exists>r. initlog 1 ((sb zero_kst)\<lparr>sb_logstart := 2\<rparr>) (idle_kst (apply_writes (\<lambda>_. 0) (take k ws))) = Ok () r \<and>
        dblock (drv r) 45 = (if k \<le> 2 then replicate 1024 0 else replicate 1024 9) \<and>
        dblock (drv r) 46 = (if k \<le> 2 then replicate 1024 0 else replicate 1024 8))"
proof -
  let ?us = "[(45 :: nat, replicate 1024 7), (46, replicate 1024 8), (45, replicate 1024 9)] :: (nat \<times> bytes) list"
  have pa: "put_all c ?us 45 = replicate 1024 9" "put_all c ?us 46 = replicate 1024 8" for c by (simp_all add: put_all_def)
  have cd: "card (fst ` set ?us) = 2" by (simp add: card_insert_if)
  have u: "\<forall>(n, xs) \<in> set ?us. n < 2 ^ 31 \<and> n \<notin> {l_start (klog log_kst) .. l_start (klog log_kst) + 29} \<and> length xs = 1024"
    by (simp add: log_kst_ok)
  have hdr: "rd32 (dblock (drv log_kst) (l_start (klog log_kst))) 0 = 0" by (simp only: log_kst_ok zero_dblock(2))
  obtain t ws where t: "transaction ?us log_kst = Ok () t" and d: "\<And>m. m \<notin> {2..2 + 29} \<Longrightarrow> dblock (drv t) m = put_all (dblock (\<lambda>_. 0)) ?us m"
    and w: "\<forall>k q r sbk. kcache q {} Map.empty (\<lambda>_. 0) r \<longrightarrow> drv r = apply_writes (\<lambda>_. 0) (take k ws) \<longrightarrow> sb_logstart sbk = 2 \<longrightarrow>
       (\<exists>r'. initlog 1 sbk r = Ok () r' \<and> (\<forall>m. m \<notin> {2..2 + 29} \<longrightarrow>
          dblock (drv r') m = (if k \<le> 2 then dblock (\<lambda>_. 0) m else put_all (dblock (\<lambda>_. 0)) ?us m)))"
    using transaction_atomic[OF log_kst_ok(1,2) _ u _ hdr, unfolded log_kst_ok(3,4) cd] by auto
  have "\<exists>r. initlog 1 ((sb zero_kst)\<lparr>sb_logstart := 2\<rparr>) (idle_kst (apply_writes (\<lambda>_. 0) (take k ws))) = Ok () r \<and>
      dblock (drv r) 45 = (if k \<le> 2 then replicate 1024 0 else replicate 1024 9) \<and>
      dblock (drv r) 46 = (if k \<le> 2 then replicate 1024 0 else replicate 1024 8)" for k
  proof -
    have "drv (idle_kst x) = x" for x by (simp add: idle_kst_def)
    from w[rule_format, OF idle_cache this, of "(sb zero_kst)\<lparr>sb_logstart := 2\<rparr>"] show ?thesis
      by (force simp: pa zero_dblock)
  qed
  moreover have "dblock (drv t) 45 = replicate 1024 9" "dblock (drv t) 46 = replicate 1024 8" using d[of 45] d[of 46] by (simp_all add: pa)
  ultimately show ?thesis using t by (intro exI[of _ t] exI[of _ ws]) simp
qed

section \<open>The size of the log\<close>

lemma update_block_full:
  assumes t: "txn_open j p s0 hs c s" and "length hs = 29" and "l_size (klog s0) = 30" and n: "n < 2 ^ 31"
  shows "update_block (n, xs) s = Panic ''too big a transaction''"
proof -
  have k: "kcache p {} Map.empty (pinned (klog s) 0) s" and wf: "log_wf (klog s)" and hm: "homes (klog s) = hs"
    and kl: "klog s = (klog s0)\<lparr>l_outstanding := j, l_lh := l_lh (klog s)\<rparr>" using t by (simp_all add: txn_open_def)
  have lh: "lhn s = 29" using hm assms(2) log_wfD(2)[OF wf] by (auto simp: homes_def)
  have sz: "l_size (klog s) = 30" using assms(3) by (subst kl) simp
  have "wp (bread 1 n s) (\<lambda>b t. running p {} t \<and> klog t = klog s)"
  proof (rule wp_mono[OF bread_spec[OF k n]], goal_cases)
    case (4 b t)
    then have "kc p s [b \<mapsto> n] (pinned (klog s) 0) (content t) (drv t) (wtrace t) t" by (simp add: kc_def)
    from kc_klog(1)[OF this] kcacheD(1)[OF kc_kcache[OF this]] show ?case by simp
  qed (use pinned_simps(1)[OF wf, of 0] pinned_simps(2)[OF wf, of 0 n] in auto)
  then obtain b t where t: "bread 1 n s = Ok b t" "running p {} t" "klog t = klog s" by (auto simp: wp_iff)
  have "running p {} (upd_buf b (\<lambda>x. x\<lparr>b_data := xs\<rparr>) t)" using t by (simp add: body_simps)
  from running_acquire(1)[OF this, of Llog] show ?thesis
    using t lh sz by (simp add: update_block_def log_write_def acq_select upd_buf_def)
qed

text \<open>
  The CPU passes from the process that calls \<open>yield\<close> to \<open>q\<close>, which has called it before: the code of
  \<open>yield\<close> and \<open>sched\<close> around a \<open>swtch\<close> that the one process enters and the other returns from.
  \<open>intena\<close> is the value that \<open>sched\<close> had saved for \<open>q\<close>.
\<close>

definition swtch_to :: "nat \<Rightarrow> nat \<Rightarrow> kst \<Rightarrow> unit k" where
  "swtch_to p q s =
     bnd (scheduler_out p s) (\<lambda>_ s.
     bnd (scheduler_in q s) (\<lambda>run s.
     if run then Ok () s else Sleep s))"

definition sched_to :: "bool \<Rightarrow> nat \<Rightarrow> kst \<Rightarrow> unit k" where
  "sched_to intena q s =
     bnd (curproc s) (\<lambda>p s.
     if \<not> holding (Lproc p) s then Panic ''sched p->lock''
     else if c_noff (mycpu s) \<noteq> 1 then Panic ''sched locks''
     else if p_state (procs s p) = RUNNING then Panic ''sched running''
     else if intr_get s then Panic ''sched interruptible''
     else
       bnd (swtch_to p q s) (\<lambda>_ s.
       Ok () (upd_cpu (\<lambda>c. c\<lparr>c_intena := intena\<rparr>) s)))"

definition yield_to :: "bool \<Rightarrow> nat \<Rightarrow> kst \<Rightarrow> unit k" where
  "yield_to intena q s =
     bnd (curproc s) (\<lambda>p s.
     bnd (acquire (Lproc p) s) (\<lambda>_ s.
     let s = upd_proc p (\<lambda>x. x\<lparr>p_state := RUNNABLE\<rparr>) s in
     bnd (sched_to intena q s) (\<lambda>_ s.
     release (Lproc q) s)))"

definition runnable :: "nat \<Rightarrow> kst \<Rightarrow> bool" where
  "runnable q s \<longleftrightarrow> q < 64 \<and> p_state (procs s q) = RUNNABLE \<and> p_chan (procs s q) = None"

lemma sched_to_env:
  assumes "env (Some p) {Lproc p} s" and "p_state (procs s p) \<noteq> RUNNING"
  shows "sched_to intena q s = bnd (swtch_to p q (settle s)) (\<lambda>_ t. Ok () (upd_cpu (\<lambda>c. c\<lparr>c_intena := intena\<rparr>) t))"
proof -
  have e: "env (Some p) {Lproc p} (settle s)" using assms(1) by (rule env_settle)
  then have "holding (Lproc p) (settle s)" "c_noff (mycpu (settle s)) = 1" "\<not> intr_get (settle s)"
    by (simp_all add: env_def holding_def mycpu_def cpuid_def)
  then show ?thesis using assms by (simp add: sched_to_def env_curproc settle_select)
qed

lemma swtch_to_env:
  assumes e: "env (Some p) {Lproc p} s" and q: "p_state (procs s q) = RUNNABLE"
  shows "\<exists>t. swtch_to p q s = Ok () t \<and> env (Some q) {Lproc q} t \<and>
    body t = (body s)\<lparr>procs := (procs s)(q := (procs s q)\<lparr>p_state := RUNNING\<rparr>)\<rparr>"
proof -
  let ?b = "upd_cpu (\<lambda>c. c\<lparr>c_proc := None\<rparr>) s"
  let ?u = "intr_on (rel (Lproc p) ?b)"
  let ?w = "upd_proc q (\<lambda>x. x\<lparr>p_state := RUNNING\<rparr>) (acq (Lproc q) ?u)"
  have b: "env None {Lproc p} ?b" using env_upd_cpu_proc[OF e] .
  have B: "scheduler_out p s = Ok () ?u" using env_release(1)[OF b] by (simp add: scheduler_out_def)
  have u: "env None {} ?u" using env_intr_on env_release(2)[OF b] by simp
  have bu: "body ?u = body s" by (simp add: body_simps)
  have "p_state (procs ?u q) = RUNNABLE" using body_eqD(12)[OF bu] q by simp
  then have "scheduler_in q ?u = Ok True (upd_cpu (\<lambda>c. c\<lparr>c_proc := Some q\<rparr>) ?w)"
    using env_acquire(1)[OF u, of "Lproc q"] by (simp add: scheduler_in_def acq_select)
  moreover have "env None {Lproc q} ?w" using env_acquire(2)[OF u, of "Lproc q"] by (simp add: body_simps)
  from env_upd_cpu_proc[OF this] have "env (Some q) {Lproc q} (upd_cpu (\<lambda>c. c\<lparr>c_proc := Some q\<rparr>) ?w)" .
  moreover have "body (upd_cpu (\<lambda>c. c\<lparr>c_proc := Some q\<rparr>) ?w) = (body s)\<lparr>procs := (procs s)(q := (procs s q)\<lparr>p_state := RUNNING\<rparr>)\<rparr>"
    using body_eqD(12)[OF bu] by (simp add: upd_proc_def body_simps lock_simps)
  ultimately show ?thesis by (simp add: swtch_to_def B)
qed

lemma yield_to_running:
  assumes r: "running p {} s" and q: "runnable q s" "p \<noteq> q"
  shows "wp (yield_to intena q s) (\<lambda>_ t. running q {} t \<and>
    body t = (body s)\<lparr>procs := (procs s)(p := (procs s p)\<lparr>p_state := RUNNABLE\<rparr>, q := (procs s q)\<lparr>p_state := RUNNING\<rparr>)\<rparr>)"
proof -
  have e: "env (Some p) {} s" and fu: "future s = []" using r by (simp_all add: running_def)
  let ?a = "upd_proc p (\<lambda>x. x\<lparr>p_state := RUNNABLE\<rparr>) (acq (Lproc p) (settle s))"
  have A: "acquire (Lproc p) (settle s) = Ok () (acq (Lproc p) (settle s))" and a: "env (Some p) {Lproc p} ?a"
    using env_acquire[OF env_settle[OF e], of "Lproc p"] by (simp_all add: body_simps)
  have ba: "body (settle ?a) = (body s)\<lparr>procs := (procs s)(p := (procs s p)\<lparr>p_state := RUNNABLE\<rparr>)\<rparr>"
    by (simp add: upd_proc_def body_simps lock_simps)
  have "p_state (procs (settle ?a) q) = RUNNABLE" using body_eqD(12)[OF ba] q by (simp add: runnable_def)
  from swtch_to_env[OF env_settle[OF a] this] obtain t where t: "swtch_to p q (settle ?a) = Ok () t" "env (Some q) {Lproc q} t"
    "body t = (body (settle ?a))\<lparr>procs := (procs (settle ?a))(q := (procs (settle ?a) q)\<lparr>p_state := RUNNING\<rparr>)\<rparr>" by blast
  have bt: "body t = (body s)\<lparr>procs := (procs s)(p := (procs s p)\<lparr>p_state := RUNNABLE\<rparr>, q := (procs s q)\<lparr>p_state := RUNNING\<rparr>)\<rparr>"
    unfolding t(3) ba body_eqD(12)[OF ba] using q(2) by simp
  let ?v = "upd_cpu (\<lambda>c. c\<lparr>c_intena := intena\<rparr>) t"
  have v: "env (Some q) {Lproc q} ?v" by (rule env_intena[OF t(2)])
  have bv: "body (rel (Lproc q) ?v) = (body s)\<lparr>procs := (procs s)(p := (procs s p)\<lparr>p_state := RUNNABLE\<rparr>, q := (procs s q)\<lparr>p_state := RUNNING\<rparr>)\<rparr>"
    using bt by (simp add: body_simps)
  have "running q {} (rel (Lproc q) ?v)"
    using env_release(2)[OF v, of "Lproc q"] body_eqD(12,36)[OF bv] q fu by (simp add: running_def runnable_def)
  moreover have "sched_to intena q ?a = Ok () ?v"
    using sched_to_env[OF a, of intena q] t(1) by (simp add: upd_proc_def)
  ultimately show ?thesis
    using bv env_release(1)[OF v, of "Lproc q"] by (simp add: yield_to_def env_curproc[OF e] A Let_def)
qed

lemma cache_ok_pid: "cache_ok {} Map.empty P pid bs sl d \<Longrightarrow> cache_ok {} Map.empty P pid' bs sl d"
  by (simp add: cache_ok_def slot_ok_def)

text \<open>An open operation stays open when the CPU passes to another process.\<close>

lemma txn_yield:
  assumes t: "txn_open j p s0 hs c s" and q: "runnable q s" "p \<noteq> q"
  shows "wp (yield_to intena q s) (\<lambda>_ t. txn_open j q t hs c t \<and> klog t = klog s \<and> runnable p t \<and>
    (\<forall>r. r \<noteq> p \<longrightarrow> r \<noteq> q \<longrightarrow> runnable r s \<longrightarrow> runnable r t))"
proof (rule wp_mono[OF yield_to_running[OF _ q]])
  have k: "kcache p {} Map.empty (pinned (klog s) 0) s" and kl: "klog s = (klog s0)\<lparr>l_outstanding := j, l_lh := l_lh (klog s)\<rparr>"
    using t by (simp_all add: txn_open_def)
  have p: "p < 64" "p_chan (procs s p) = None" using kcacheD(1)[OF k] by (simp_all add: running_def)
  show "running p {} s" by (rule kcacheD(1)[OF k])
  fix a u assume u: "running q {} u \<and>
    body u = (body s)\<lparr>procs := (procs s)(p := (procs s p)\<lparr>p_state := RUNNABLE\<rparr>, q := (procs s q)\<lparr>p_state := RUNNING\<rparr>)\<rparr>"
  note b = body_eqD[OF conjunct2[OF u]]
  have kt: "klog u = klog s" using b(27) by simp
  have "disk_ready u" using kcacheD(2)[OF k] b by (simp add: disk_ready_def)
  moreover have "cache_ok {} Map.empty (pinned (klog s) 0) (p_pid (procs u q)) (bufs u) (slocks u) (drv u)"
    using cache_ok_pid[OF kcacheD(3)[OF k]] b by simp
  ultimately have "kcache q {} Map.empty (pinned (klog u) 0) u" using u kt by (simp add: kcache_def)
  moreover have "content u = content s" using b(22,24) by (intro content_cong) simp_all
  moreover have "klog u = (klog u)\<lparr>l_outstanding := j, l_lh := l_lh (klog u)\<rparr>" unfolding kt by (subst (1 2) kl) simp
  ultimately have "txn_open j q u hs c u" using t kt by (simp add: txn_open_def)
  then show "txn_open j q u hs c u \<and> klog u = klog s \<and> runnable p u \<and>
      (\<forall>r. r \<noteq> p \<longrightarrow> r \<noteq> q \<longrightarrow> runnable r s \<longrightarrow> runnable r u)"
    using kt b(12) p q(2) by (simp add: runnable_def)
qed

text \<open>
  Operations of several processes: \<open>j\<close> are open, \<open>p\<close> has the CPU, \<open>hs\<close> are the blocks in the log, \<open>c\<close> is
  what the cache shows of each block and \<open>L\<close> is where the log starts.
\<close>

definition ops_open :: "int \<Rightarrow> nat \<Rightarrow> nat list \<Rightarrow> (nat \<Rightarrow> bytes) \<Rightarrow> nat \<Rightarrow> kst \<Rightarrow> bool" where
  "ops_open j p hs c L s \<longleftrightarrow> txn_open j p s hs c s \<and> l_start (klog s) = L \<and> l_size (klog s) = 30 \<and> \<not> l_committing (klog s)"

definition stays :: "nat set \<Rightarrow> kst \<Rightarrow> kst \<Rightarrow> bool" where
  "stays Q s t \<longleftrightarrow> (\<forall>r. r \<notin> Q \<longrightarrow> runnable r s \<longrightarrow> runnable r t)"

lemma ops_open_after:
  assumes "ops_open i p hs c L s" and t: "txn_open j p s hs' c' t"
  shows "ops_open j p hs' c' L t \<and> stays {} s t"
proof -
  have kl: "klog t = (klog s)\<lparr>l_outstanding := j, l_lh := l_lh (klog t)\<rparr>" and st: "stirred p s t"
    using t by (simp_all add: txn_open_def)
  have "l_start (klog t) = l_start (klog s)" "l_size (klog t) = l_size (klog s)" "l_committing (klog t) = l_committing (klog s)"
    by (subst kl; simp)+
  moreover have "klog t = (klog t)\<lparr>l_outstanding := j, l_lh := l_lh (klog t)\<rparr>" by (subst (1 2) kl) simp
  moreover have "runnable r t" if "runnable r s" for r
    using st that by (auto simp: stirred_def runnable_def dest!: spec[of _ r])
  ultimately show ?thesis using assms by (simp add: ops_open_def stays_def txn_open_def)
qed

lemma ops_begin:
  assumes o: "ops_open j p hs c L s" and "int (length hs) + (j + 1) * 10 \<le> 30"
  shows "\<exists>t. begin_op s = Ok () t \<and> ops_open (j + 1) p hs c L t \<and> stays {} s t"
proof -
  obtain t where "begin_op s = Ok () t" "txn_open (j + 1) p s hs c t"
    using begin_op_admits[of j p s hs c s] o assms(2) by (auto simp: ops_open_def elim: wp_unitE)
  then show ?thesis using ops_open_after[OF o] by blast
qed

lemma ops_updates:
  assumes o: "ops_open j p hs c L s" and u: "\<forall>(n, xs) \<in> set us. n < 2 ^ 31 \<and> n \<notin> {L .. L + 29} \<and> length xs = 1024"
    and d: "distinct (map fst us)" "set hs \<inter> fst ` set us = {}" and n: "length hs + length us \<le> 28" "1 \<le> j"
  shows "\<exists>t hs'. for_each us update_block s = Ok () t \<and> ops_open j p hs' (put_all c us) L t \<and> stays {} s t \<and>
    length hs' = length hs + length us \<and> set hs' = set hs \<union> fst ` set us"
proof -
  have dh: "distinct hs" using o by (auto simp: ops_open_def txn_open_def log_wf_def)
  have card: "card (set hs \<union> fst ` set us) = length hs + length us"
    using distinct_card[OF dh] distinct_card[OF d(1)] d(2) by (subst card_Un_disjoint) auto
  obtain t hs' where t: "for_each us update_block s = Ok () t" "set hs' = set hs \<union> fst ` set us" "txn_open j p s hs' (put_all c us) t"
    using txn_updates[of j p s hs c s us] o u n card by (auto simp: ops_open_def elim!: wp_unitE)
  moreover have "length hs' = card (set hs')" using t(3) distinct_card[of hs'] by (auto simp: txn_open_def log_wf_def)
  ultimately show ?thesis using ops_open_after[OF o t(3)] card by auto
qed

lemma ops_yield:
  assumes o: "ops_open j p hs c L s" and q: "runnable q s" "p \<noteq> q"
  shows "\<exists>t. yield_to intena q s = Ok () t \<and> ops_open j q hs c L t \<and> stays {q} s t \<and> runnable p t"
proof -
  obtain t where "yield_to intena q s = Ok () t" "txn_open j q t hs c t" "klog t = klog s" "runnable p t"
    "\<forall>r. r \<noteq> p \<longrightarrow> r \<noteq> q \<longrightarrow> runnable r s \<longrightarrow> runnable r t"
    using txn_yield[of j p s hs c s q intena] o q by (auto simp: ops_open_def elim!: wp_unitE)
  then show ?thesis using o by (auto simp: ops_open_def stays_def)
qed

lemma stays_runnable: "stays Q s t \<Longrightarrow> r \<notin> Q \<Longrightarrow> runnable r s \<Longrightarrow> runnable r t"
  by (simp add: stays_def)

text \<open>
  Three processes open an operation each, one after the other; then each updates some blocks,
  the last one first.
\<close>

definition three_ops :: "bool \<Rightarrow> nat \<Rightarrow> nat \<Rightarrow> nat \<Rightarrow> (nat \<times> bytes) list \<Rightarrow> (nat \<times> bytes) list \<Rightarrow>
    (nat \<times> bytes) list \<Rightarrow> kst \<Rightarrow> unit k" where
  "three_ops intena p q r us vs ws s =
     bnd (begin_op s) (\<lambda>_ s. bnd (yield_to intena q s) (\<lambda>_ s.
     bnd (begin_op s) (\<lambda>_ s. bnd (yield_to intena r s) (\<lambda>_ s.
     bnd (begin_op s) (\<lambda>_ s. bnd (for_each us update_block s) (\<lambda>_ s. bnd (yield_to intena p s) (\<lambda>_ s.
     bnd (for_each vs update_block s) (\<lambda>_ s. bnd (yield_to intena q s) (\<lambda>_ s.
     for_each ws update_block s)))))))))"

lemma three_ops_open:
  assumes "kcache p {} Map.empty (\<lambda>_. 0) s" and "log_idle (klog s)" and q: "runnable q s" "runnable r s" "distinct [p, q, r]"
    and u: "\<forall>(n, xs) \<in> set (us @ vs @ ws). n < 2 ^ 31 \<and> n \<notin> {l_start (klog s) .. l_start (klog s) + 29} \<and> length xs = 1024"
    and d: "distinct (map fst (us @ vs @ ws))" and n: "length (us @ vs @ ws) \<le> 28"
  shows "\<exists>t hs. three_ops intena p q r us vs ws s = Ok () t \<and>
    ops_open 3 q hs (put_all (content s) (us @ vs @ ws)) (l_start (klog s)) t \<and>
    length hs = length (us @ vs @ ws) \<and> set hs = fst ` set (us @ vs @ ws)"
proof -
  let ?L = "l_start (klog s)"
  have dj: "fst ` set us \<inter> fst ` set vs = {}" "(fst ` set us \<union> fst ` set vs) \<inter> fst ` set ws = {}" using d by auto
  have "ops_open 0 p [] (content s) ?L s"
    using txn_open_idle[OF assms(1,2)] assms(2) by (simp add: ops_open_def log_idle_def)
  from ops_begin[OF this] obtain s1 where 1: "begin_op s = Ok () s1" "ops_open 1 p [] (content s) ?L s1" "stays {} s s1" by auto
  note r1 = stays_runnable[OF 1(3)]
  from ops_yield[OF 1(2) r1[OF _ q(1)], of intena] q(3) obtain s2 where 2: "yield_to intena q s1 = Ok () s2"
    "ops_open 1 q [] (content s) ?L s2" "stays {q} s1 s2" "runnable p s2" by auto
  from ops_begin[OF 2(2)] obtain s3 where 3: "begin_op s2 = Ok () s3" "ops_open 2 q [] (content s) ?L s3" "stays {} s2 s3" by auto
  have r3: "runnable r s3" "runnable p s3"
    using stays_runnable[OF 3(3)] stays_runnable[OF 2(3)] r1[OF _ q(2)] q(3) 2(4) by auto
  from ops_yield[OF 3(2) r3(1), of intena] q(3) obtain s4 where 4: "yield_to intena r s3 = Ok () s4"
    "ops_open 2 r [] (content s) ?L s4" "stays {r} s3 s4" "runnable q s4" by auto
  from ops_begin[OF 4(2)] obtain s5 where 5: "begin_op s4 = Ok () s5" "ops_open 3 r [] (content s) ?L s5" "stays {} s4 s5" by auto
  from ops_updates[OF 5(2), of us] u d n obtain s6 hs where 6: "for_each us update_block s5 = Ok () s6"
    "ops_open 3 r hs (put_all (content s) us) ?L s6" "stays {} s5 s6" "length hs = length us" "set hs = fst ` set us" by auto
  have r6: "runnable p s6" "runnable q s6"
    using stays_runnable[OF 6(3)] stays_runnable[OF 5(3)] stays_runnable[OF 4(3)] r3(2) q(3) 4(4) by auto
  from ops_yield[OF 6(2) r6(1), of intena] q(3) obtain s7 where 7: "yield_to intena p s6 = Ok () s7"
    "ops_open 3 p hs (put_all (content s) us) ?L s7" "stays {p} s6 s7" by auto
  from ops_updates[OF 7(2), of vs] u d n dj 6(4,5) obtain s8 hs2 where 8: "for_each vs update_block s7 = Ok () s8"
    "ops_open 3 p hs2 (put_all (put_all (content s) us) vs) ?L s8" "stays {} s7 s8" "length hs2 = length us + length vs"
    "set hs2 = fst ` set us \<union> fst ` set vs" by auto
  have "runnable q s8" using stays_runnable[OF 8(3)] stays_runnable[OF 7(3)] r6(2) q(3) by auto
  from ops_yield[OF 8(2) this, of intena] q(3) obtain s9 where 9: "yield_to intena q s8 = Ok () s9"
    "ops_open 3 q hs2 (put_all (put_all (content s) us) vs) ?L s9" by auto
  from ops_updates[OF 9(2), of ws] u d n dj 8(4,5) obtain t hs3 where t: "for_each ws update_block s9 = Ok () t"
    "ops_open 3 q hs3 (put_all (put_all (put_all (content s) us) vs) ws) ?L t" "length hs3 = length us + length vs + length ws"
    "set hs3 = fst ` set us \<union> fst ` set vs \<union> fst ` set ws" by auto
  then show ?thesis
    using 1(1) 2(1) 3(1) 4(1) 5(1) 6(1) 7(1) 8(1) 9(1)
    by (intro exI[of _ t] exI[of _ hs3]) (simp add: three_ops_def put_all_def image_Un Un_assoc)
qed

text \<open>C21: The log is smaller than what \<open>begin_op\<close> admits. On an idle log of \<open>LOGSIZE\<close> = 30 blocks, the size
  that \<open>mkfs\<close> makes, three processes can open an operation each, since three times \<open>MAXOPBLOCKS\<close> does
  not exceed \<open>LOGSIZE\<close>, and each may then log ten blocks. When they update thirty different blocks
  outside the log, ten each, the first twenty-nine updates succeed and are in the cache, but the
  last process's tenth \<open>log_write\<close> panics, although no operation has exceeded its share: one of the
  blocks of the log is its header.\<close>
theorem log_overcommitted:
  assumes "kcache p {} Map.empty (\<lambda>_. 0) s" and "log_idle (klog s)" and "runnable q s" and "runnable r s" and "distinct [p, q, r]"
    and "length us = 10" and "length vs = 10" and "length ws = 9" and "distinct (map fst (us @ vs @ ws @ [w]))"
    and "\<forall>(n, xs) \<in> set (us @ vs @ ws @ [w]). n < 2 ^ 31 \<and> n \<notin> {l_start (klog s) .. l_start (klog s) + 29} \<and> length xs = 1024"
  shows "\<exists>t. three_ops intena p q r us vs ws s = Ok () t \<and> l_outstanding (klog t) = 3 \<and> lh_n (l_lh (klog t)) = 29 \<and>
    content t = put_all (content s) (us @ vs @ ws) \<and> update_block w t = Panic ''too big a transaction''"
proof -
  obtain ws' v where ws: "ws = ws' @ [v]" using assms(8) by (cases ws rule: rev_exhaust) auto
  obtain nv bv nw bw where v: "v = (nv, bv)" "w = (nw, bw)" by (cases v; cases w)
  have u: "\<forall>(n, xs) \<in> set (us @ vs @ ws'). n < 2 ^ 31 \<and> n \<notin> {l_start (klog s) .. l_start (klog s) + 29} \<and> length xs = 1024"
    using assms(10) by (auto simp: ws)
  obtain t hs where t: "three_ops intena p q r us vs ws' s = Ok () t"
    "ops_open 3 q hs (put_all (content s) (us @ vs @ ws')) (l_start (klog s)) t" "length hs = 28" "set hs = fst ` set (us @ vs @ ws')"
    using three_ops_open[OF assms(1-5) u, of intena] assms(6-9) by (auto simp: ws)
  have o: "txn_open 3 q t hs (put_all (content s) (us @ vs @ ws')) t" "l_size (klog t) = 30" "l_start (klog t) = l_start (klog s)"
    using t(2) by (simp_all add: ops_open_def)
  have "nv \<notin> set hs" using assms(9) t(4) by (auto simp: ws v)
  then obtain z where z: "update_block v t = Ok () z"
    "txn_open 3 q t (hs @ [nv]) ((put_all (content s) (us @ vs @ ws'))(nv := bv)) z"
    using txn_update[OF o(1), of nv bv] assms(10) o(2,3) t(3) by (auto simp: ws v simp del: fun_upd_apply elim!: wp_unitE)
  have "homes (klog z) = hs @ [nv]" and wf: "log_wf (klog z)" using z(2) by (simp_all add: txn_open_def)
  then have "lh_n (l_lh (klog z)) = 29" using t(3) log_wfD(2)[OF wf] by (auto simp: homes_def dest!: arg_cong[where f = length])
  moreover have kz: "klog z = (klog t)\<lparr>l_outstanding := 3, l_lh := l_lh (klog z)\<rparr>" using z(2) by (simp add: txn_open_def)
  from arg_cong[OF kz, of l_outstanding] have "l_outstanding (klog z) = 3" by simp
  moreover have "three_ops intena p q r us vs ws s = Ok () z"
    using t(1) z(1) by (auto simp: three_ops_def ws for_each_append bnd_Ok_iff)
  moreover have "content z = put_all (content s) (us @ vs @ ws)" using z(2) by (simp add: txn_open_def ws v put_all_def)
  moreover have "update_block w z = Panic ''too big a transaction''"
    using update_block_full[OF z(2) _ o(2)] t(3) assms(10) by (auto simp: v)
  ultimately show ?thesis by blast
qed

text \<open>Processes 0, 1 and 2 on an idle machine.\<close>

definition ops_kst :: kst where
  "ops_kst = log_kst\<lparr>procs := (procs log_kst)(1 := (procs log_kst 1)\<lparr>p_state := RUNNABLE\<rparr>, 2 := (procs log_kst 2)\<lparr>p_state := RUNNABLE\<rparr>)\<rparr>"

lemma ops_kst_ok: "kcache 0 {} Map.empty (\<lambda>_. 0) ops_kst" "runnable 1 ops_kst" "runnable 2 ops_kst" "klog ops_kst = klog log_kst"
  using log_kst_ok(1) by (simp_all add: ops_kst_def kcache_def running_def disk_ready_def body_simps runnable_def)
    (simp_all add: log_kst_def idle_kst_def zero_kst_def zero_proc_def)

theorem log_overcommitted_witness:
  "\<exists>t. three_ops True 0 1 2 (map (\<lambda>n. (n, replicate 1024 7)) [45..<55]) (map (\<lambda>n. (n, replicate 1024 7)) [55..<65])
       (map (\<lambda>n. (n, replicate 1024 7)) [65..<74]) ops_kst = Ok () t \<and>
     l_outstanding (klog t) = 3 \<and> lh_n (l_lh (klog t)) = 29 \<and> update_block (74, replicate 1024 7) t = Panic ''too big a transaction''"
proof -
  let ?f = "\<lambda>n. (n :: nat, replicate 1024 7 :: bytes)"
  have d: "distinct (map fst (map ?f [45..<55] @ map ?f [55..<65] @ map ?f [65..<74] @ [?f 74]))" by (auto simp: comp_def)
  have i: "log_idle (klog ops_kst)" using log_kst_ok(2) by (simp add: ops_kst_ok(4))
  have "\<forall>(n, xs) \<in> set (map ?f [45..<55] @ map ?f [55..<65] @ map ?f [65..<74] @ [?f 74]).
      n < 2 ^ 31 \<and> n \<notin> {l_start (klog ops_kst) .. l_start (klog ops_kst) + 29} \<and> length xs = 1024"
    by (auto simp: ops_kst_ok(4) log_kst_ok)
  from log_overcommitted[OF ops_kst_ok(1) i ops_kst_ok(2,3) _ _ _ _ d this, of True] show ?thesis by auto
qed

end
