(* ===== verification/Ring_Buffer.thy ===== *)
theory Ring_Buffer
  imports Kernel_Prelude
begin

text \<open>
  The interface that the ring buffers of the kernel share: the pipe, the transmit buffer of the UART
  and the input buffer of the console index an array of \<open>cap\<close> slots by two free-running unsigned
  counters that wrap around. The laws are those of storing and fetching one element; the lemmas show
  that the elements between the counters form a queue, also across the wrap-around.
\<close>

definition ring_list :: "nat \<Rightarrow> (nat \<Rightarrow> 'b) \<Rightarrow> 'w::len word \<Rightarrow> 'w word \<Rightarrow> 'b list" where
  "ring_list cap sl r w = map (\<lambda>i. sl (unat (r + of_nat i) mod cap)) [0..<unat (w - r)]"

lemma length_ring_list [simp]: "length (ring_list cap sl r w) = unat (w - r)"
  by (simp add: ring_list_def)

lemma unat_inc: "unat (x :: 'w::len word) + 1 < 2 ^ LENGTH('w) \<Longrightarrow> unat (x + 1) = Suc (unat x)"
  by (simp add: unat_word_ariths)

lemma unat_dec: "(x :: 'w::len word) \<noteq> 0 \<Longrightarrow> unat x = Suc (unat (x - 1))"
  using unat_minus_one[of x] by (simp add: unat_gt_0)

locale ring_buffer =
  fixes cap :: nat
    and slot :: "'q \<Rightarrow> nat \<Rightarrow> 'b"
    and rd :: "'q \<Rightarrow> 'w::len word"
    and wr :: "'q \<Rightarrow> 'w word"
    and put :: "'b \<Rightarrow> 'q \<Rightarrow> 'q"
    and get :: "'q \<Rightarrow> 'b \<times> 'q"
  assumes cap_dvd: "cap dvd 2 ^ LENGTH('w)"
    and cap_less: "cap < 2 ^ LENGTH('w)"
    and put_laws: "wr (put c q) = wr q + 1" "rd (put c q) = rd q" "slot (put c q) = (slot q)(unat (wr q) mod cap := c)"
    and get_laws: "fst (get q) = slot q (unat (rd q) mod cap)" "rd (snd (get q)) = rd q + 1" "wr (snd (get q)) = wr q"
      "slot (snd (get q)) = slot q"
begin

text \<open>The slot of a counter does not change when the counter wraps around.\<close>

lemma slot_index: "unat (a + of_nat i :: 'w word) mod cap = (unat a + i) mod cap"
proof -
  have "unat (a + of_nat i :: 'w word) = (unat a + i) mod 2 ^ LENGTH('w)"
    by (simp add: unat_word_ariths unat_of_nat mod_add_right_eq)
  then show ?thesis using cap_dvd by (simp add: mod_mod_cancel)
qed

lemma slots_distinct:
  assumes "i < n" and "n < cap"
  shows "unat (a + of_nat i :: 'w word) mod cap \<noteq> unat (a + of_nat n :: 'w word) mod cap"
proof
  assume "unat (a + of_nat i :: 'w word) mod cap = unat (a + of_nat n :: 'w word) mod cap"
  then have "(unat a + n) mod cap = (unat a + i) mod cap" by (simp only: slot_index)
  then have "cap dvd n - i" using mod_eq_dvd_iff_nat[of "unat a + i" "unat a + n" cap] assms by simp
  then have "cap \<le> n - i" using assms by (intro dvd_imp_le) auto
  then show False using assms by simp
qed

lemma put_list:
  assumes "unat (wr q - rd q) < cap"
  shows "ring_list cap (slot (put c q)) (rd (put c q)) (wr (put c q)) = ring_list cap (slot q) (rd q) (wr q) @ [c]"
proof -
  have "unat (wr q + 1 - rd q) = Suc (unat (wr q - rd q))"
    using unat_inc[of "wr q - rd q"] assms cap_less by (simp add: algebra_simps)
  then show ?thesis
    using slots_distinct[of _ "unat (wr q - rd q)" "rd q"] assms by (auto simp: ring_list_def put_laws)
qed

lemma get_list:
  assumes "rd q \<noteq> wr q"
  shows "ring_list cap (slot q) (rd q) (wr q) =
           fst (get q) # ring_list cap (slot (snd (get q))) (rd (snd (get q))) (wr (snd (get q)))"
proof -
  have "unat (wr q - rd q) = Suc (unat (wr q - (rd q + 1)))"
    using unat_dec[of "wr q - rd q"] assms by (simp add: algebra_simps)
  then have "[0..<unat (wr q - rd q)] = 0 # map Suc [0..<unat (wr q - (rd q + 1))]"
    by (simp add: upt_conv_Cons map_Suc_upt del: upt_Suc)
  then show ?thesis by (simp add: ring_list_def get_laws comp_def add.assoc)
qed

lemma full_iff: "unat (wr q - rd q) \<le> cap \<Longrightarrow> wr q = rd q + of_nat cap \<longleftrightarrow> unat (wr q - rd q) = cap"
proof
  assume "wr q = rd q + of_nat cap"
  then show "unat (wr q - rd q) = cap" using cap_less by (simp add: unat_of_nat)
next
  assume "unat (wr q - rd q) = cap"
  then have "wr q - rd q = of_nat cap" by (metis of_nat_unat ucast_id)
  then show "wr q = rd q + of_nat cap" by (simp add: diff_eq_eq add.commute)
qed

lemma empty_iff: "rd q = wr q \<longleftrightarrow> ring_list cap (slot q) (rd q) (wr q) = []"
proof -
  have "rd q = wr q \<longleftrightarrow> wr q - rd q = 0" by (metis eq_iff_diff_eq_0)
  then show ?thesis by (simp add: ring_list_def unat_eq_zero)
qed

end

end
