(* ===== verification/Pipe_Queue.thy ===== *)
theory Pipe_Queue
  imports Pipe Ring_Buffer User_Copy Kernel_Env
begin

text \<open>
  \<open>pipe.c\<close> is a queue of bytes: the ring buffer with its wrapping counters refines a list, \<open>pipewrite\<close>
  appends bytes of user memory to it and \<open>piperead\<close> moves bytes from its front to user memory.
\<close>

section \<open>The ring buffer of a pipe\<close>

definition pipe_bytes :: "pipe \<Rightarrow> bytes" where
  "pipe_bytes q = ring_list 512 (pi_data q) (pi_nread q) (pi_nwrite q)"

definition pipe_ok :: "pipe \<Rightarrow> bool" where
  "pipe_ok q \<longleftrightarrow> length (pipe_bytes q) \<le> 512"

interpretation pipe_ring: ring_buffer 512 pi_data pi_nread pi_nwrite pipe_put pipe_get
  by unfold_locales (simp_all add: pipe_put_def pipe_get_def)

lemma length_pipe_bytes: "length (pipe_bytes q) = unat (pi_nwrite q - pi_nread q)"
  by (simp add: pipe_bytes_def)

lemma pipe_full_iff: "pipe_ok q \<Longrightarrow> pipe_full q \<longleftrightarrow> length (pipe_bytes q) = 512"
  using pipe_ring.full_iff[of q] by (simp add: pipe_full_def pipe_ok_def length_pipe_bytes)

lemma pipe_empty_iff: "pipe_empty q \<longleftrightarrow> pipe_bytes q = []"
  using pipe_ring.empty_iff[of q] by (simp add: pipe_empty_def pipe_bytes_def)

lemma pipe_bytes_put: "length (pipe_bytes q) < 512 \<Longrightarrow> pipe_bytes (pipe_put c q) = pipe_bytes q @ [c]"
  using pipe_ring.put_list[of q c] by (simp add: pipe_bytes_def)

lemma pipe_bytes_get: "pipe_bytes q \<noteq> [] \<Longrightarrow> pipe_bytes q = fst (pipe_get q) # pipe_bytes (snd (pipe_get q))"
  using pipe_ring.get_list[of q] pipe_ring.empty_iff[of q] by (simp add: pipe_bytes_def)

text \<open>C26: The ring buffer of a pipe refines a queue. While at most 512 bytes are between the counters, the
  test for a full buffer is that the queue has 512 bytes and the test for an empty one that it has
  none; storing a byte appends it, fetching one takes the first, and both keep the bound. This
  includes counters that have wrapped around past 32 bits.\<close>
theorem pipe_refines_queue:
  assumes "pipe_ok q"
  shows "(pipe_full q \<longleftrightarrow> length (pipe_bytes q) = 512) \<and> (pipe_empty q \<longleftrightarrow> pipe_bytes q = []) \<and>
    (\<not> pipe_full q \<longrightarrow> pipe_ok (pipe_put c q) \<and> pipe_bytes (pipe_put c q) = pipe_bytes q @ [c]) \<and>
    (\<not> pipe_empty q \<longrightarrow> pipe_ok (snd (pipe_get q)) \<and> pipe_bytes q = fst (pipe_get q) # pipe_bytes (snd (pipe_get q)))"
proof -
  have "pipe_ok (pipe_put c q) \<and> pipe_bytes (pipe_put c q) = pipe_bytes q @ [c]" if "\<not> pipe_full q"
    using that assms pipe_full_iff[OF assms] pipe_bytes_put[of q c] by (auto simp: pipe_ok_def)
  moreover have "pipe_ok (snd (pipe_get q)) \<and> pipe_bytes q = fst (pipe_get q) # pipe_bytes (snd (pipe_get q))" if "\<not> pipe_empty q"
    using that assms pipe_empty_iff[of q] pipe_bytes_get[of q] by (metis Suc_leD length_Cons pipe_ok_def)
  ultimately show ?thesis using pipe_full_iff[OF assms] pipe_empty_iff[of q] by blast
qed

theorem pipe_refines_queue_witness:
  "let q = \<lparr>pi_data = (\<lambda>i. if i = 510 then 3 else if i = 511 then 4 else 5), pi_nread = 0xfffffffe, pi_nwrite = 1,
            pi_readopen = True, pi_writeopen = True\<rparr>
   in pipe_bytes q = [3, 4, 5] \<and> pipe_bytes (pipe_put 7 q) = [3, 4, 5, 7] \<and> pipe_bytes (snd (pipe_get q)) = [4, 5]"
proof -
  let ?q = "\<lparr>pi_data = (\<lambda>i. if i = 510 then 3 else if i = 511 then 4 else 5), pi_nread = 0xfffffffe, pi_nwrite = 1,
            pi_readopen = True, pi_writeopen = True\<rparr>"
  have n: "unat (1 - 0xfffffffe :: u32) = 3" "[0..<3] = [0, 1, 2::nat]" by (simp_all add: upt_rec)
  have b: "pipe_bytes ?q = [3, 4, 5]" unfolding pipe_bytes_def ring_list_def pipe.select_convs n by simp
  then have ok: "pipe_ok ?q" by (simp add: pipe_ok_def)
  have "\<not> pipe_full ?q" "\<not> pipe_empty ?q" using b pipe_full_iff[OF ok] pipe_empty_iff[of ?q] by simp_all
  then have "pipe_bytes (pipe_put 7 ?q) = pipe_bytes ?q @ [7]" "pipe_bytes ?q = fst (pipe_get ?q) # pipe_bytes (snd (pipe_get ?q))"
    using pipe_refines_queue[OF ok, of 7] by blast+
  then show ?thesis unfolding Let_def b by simp
qed

section \<open>Writing\<close>

lemma pipe_bytes_puts:
  "length (pipe_bytes q) + length bs \<le> 512 \<Longrightarrow> pipe_bytes (fold pipe_put bs q) = pipe_bytes q @ bs"
  by (induction bs arbitrary: q) (simp_all add: pipe_bytes_put)

lemma pipe_put_open [simp]: "pi_readopen (pipe_put c q) = pi_readopen q" "pi_writeopen (pipe_put c q) = pi_writeopen q"
  by (simp_all add: pipe_put_def)

lemma user_range_Suc: "user_range m pt va (Suc n) \<longleftrightarrow> user_range m pt va 1 \<and> user_range m pt (va + 1) n"
  by (auto simp: user_range_def All_less_Suc2 add.assoc)

lemma copyin_byte: "user_range (mem s) pt va 1 \<Longrightarrow> copyin pt va 1 s = Ok (0, [ubyte (mem s) pt va 0]) s"
  unfolding copyin_eq by (subst uread_spec) (simp add: ubyte_def)

lemma ubyte_Suc: "ubyte m pt va (Suc i) = ubyte m pt (va + 1) i"
  by (simp add: ubyte_def add.assoc)

lemma ubytes_Suc: "map (ubyte m pt va) [0..<Suc n] = ubyte m pt va 0 # map (ubyte m pt (va + 1)) [0..<n]"
  by (simp add: upt_conv_Cons map_Suc_upt[symmetric] ubyte_Suc del: upt_Suc)

lemma pipewrite_loop_copies:
  assumes "pi_readopen (pipes s pi)" and "\<not> p_killed (procs s pr)" and "length (pipe_bytes (pipes s pi)) + n \<le> 512"
    and "user_range (mem s) (p_pagetable (procs s pr)) (addr + of_int i) n"
  shows "pipewrite_loop pi pr addr n i s = Ok (Some (i + int n)) (upd_pipe pi
           (fold pipe_put (map (ubyte (mem s) (p_pagetable (procs s pr)) (addr + of_int i)) [0..<n])) s)"
  using assms
proof (induction n arbitrary: i s)
  case 0
  then show ?case by (simp add: pipewrite_loop.simps upd_pipe_def)
next
  case (Suc n)
  let ?pt = "p_pagetable (procs s pr)" and ?a = "addr + of_int i" and ?q = "pipes s pi"
  have r: "user_range (mem s) ?pt ?a 1" "user_range (mem s) ?pt (addr + of_int (i + 1)) n"
    using Suc.prems(4) user_range_Suc[of "mem s" ?pt ?a n] by (simp_all add: add.assoc)
  have "\<not> pipe_full ?q" using Suc.prems(3) pipe_full_iff[of ?q] by (simp add: pipe_ok_def)
  then have "pipewrite_loop pi pr addr (Suc n) i s = pipewrite_loop pi pr addr n (i + 1) (upd_pipe pi (pipe_put (ubyte (mem s) ?pt ?a 0)) s)"
    using Suc.prems(1,2) by (subst pipewrite_loop.simps) (simp add: copyin_byte[OF r(1)] del: One_nat_def)
  also have "\<dots> = Ok (Some (i + 1 + int n)) (upd_pipe pi (fold pipe_put (map (ubyte (mem s) ?pt (addr + of_int (i + 1))) [0..<n]))
      (upd_pipe pi (pipe_put (ubyte (mem s) ?pt ?a 0)) s))"
    using Suc.prems r(2) by (subst Suc.IH) (simp_all add: upd_pipe_def pipe_bytes_put)
  also have "\<dots> = Ok (Some (i + int (Suc n))) (upd_pipe pi (fold pipe_put (map (ubyte (mem s) ?pt ?a) [0..<Suc n])) s)"
    unfolding ubytes_Suc by (simp add: upd_pipe_def add.assoc)
  finally show ?case .
qed

lemma env_upd_pipe [simp]: "env mp L (upd_pipe pi f s) = env mp L s"
  by (simp add: upd_pipe_def body_simps)

lemma env_woken_release:
  assumes e: "env mp {l} s" and l: "\<And>q. l \<noteq> Lproc q"
  shows "wp (bnd (wakeup c s) (\<lambda>_ s. bnd (release l s) (\<lambda>_ s. Ok r s)))
    (\<lambda>a t. a = r \<and> env mp {} t \<and> body t = (body s)\<lparr>procs := woken ({0..<64} - set_option mp) (Some c) (procs s)\<rparr>)"
  unfolding wp_bnd
proof (rule wp_mono[OF wakeup_env[OF e]])
  show "Lproc q \<notin> {l}" for q using l[of q] by auto
  fix a t assume "env mp {l} t \<and> body t = (body s)\<lparr>procs := woken ({0..<64} - set_option mp) (Some c) (procs s)\<rparr>"
  then show "wp (release l t) (\<lambda>_ t. wp (Ok r t) (\<lambda>a t. a = r \<and> env mp {} t \<and>
      body t = (body s)\<lparr>procs := woken ({0..<64} - set_option mp) (Some c) (procs s)\<rparr>))"
    using env_release[of mp "{l}" t l] by (simp add: lock_simps body_simps)
qed

definition woken_others :: "nat \<Rightarrow> chan \<Rightarrow> (nat \<Rightarrow> proc) \<Rightarrow> nat \<Rightarrow> proc" where
  "woken_others p c ps = woken ({0..<64} - {p}) (Some c) ps"

lemma pipewrite_spec:
  assumes e: "env (Some p) {} s" and pt: "pt = p_pagetable (procs s p)" and q: "q = pipes s pi"
    and o: "pi_readopen q" "\<not> p_killed (procs s p)" and n: "0 \<le> n" "length (pipe_bytes q) + nat n \<le> 512"
    and u: "user_range (mem s) pt addr (nat n)" and bs: "bs = map (ubyte (mem s) pt addr) [0..<nat n]"
  shows "wp (pipewrite pi addr n s) (\<lambda>r t. r = n \<and> env (Some p) {} t \<and>
    body t = (body s)\<lparr>pipes := (pipes s)(pi := fold pipe_put bs q), procs := woken_others p (Cpipe_nread pi) (procs s)\<rparr>)"
proof -
  let ?a = "acq (Lpipe pi) (settle s)"
  have ea: "env (Some p) {Lpipe pi} ?a" "acquire (Lpipe pi) (settle s) = Ok () ?a"
    using env_acquire[OF env_settle[OF e], of "Lpipe pi"] by simp_all
  have l: "pipewrite_loop pi p addr (nat n) 0 ?a = Ok (Some n) (upd_pipe pi (fold pipe_put bs) ?a)"
    using pipewrite_loop_copies[of ?a pi p "nat n" addr 0] o n u by (simp add: lock_simps q pt bs)
  have "env (Some p) {Lpipe pi} (upd_pipe pi (fold pipe_put bs) ?a)" using ea by simp
  from env_woken_release[OF this, of "Cpipe_nread pi" n]
  show ?thesis
    by (simp add: pipewrite_def env_curproc[OF e] ea(2) l) (elim wp_mono, simp add: upd_pipe_def lock_simps body_simps q woken_others_def)
qed

section \<open>Reading\<close>

fun pipe_skip :: "nat \<Rightarrow> pipe \<Rightarrow> pipe" where
  "pipe_skip 0 q = q"
| "pipe_skip (Suc n) q = pipe_skip n (snd (pipe_get q))"

lemma pipe_bytes_skip: "n \<le> length (pipe_bytes q) \<Longrightarrow> pipe_bytes (pipe_skip n q) = drop n (pipe_bytes q)"
proof (induction n arbitrary: q)
  case (Suc n)
  then have "pipe_bytes q = fst (pipe_get q) # pipe_bytes (snd (pipe_get q))" by (intro pipe_bytes_get) auto
  then show ?case using Suc.IH[of "snd (pipe_get q)"] Suc.prems by (metis Suc_le_mono drop_Suc_Cons length_Cons pipe_skip.simps(2))
qed simp

lemma plain_range_Suc:
  assumes "plain_range m pt P va (Suc n)"
  shows "plain_range m pt P va 1" and "plain_range m pt P (va + 1) n"
    and "i < n \<Longrightarrow> upa m pt (va + 1 + of_nat i) \<noteq> upa m pt va"
proof -
  have inj: "inj_on (\<lambda>i. upa m pt (va + of_nat i)) {..<Suc n}" and f: "\<And>i. i < Suc n \<Longrightarrow> uva m pt (PGROUNDDOWN (va + of_nat i)) \<notin> P"
    using assms by (auto simp: plain_range_def)
  have e: "va + 1 + of_nat i = va + of_nat (Suc i)" for i by (simp add: add.assoc)
  show "plain_range m pt P va 1" using f[of 0] by (simp add: plain_range_def inj_on_def)
  show "plain_range m pt P (va + 1) n"
    unfolding plain_range_def e using f inj by (auto simp: inj_on_def simp del: of_nat_Suc)
  show "i < n \<Longrightarrow> upa m pt (va + 1 + of_nat i) \<noteq> upa m pt va"
    unfolding e using inj_onD[OF inj, of "Suc i" 0] by (auto simp del: of_nat_Suc)
qed

lemma copied_Cons:
  assumes 1: "copied m m1 pt va [c]" and 2: "copied m1 m' pt (va + 1) cs" and up: "\<And>v. upa m1 pt v = upa m pt v"
    and pl: "plain_range m pt P va (Suc (length cs))"
  shows "copied m m' pt va (c # cs)"
proof -
  have e: "va + 1 + of_nat i = va + of_nat (Suc i)" for i by (simp add: add.assoc)
  have m1: "m1 (upa m pt va) = c" "\<And>x. x \<noteq> upa m pt va \<Longrightarrow> m1 x = m x" using 1 by (auto simp: copied_def)
  have m2: "\<And>i. i < length cs \<Longrightarrow> m' (upa m pt (va + 1 + of_nat i)) = cs ! i"
    "\<And>x. (\<And>i. i < length cs \<Longrightarrow> x \<noteq> upa m pt (va + 1 + of_nat i)) \<Longrightarrow> m' x = m1 x" using 2 by (auto simp: copied_def up)
  have "m' (upa m pt va) = m1 (upa m pt va)" by (rule m2(2)) (rule plain_range_Suc(3)[OF pl, symmetric])
  then have c: "m' (upa m pt va) = c" by (simp add: m1(1))
  have "m' x = m x" if x: "\<forall>i < length (c # cs). x \<noteq> upa m pt (va + of_nat i)" for x
  proof -
    have "x \<noteq> upa m pt va" using x[rule_format, of 0] by simp
    moreover have "x \<noteq> upa m pt (va + 1 + of_nat i)" if "i < length cs" for i
      unfolding e using that by (intro x[rule_format]) simp
    ultimately show ?thesis using m2(2)[of x] m1(2)[of x] by simp
  qed
  moreover have "m' (upa m pt (va + of_nat i)) = (c # cs) ! i" if "i < length (c # cs)" for i
    using that m2(1) c unfolding e by (cases i) (auto simp del: of_nat_Suc)
  ultimately show ?thesis by (auto simp: copied_def)
qed

lemma piperead_copy_moves:
  assumes "pt_ok (mem s) 2 pt P" and "0 \<notin> P" and "plain_range (mem s) pt P (addr + of_int i) n" and "user_range (mem s) pt (addr + of_int i) n"
    and "pt = p_pagetable (procs s pr)" and "n \<le> length (pipe_bytes (pipes s pi))"
  shows "\<exists>m'. piperead_copy pi pr addr n i s = Ok (i + int n) (s\<lparr>mem := m', pipes := (pipes s)(pi := pipe_skip n (pipes s pi))\<rparr>) \<and>
    copied (mem s) m' pt (addr + of_int i) (take n (pipe_bytes (pipes s pi))) \<and> (\<forall>v. uva m' pt v = uva (mem s) pt v)"
  using assms
proof (induction n arbitrary: i s)
  case 0
  then show ?case by (intro exI[of _ "mem s"]) (simp add: copied_def)
next
  case (Suc n)
  let ?q = "pipes s pi" and ?va = "addr + of_int i" and ?ch = "fst (pipe_get (pipes s pi))" and ?q1 = "snd (pipe_get (pipes s pi))"
  have qb: "pipe_bytes ?q = ?ch # pipe_bytes ?q1" using Suc.prems(6) by (intro pipe_bytes_get) auto
  have r: "user_range (mem s) pt ?va 1" "user_range (mem s) pt (?va + 1) n" using Suc.prems(4) user_range_Suc[of "mem s" pt ?va n] by blast+
  note pl = plain_range_Suc[OF Suc.prems(3)]
  obtain m1 where m1: "uwrite (mem s) pt ?va [?ch] = (0, m1)" "\<And>v. uva m1 pt v = uva (mem s) pt v" "pt_ok m1 2 pt P"
    "copied (mem s) m1 pt ?va [?ch]"
    using uwrite_spec[OF Suc.prems(1,2), of ?va "[?ch]"] pl(1) r(1) by auto
  have up: "upa m1 pt v = upa (mem s) pt v" for v using m1(2) by (simp add: upa_def)
  let ?s1 = "s\<lparr>pipes := (pipes s)(pi := ?q1), mem := m1\<rparr>"
  have va: "addr + of_int (i + 1) = ?va + 1" by (simp add: add.assoc)
  have "plain_range m1 pt P (?va + 1) n" "user_range m1 pt (?va + 1) n" using pl(2) r(2) by (simp_all add: plain_range_def user_range_def m1(2) up)
  then have "\<exists>m'. piperead_copy pi pr addr n (i + 1) ?s1 = Ok (i + 1 + int n) (?s1\<lparr>mem := m', pipes := (pipes ?s1)(pi := pipe_skip n (pipes ?s1 pi))\<rparr>) \<and>
    copied (mem ?s1) m' pt (addr + of_int (i + 1)) (take n (pipe_bytes (pipes ?s1 pi))) \<and> (\<forall>v. uva m' pt v = uva (mem ?s1) pt v)"
    by (intro Suc.IH) (use m1(3) Suc.prems(2,5,6) qb in \<open>simp_all add: add.assoc\<close>)
  then obtain m' where m': "piperead_copy pi pr addr n (i + 1) ?s1 = Ok (i + 1 + int n) (?s1\<lparr>mem := m', pipes := (pipes ?s1)(pi := pipe_skip n ?q1)\<rparr>)"
    "copied m1 m' pt (?va + 1) (take n (pipe_bytes ?q1))" "\<forall>v. uva m' pt v = uva m1 pt v"
    unfolding va by (elim exE conjE) (rule that; simp)
  have "\<not> pipe_empty ?q" using pipe_empty_iff[of ?q] qb by simp
  then have st: "piperead_copy pi pr addr (Suc n) i s = piperead_copy pi pr addr n (i + 1) ?s1"
    using Suc.prems(5) m1(1) by (simp add: copyout_eq upd_pipe_def Let_def del: of_int_add)
  have cp: "copied (mem s) m' pt ?va (take (Suc n) (pipe_bytes ?q))"
    unfolding qb take_Suc_Cons using Suc.prems(3,6) qb by (intro copied_Cons[OF m1(4) m'(2) up]) simp
  have "?s1\<lparr>mem := m', pipes := (pipes ?s1)(pi := x)\<rparr> = s\<lparr>mem := m', pipes := (pipes s)(pi := x)\<rparr>" for x by simp
  moreover have "i + 1 + int n = i + int (Suc n)" by simp
  ultimately have "piperead_copy pi pr addr (Suc n) i s = Ok (i + int (Suc n)) (s\<lparr>mem := m', pipes := (pipes s)(pi := pipe_skip (Suc n) ?q)\<rparr>)"
    unfolding pipe_skip.simps using st m'(1) by (simp only:)
  moreover have "\<forall>v. uva m' pt v = uva (mem s) pt v" using m'(3) m1(2) by simp
  ultimately show ?case using cp by blast
qed

lemma piperead_spec:
  assumes e: "env (Some p) {} s" and pt: "pt = p_pagetable (procs s p)" and q: "q = pipes s pi"
    and ok: "pt_ok (mem s) 2 pt P" "0 \<notin> P" and n: "0 < n" "nat n \<le> length (pipe_bytes q)"
    and u: "plain_range (mem s) pt P addr (nat n)" "user_range (mem s) pt addr (nat n)"
  shows "wp (piperead pi addr n s) (\<lambda>r t. r = n \<and> env (Some p) {} t \<and>
    (\<exists>m'. body t = (body s)\<lparr>mem := m', pipes := (pipes s)(pi := pipe_skip (nat n) q), procs := woken_others p (Cpipe_nwrite pi) (procs s)\<rparr> \<and>
      copied (mem s) m' pt addr (take (nat n) (pipe_bytes q)) \<and> (\<forall>v. uva m' pt v = uva (mem s) pt v)))"
proof -
  let ?a = "acq (Lpipe pi) (settle s)"
  have ea: "env (Some p) {Lpipe pi} ?a" "acquire (Lpipe pi) (settle s) = Ok () ?a"
    using env_acquire[OF env_settle[OF e], of "Lpipe pi"] by simp_all
  have "\<not> pipe_empty q" using n pipe_empty_iff[of q] by auto
  then have w: "piperead_wait pi p ?a = Ok True ?a" by (subst piperead_wait.simps) (simp add: lock_simps q)
  obtain m' where l: "piperead_copy pi p addr (nat n) 0 ?a = Ok n (?a\<lparr>mem := m', pipes := (pipes s)(pi := pipe_skip (nat n) q)\<rparr>)"
    and m': "copied (mem s) m' pt addr (take (nat n) (pipe_bytes q))" "\<forall>v. uva m' pt v = uva (mem s) pt v"
    using piperead_copy_moves[of ?a pt P addr 0 "nat n" p pi] ok n u by (auto simp: lock_simps q pt)
  let ?b = "?a\<lparr>mem := m', pipes := (pipes s)(pi := pipe_skip (nat n) q)\<rparr>"
  have "env (Some p) {Lpipe pi} ?b" using ea by (simp add: body_simps)
  note W = env_woken_release[OF this, of "Cpipe_nwrite pi" n]
  have "piperead pi addr n s = bnd (wakeup (Cpipe_nwrite pi) ?b) (\<lambda>_ s. bnd (release (Lpipe pi) s) (\<lambda>_ s. Ok n s))"
    by (simp add: piperead_def env_curproc[OF e] ea(2) w l)
  then show ?thesis using m' by (simp only:) (rule wp_mono[OF W], auto simp: lock_simps body_simps woken_others_def)
qed

section \<open>What is written is read\<close>

text \<open>C27: A pipe delivers bytes in order. When a process writes \<open>n\<close> bytes of its memory to a pipe that has
  room for them, and then reads \<open>k\<close> bytes, at most as many as the pipe then holds, both calls return
  their count, and its memory at the destination holds the first \<open>k\<close> of the bytes that were in the
  pipe followed by those written; the rest stays in the pipe, and other pipes are unchanged.\<close>
theorem pipe_delivers_in_order:
  assumes "env (Some p) {} s" and "pt = p_pagetable (procs s p)" and "pt_ok (mem s) 2 pt P" and "0 \<notin> P"
    and "pi_readopen (pipes s pi)" and "\<not> p_killed (procs s p)"
    and "0 \<le> n" and "length (pipe_bytes (pipes s pi)) + nat n \<le> 512" and "user_range (mem s) pt src (nat n)"
    and "bs = pipe_bytes (pipes s pi) @ map (ubyte (mem s) pt src) [0..<nat n]"
    and "0 < k" and "nat k \<le> length bs" and "user_range (mem s) pt dst (nat k)" and "plain_range (mem s) pt P dst (nat k)"
  shows "\<exists>t u. pipewrite pi src n s = Ok n t \<and> pipe_bytes (pipes t pi) = bs \<and> mem t = mem s \<and>
    piperead pi dst k t = Ok k u \<and> map (ubyte (mem u) pt dst) [0..<nat k] = take (nat k) bs \<and>
    pipe_bytes (pipes u pi) = drop (nat k) bs \<and> (\<forall>pj. pj \<noteq> pi \<longrightarrow> pipes u pj = pipes s pj)"
proof -
  let ?q = "pipes s pi" and ?ws = "map (ubyte (mem s) pt src) [0..<nat n]"
  obtain t where t: "pipewrite pi src n s = Ok n t" "env (Some p) {} t"
    and bt: "body t = (body s)\<lparr>pipes := (pipes s)(pi := fold pipe_put ?ws ?q), procs := woken_others p (Cpipe_nread pi) (procs s)\<rparr>"
    using pipewrite_spec[OF assms(1,2) refl assms(5-9) refl] by (auto simp: wp_iff)
  have f: "mem t = mem s" "pipes t = (pipes s)(pi := fold pipe_put ?ws ?q)" "procs t p = procs s p"
    using body_eqD(12,16,20)[OF bt] by (simp_all add: woken_others_def woken_def)
  have q: "pipe_bytes (pipes t pi) = bs" using pipe_bytes_puts[of ?q ?ws] assms(8,10) by (simp add: f(2))
  obtain u m' where u: "piperead pi dst k t = Ok k u"
    and bu: "body u = (body t)\<lparr>mem := m', pipes := (pipes t)(pi := pipe_skip (nat k) (pipes t pi)), procs := woken_others p (Cpipe_nwrite pi) (procs t)\<rparr>"
    and m': "copied (mem s) m' pt dst (take (nat k) bs)" "\<forall>v. uva m' pt v = uva (mem s) pt v"
    using piperead_spec[OF t(2), of pt "pipes t pi" pi P k dst] assms(2-4,11-14) by (auto simp: f(1,3) q wp_iff)
  have g: "mem u = m'" "pipes u = (pipes t)(pi := pipe_skip (nat k) (pipes t pi))" using body_eqD(16,20)[OF bu] by simp_all
  have "map (ubyte (mem u) pt dst) [0..<nat k] = take (nat k) bs"
    using m' assms(12) by (intro nth_equalityI) (simp_all add: g ubyte_def copied_def upa_def)
  moreover have "pipe_bytes (pipes u pi) = drop (nat k) bs" using pipe_bytes_skip[of "nat k" "pipes t pi"] assms(12) q by (simp add: g)
  ultimately show ?thesis using t(1) u q f g by (intro exI[of _ t] exI[of _ u]) simp
qed

definition pipe_kst :: "memory \<Rightarrow> kst" where
  "pipe_kst m = zero_kst\<lparr>cpus := (\<lambda>_. \<lparr>c_proc = Some 0, c_noff = 0, c_intena = False\<rparr>),
     procs := (\<lambda>_. zero_proc)(0 := zero_proc\<lparr>p_state := RUNNING, p_pagetable := 0x80030000\<rparr>), mem := m,
     pipes := (\<lambda>_. \<lparr>pi_data = (\<lambda>_. 0), pi_nread = 0, pi_nwrite = 0, pi_readopen = True, pi_writeopen = True\<rparr>)\<rparr>"

theorem pipe_delivers_in_order_witness:
  "\<exists>m t u. pipewrite 0x80050000 0x5010 2 (pipe_kst m) = Ok 2 t \<and> length (pipe_bytes (pipes t 0x80050000)) = 2 \<and>
     piperead 0x80050000 0x5010 1 t = Ok 1 u \<and> length (pipe_bytes (pipes u 0x80050000)) = 1"
proof -
  obtain s :: kst and P where s: "pt_ok (mem s) 2 0x80030000 P" "0 \<notin> P" "plain_range (mem s) 0x80030000 P 0x5010 2"
    "user_range (mem s) 0x80030000 0x5010 2" by (rule demo_range)
  let ?s = "pipe_kst (mem s)"
  have f: "mem ?s = mem s" "pipe_bytes (pipes ?s pi) = []" "pi_readopen (pipes ?s pi)" "\<not> p_killed (procs ?s 0)"
    "p_pagetable (procs ?s 0) = 0x80030000" for pi
    by (simp_all add: pipe_kst_def pipe_bytes_def ring_list_def zero_defs)
  have e: "env (Some 0) {} ?s" by (simp add: pipe_kst_def env_def zero_defs)
  have r: "user_range (mem s) 0x80030000 0x5010 1" "plain_range (mem s) 0x80030000 P 0x5010 1"
    using s(3,4) user_range_Suc[of "mem s" "0x80030000" "0x5010" 1] plain_range_Suc(1)[of "mem s" "0x80030000" P "0x5010" 1]
    unfolding Suc_1 by blast+
  show ?thesis
    using pipe_delivers_in_order[where pi = "0x80050000" and n = 2 and src = "0x5010" and k = 1 and dst = "0x5010",
        OF e f(5)[symmetric] _ s(2) f(3,4), unfolded f(1,2), OF s(1)] s(4) r
    by (auto intro!: exI[of _ "mem s"])
qed

end
