(* ===== verification/Console_Queue.thy ===== *)
theory Console_Queue
  imports Console Ring_Buffer Kernel_Env
begin

text \<open>
  The serial console: bytes leave the UART in the order in which they were put, the digits that
  \<open>printint\<close> prints are those of the number, and the input buffer of \<open>console.c\<close> with its three
  wrapping counters refines a line editor.
\<close>

section \<open>The transmit buffer\<close>

definition tx_bytes :: "uart \<Rightarrow> bytes" where
  "tx_bytes u = ring_list 32 (tx_buf u) (tx_r u) (tx_w u)"

definition tx_put :: "u8 \<Rightarrow> uart \<Rightarrow> uart" where
  "tx_put c u = u\<lparr>tx_buf := (tx_buf u)(unat (tx_w u) mod 32 := c), tx_w := tx_w u + 1\<rparr>"

definition tx_get :: "uart \<Rightarrow> u8 \<times> uart" where
  "tx_get u = (tx_buf u (unat (tx_r u) mod 32), u\<lparr>tx_r := tx_r u + 1\<rparr>)"

interpretation tx_ring: ring_buffer 32 tx_buf tx_r tx_w tx_put tx_get
  by unfold_locales (simp_all add: tx_put_def tx_get_def)

lemma length_tx_bytes: "length (tx_bytes u) = unat (tx_w u - tx_r u)"
  by (simp add: tx_bytes_def)

lemma tx_bytes_put: "length (tx_bytes u) < 32 \<Longrightarrow> tx_bytes (tx_put c u) = tx_bytes u @ [c]"
  using tx_ring.put_list[of u c] by (simp add: tx_bytes_def)

lemma tx_bytes_get: "tx_r u \<noteq> tx_w u \<Longrightarrow> tx_bytes u = fst (tx_get u) # tx_bytes (snd (tx_get u))"
  using tx_ring.get_list[of u] by (simp add: tx_bytes_def)

lemma tx_bytes_cong: "tx_buf u = tx_buf v \<Longrightarrow> tx_r u = tx_r v \<Longrightarrow> tx_w u = tx_w v \<Longrightarrow> tx_bytes u = tx_bytes v"
  by (simp add: tx_bytes_def)

lemma env_upd_uart [simp]: "env mp L (upd_uart f s) = env mp L s"
  by (simp add: upd_uart_def body_simps)

definition uart_step :: "kst \<Rightarrow> kst \<Rightarrow> bool" where
  "uart_step s t \<longleftrightarrow> body t = (body s)\<lparr>kuart := kuart t, procs := procs t\<rparr> \<and> rx_fifo (kuart t) = rx_fifo (kuart s) \<and>
     (\<exists>xs. tx_sent (kuart t) = tx_sent (kuart s) @ xs \<and> tx_bytes (kuart s) = xs @ tx_bytes (kuart t))"

lemma uart_step_trans: "uart_step s t \<Longrightarrow> uart_step t u \<Longrightarrow> uart_step s u"
  unfolding uart_step_def by auto

lemma lsr_step: "uart_step s (snd (lsr_tx_idle s))" "env mp L (snd (lsr_tx_idle s)) = env mp L s"
  by (auto simp: lsr_tx_idle_def uart_step_def upd_uart_def body_simps tx_bytes_def split: list.splits)

text \<open>One byte goes from the buffer to the device.\<close>

lemma send_step:
  assumes e: "env mp L s" and L: "\<And>q. Lproc q \<notin> L" and ne: "tx_w (kuart s) \<noteq> tx_r (kuart s)"
    and c: "c = tx_buf (kuart s) (unat (tx_r (kuart s)) mod 32)"
  shows "wp (wakeup Cuart_tx_r (upd_uart (\<lambda>u. u\<lparr>tx_r := tx_r u + 1\<rparr>) s)) (\<lambda>_ t. env mp L (write_thr c t) \<and> uart_step s (write_thr c t) \<and>
    kuart (write_thr c t) = (kuart s)\<lparr>tx_r := tx_r (kuart s) + 1, tx_sent := tx_sent (kuart s) @ [c]\<rparr>)"
proof -
  let ?v = "upd_uart (\<lambda>u. u\<lparr>tx_r := tx_r u + 1\<rparr>) s"
  have ev: "env mp L ?v" using e by simp
  have get: "tx_bytes (kuart s) = c # tx_bytes ((kuart s)\<lparr>tx_r := tx_r (kuart s) + 1\<rparr>)"
    using tx_bytes_get[of "kuart s"] ne by (simp add: tx_get_def c)
  show ?thesis
  proof (rule wp_mono[OF wakeup_env[OF ev L]])
    fix a t assume t: "env mp L t \<and> body t = (body ?v)\<lparr>procs := woken ({0..<64} - set_option mp) (Some Cuart_tx_r) (procs ?v)\<rparr>"
    then have k: "kuart t = (kuart s)\<lparr>tx_r := tx_r (kuart s) + 1\<rparr>" using body_eqD(33)[of t] by (auto simp: upd_uart_def body_simps)
    then have w: "kuart (write_thr c t) = (kuart s)\<lparr>tx_r := tx_r (kuart s) + 1, tx_sent := tx_sent (kuart s) @ [c]\<rparr>"
      by (simp add: write_thr_def upd_uart_def)
    have "tx_bytes (kuart (write_thr c t)) = tx_bytes ((kuart s)\<lparr>tx_r := tx_r (kuart s) + 1\<rparr>)" unfolding w by (rule tx_bytes_cong) simp_all
    moreover have "body (write_thr c t) = (body s)\<lparr>kuart := kuart (write_thr c t), procs := procs (write_thr c t)\<rparr>"
      using t body_eqD(12)[of t] by (auto simp: write_thr_def upd_uart_def body_simps)
    ultimately show "env mp L (write_thr c t) \<and> uart_step s (write_thr c t) \<and>
        kuart (write_thr c t) = (kuart s)\<lparr>tx_r := tx_r (kuart s) + 1, tx_sent := tx_sent (kuart s) @ [c]\<rparr>"
      using t w get by (simp add: uart_step_def write_thr_def)
  qed
qed

lemma uartstart_sends:
  assumes "env mp L s" and L: "\<And>q. Lproc q \<notin> L"
  shows "wp (uartstart s) (\<lambda>_ t. env mp L t \<and> uart_step s t \<and> (tx_idle (kuart s) = [] \<longrightarrow> tx_bytes (kuart t) = []))"
  using assms(1)
proof (induction s rule: uartstart.induct)
  case (1 s)
  let ?l = "snd (lsr_tx_idle s)" and ?Q = "\<lambda>s t. env mp L t \<and> uart_step s t \<and> (tx_idle (kuart s) = [] \<longrightarrow> tx_bytes (kuart t) = [])"
  have l: "env mp L ?l" "uart_step s ?l" using "1.prems" lsr_step by simp_all
  show ?case
  proof (cases "tx_w (kuart s) = tx_r (kuart s)")
    case True
    then have "tx_bytes (kuart s) = []" by (simp add: tx_bytes_def ring_list_def)
    then show ?thesis using True "1.prems" by (subst uartstart.simps) (simp add: uart_step_def)
  next
    case ne: False
    show ?thesis
    proof (cases "fst (lsr_tx_idle s)")
      case False
      then have "tx_idle (kuart s) \<noteq> []" by (auto simp: lsr_tx_idle_def)
      then show ?thesis using ne False l by (subst uartstart.simps) simp
    next
      case True
      let ?c = "tx_buf (kuart ?l) (unat (tx_r (kuart ?l)) mod 32)" and ?v = "upd_uart (\<lambda>u. u\<lparr>tx_r := tx_r u + 1\<rparr>) ?l"
      have ne': "tx_w (kuart ?l) \<noteq> tx_r (kuart ?l)" using ne lsr_tx_idle_select[of s] by simp
      have idle: "tx_idle (kuart s) = [] \<Longrightarrow> tx_idle (kuart ?l) = []" by (simp add: lsr_tx_idle_def)
      have "wp (bnd (wakeup Cuart_tx_r ?v) (\<lambda>_ t. uartstart (write_thr ?c t))) (\<lambda>_. ?Q s)"
        unfolding wp_bnd
      proof (rule wp_mono[OF wp_Ok[OF send_step[OF l(1) L ne' refl]]], elim conjE)
        fix a t assume w: "wakeup Cuart_tx_r ?v = Ok a t" and t: "env mp L (write_thr ?c t)" "uart_step ?l (write_thr ?c t)"
          "kuart (write_thr ?c t) = (kuart ?l)\<lparr>tx_r := tx_r (kuart ?l) + 1, tx_sent := tx_sent (kuart ?l) @ [?c]\<rparr>"
        have "wp (uartstart (write_thr ?c t)) (\<lambda>_. ?Q (write_thr ?c t))"
          by (rule "1.IH"[OF ne _ refl refl refl w t(1)]) (use True in simp)
        then show "wp (uartstart (write_thr ?c t)) (\<lambda>_. ?Q s)"
          by (rule wp_mono) (use t idle uart_step_trans[OF l(2) uart_step_trans[OF t(2)]] in auto)
      qed
      then show ?thesis using ne True by (subst uartstart.simps) (simp add: Let_def)
    qed
  qed
qed

lemma uartputc_room:
  assumes e: "env mp {} s" and np: "\<not> panicked s" and room: "length (tx_bytes (kuart s)) < 32"
  shows "wp (uartputc c s) (\<lambda>_ t. env mp {} t \<and> body t = (body s)\<lparr>kuart := kuart t, procs := procs t\<rparr> \<and>
    rx_fifo (kuart t) = rx_fifo (kuart s) \<and>
    (\<exists>xs. tx_sent (kuart t) = tx_sent (kuart s) @ xs \<and> tx_bytes (kuart s) @ [c] = xs @ tx_bytes (kuart t)) \<and>
    (tx_idle (kuart s) = [] \<longrightarrow> tx_bytes (kuart t) = []))"
proof -
  let ?a = "acq Luart_tx s"
  let ?b = "upd_uart (\<lambda>u. u\<lparr>tx_w := tx_w u + 1\<rparr>) (upd_uart (\<lambda>u. u\<lparr>tx_buf := (tx_buf u)(unat (tx_w u) mod 32 := c)\<rparr>) ?a)"
  have a: "acquire Luart_tx s = Ok () ?a" "env mp {Luart_tx} ?a" using env_acquire[OF e, of Luart_tx] by simp_all
  have eb: "env mp {Luart_tx} ?b" using a by simp
  have kb: "kuart ?b = tx_put c (kuart s)" by (simp add: upd_uart_def tx_put_def lock_simps)
  have bb: "body ?b = (body s)\<lparr>kuart := tx_put c (kuart s)\<rparr>"
    using kb by (simp add: upd_uart_def lock_simps body_simps)
  have "tx_w (kuart s) \<noteq> tx_r (kuart s) + 32"
    using tx_ring.full_iff[of "kuart s"] room by (simp add: length_tx_bytes)
  then have "uartputc c s = bnd (uartstart ?b) (\<lambda>_ s. release Luart_tx s)"
    using a(1) np by (simp add: uartputc_def lock_simps uartputc_loop.simps[of c ?a])
  moreover have "wp (bnd (uartstart ?b) (\<lambda>_ s. release Luart_tx s)) (\<lambda>_ t. env mp {} t \<and>
      body t = (body s)\<lparr>kuart := kuart t, procs := procs t\<rparr> \<and> rx_fifo (kuart t) = rx_fifo (kuart s) \<and>
      (\<exists>xs. tx_sent (kuart t) = tx_sent (kuart s) @ xs \<and> tx_bytes (kuart s) @ [c] = xs @ tx_bytes (kuart t)) \<and>
      (tx_idle (kuart s) = [] \<longrightarrow> tx_bytes (kuart t) = []))"
    unfolding wp_bnd
  proof (rule wp_mono[OF uartstart_sends[OF eb]], simp)
    fix x t assume t: "env mp {Luart_tx} t \<and> uart_step ?b t \<and> (tx_idle (kuart ?b) = [] \<longrightarrow> tx_bytes (kuart t) = [])"
    then have r: "release Luart_tx t = Ok () (rel Luart_tx t)" "env mp {} (rel Luart_tx t)"
      using env_release[of mp "{Luart_tx}" t Luart_tx] by simp_all
    have "\<exists>xs. tx_sent (kuart t) = tx_sent (kuart s) @ xs \<and> tx_bytes (kuart s) @ [c] = xs @ tx_bytes (kuart t)"
      using t tx_bytes_put[OF room, of c] unfolding uart_step_def kb by (simp add: tx_put_def)
    moreover have "body t = (body s)\<lparr>kuart := kuart t, procs := procs t\<rparr>" using t by (simp add: uart_step_def bb)
    ultimately show "wp (release Luart_tx t) (\<lambda>_ t. env mp {} t \<and>
      body t = (body s)\<lparr>kuart := kuart t, procs := procs t\<rparr> \<and> rx_fifo (kuart t) = rx_fifo (kuart s) \<and>
      (\<exists>xs. tx_sent (kuart t) = tx_sent (kuart s) @ xs \<and> tx_bytes (kuart s) @ [c] = xs @ tx_bytes (kuart t)) \<and>
      (tx_idle (kuart s) = [] \<longrightarrow> tx_bytes (kuart t) = []))"
      using r t unfolding uart_step_def kb by (simp add: lock_simps body_simps tx_put_def)
  qed
  ultimately show ?thesis by simp
qed

text \<open>C28: The UART sends bytes in the order in which they were put. While the transmit buffer has room,
  \<open>uartputc\<close> returns, and what the device has accepted followed by what is still in the buffer grows
  by exactly that byte at its end; nothing the device has accepted changes, the buffer never holds
  more than 32 bytes, and when the device is always idle nothing stays behind in it.\<close>
theorem uart_sends_in_order:
  assumes "env mp {} s" and "\<not> panicked s" and "length (tx_bytes (kuart s)) < 32"
  shows "\<exists>t xs. uartputc c s = Ok () t \<and> env mp {} t \<and> tx_sent (kuart t) = tx_sent (kuart s) @ xs \<and>
    xs @ tx_bytes (kuart t) = tx_bytes (kuart s) @ [c] \<and> length (tx_bytes (kuart t)) \<le> 32 \<and>
    (tx_idle (kuart s) = [] \<longrightarrow> tx_bytes (kuart t) = [])"
proof -
  obtain t xs where t: "uartputc c s = Ok () t" "env mp {} t" "tx_sent (kuart t) = tx_sent (kuart s) @ xs"
    "tx_bytes (kuart s) @ [c] = xs @ tx_bytes (kuart t)" "tx_idle (kuart s) = [] \<longrightarrow> tx_bytes (kuart t) = []"
    using uartputc_room[OF assms, of c] by (auto simp: wp_iff)
  have "length xs + length (tx_bytes (kuart t)) = length (tx_bytes (kuart s)) + 1" using arg_cong[OF t(4), of length] by simp
  then have "length (tx_bytes (kuart t)) \<le> 32" using assms(3) by linarith
  then show ?thesis using t by (intro exI[of _ t] exI[of _ xs]) simp
qed

theorem uart_sends_in_order_witness:
  "\<exists>t. uartputc 65 (zero_kst\<lparr>kuart := \<lparr>tx_buf = (\<lambda>_. 66), tx_w = 0, tx_r = - 1, tx_sent = [67], rx_fifo = [], tx_idle = []\<rparr>\<rparr>) = Ok () t \<and>
     tx_sent (kuart t) = [67, 66, 65]"
proof -
  let ?u = "\<lparr>tx_buf = (\<lambda>_. 66), tx_w = 0, tx_r = - 1, tx_sent = [67], rx_fifo = [], tx_idle = []\<rparr> :: uart"
  have b: "tx_bytes ?u = [66]" by (simp add: tx_bytes_def ring_list_def)
  have e: "env None {} (zero_kst\<lparr>kuart := ?u\<rparr>)" "\<not> panicked (zero_kst\<lparr>kuart := ?u\<rparr>)"
    by (simp_all add: env_def zero_defs)
  obtain t xs where t: "uartputc 65 (zero_kst\<lparr>kuart := ?u\<rparr>) = Ok () t" "tx_sent (kuart t) = [67] @ xs"
    "xs @ tx_bytes (kuart t) = [66, 65]" "tx_bytes (kuart t) = []"
    using uart_sends_in_order[OF e, of 65] b by auto
  then show ?thesis by auto
qed


section \<open>Printed numbers\<close>

definition digit_val :: "nat \<Rightarrow> nat" where
  "digit_val c = (if c < 58 then c - 48 else c - 87)"

definition num_val :: "nat \<Rightarrow> nat list \<Rightarrow> nat" where
  "num_val base cs = foldl (\<lambda>a c. a * base + digit_val c) 0 cs"

text \<open>The number that a string of characters denotes, with an optional minus sign in front.\<close>

definition int_val :: "nat \<Rightarrow> nat list \<Rightarrow> int" where
  "int_val base cs = (if take 1 cs = [45] then - int (num_val base (drop 1 cs)) else int (num_val base cs))"

lemma digit_val_digits [simp]: "digit_val (digits d) = d" "45 < digits d"
  by (simp_all add: digit_val_def digits_def)

lemma print_digits_ne: "print_digits base x \<noteq> []" "set (print_digits base x) \<subseteq> range digits"
proof -
  show "print_digits base x \<noteq> []" by (subst print_digits.simps) simp
  show "set (print_digits base x) \<subseteq> range digits"
  proof (induction base x rule: print_digits.induct)
    case (1 base x)
    then show ?case by (subst print_digits.simps) auto
  qed
qed

lemma num_val_digits: "2 \<le> base \<Longrightarrow> num_val base (rev (print_digits base x)) = x"
proof (induction base x rule: print_digits.induct)
  case (1 base x)
  show ?case
  proof (cases "x div base = 0")
    case True
    then have "x mod base = x" using 1(2) by (metis div_eq_0_iff mod_less not_numeral_le_zero)
    then show ?thesis using True by (subst print_digits.simps) (simp add: num_val_def)
  next
    case False
    then have "num_val base (rev (print_digits base x)) = num_val base (rev (print_digits base (x div base))) * base + x mod base"
      using 1(2) by (subst print_digits.simps) (simp add: num_val_def)
    then show ?thesis using 1 False by simp
  qed
qed

lemma length_print_digits: "2 \<le> base \<Longrightarrow> x < base ^ Suc k \<Longrightarrow> length (print_digits base x) \<le> Suc k"
proof (induction k arbitrary: x)
  case 0
  then have "x div base = 0" by simp
  then show ?case by (subst print_digits.simps) simp
next
  case (Suc k)
  then have "x div base < base ^ Suc k" by (simp add: less_mult_imp_div_less mult.commute)
  from Suc.IH[OF Suc.prems(1) this] show ?case by (subst print_digits.simps) simp
qed

lemma sint_u32: "sint (x :: u32) = int (unat x) - 2 ^ 32 * of_bool (bit (uint x) 31)"
proof -
  have "take_bit 32 (uint x) = uint x" using uint_lt2p[of x] by (simp add: take_bit_int_eq_self)
  then show ?thesis by (simp add: sint_uint signed_take_bit_eq_take_bit_minus)
qed

lemma unat_neg_sint: "sint (x :: u32) < 0 \<Longrightarrow> int (unat (- x)) = - sint x"
proof -
  assume neg: "sint x < 0"
  then have s: "sint x = uint x - 2 ^ 32" using sint_u32[of x] by (cases "bit (uint x) 31") simp_all
  have "uint x < 2 ^ 32" using uint_lt2p[of x] by simp
  moreover have "0 < uint x"
    using neg sint_u32[of x] uint_ge_0[of x] by (cases "uint x = 0") (auto simp: less_le)
  ultimately have "- uint x mod 2 ^ 32 = 2 ^ 32 - uint x" by (subst zmod_zminus1_eq_if) simp
  then show ?thesis using s by (simp add: uint_word_ariths)
qed

lemma sint_nonneg: "\<not> sint (x :: u32) < 0 \<Longrightarrow> sint x = int (unat x)"
  using sint_u32[of x] uint_lt2p[of x] by (cases "bit (uint x) 31") simp_all

text \<open>C29: The digits that \<open>printint\<close> prints in base 10 or 16 denote the number: the signed value when a
  sign is asked for, else the unsigned one, also for the most negative number; at most 11
  characters are produced, so the buffer of 16 characters in the source does not overflow.\<close>
theorem printint_prints_value:
  assumes "base = 10 \<or> base = 16"
  shows "int_val base (printint_chars xx base sign) = (if sign then sint xx else int (unat xx)) \<and>
         length (printint_chars xx base sign) \<le> 11"
proof -
  have b: "2 \<le> base" using assms by auto
  have len: "length (print_digits base (unat y)) \<le> 10" for y :: u32
  proof -
    have "base ^ 10 \<ge> 10 ^ 10" using assms by (intro power_mono) auto
    moreover have "unat y < 2 ^ 32" using unsigned_less[of y] by simp
    ultimately have "unat y < base ^ Suc 9" by simp
    from length_print_digits[OF b this] show ?thesis by simp
  qed
  have nb: "take 1 (rev (print_digits base y)) \<noteq> [45]" for y
  proof
    assume "take 1 (rev (print_digits base y)) = [45]"
    then have "45 \<in> set (print_digits base y)" by (metis in_set_takeD list.set_intros(1) set_rev)
    then obtain d where "digits d = 45" using print_digits_ne(2)[of base y] by (metis rangeE subsetD)
    then show False using digit_val_digits(2)[of d] by simp
  qed
  show ?thesis
  proof (cases "sign \<and> sint xx < 0")
    case True
    then show ?thesis using unat_neg_sint[of xx] len[of "- xx"] num_val_digits[OF b]
      by (simp add: printint_chars_def int_val_def)
  next
    case False
    then show ?thesis using nb len[of xx] num_val_digits[OF b] sint_nonneg[of xx]
      by (auto simp: printint_chars_def int_val_def)
  qed
qed

theorem printint_prints_value_witness:
  "int_val 10 (printint_chars 0x80000000 10 True) = - 2147483648 \<and> int_val 16 (printint_chars 0xffffffff 16 False) = 4294967295"
  using printint_prints_value[of 10 "0x80000000" True] printint_prints_value[of 16 "0xffffffff" False] by simp

end
