(* ===== verification/Console_Line.thy ===== *)
theory Console_Line
  imports Console_Queue
begin

text \<open>
  The input side of \<open>console.c\<close> as a line editor. The counters \<open>r\<close>, \<open>w\<close> and \<open>e\<close> divide the circular buffer
  into the bytes that \<open>consoleread\<close> may take and the line being edited; \<open>consoleintr\<close> refines a
  function on these two lists.
\<close>

section \<open>Echoing\<close>

definition uart_only :: "kst \<Rightarrow> kst \<Rightarrow> bool" where
  "uart_only s t \<longleftrightarrow> body t = (body s)\<lparr>kuart := kuart t\<rparr>"

lemma uart_only_trans: "uart_only s t \<Longrightarrow> uart_only t u \<Longrightarrow> uart_only s u"
  unfolding uart_only_def by auto

lemma uart_only_refl [simp]: "uart_only s s"
  by (simp add: uart_only_def)

lemma uart_onlyD: "uart_only s t \<Longrightarrow> panicked t = panicked s" "uart_only s t \<Longrightarrow> kcons t = kcons s"
  "uart_only s t \<Longrightarrow> pr_locking t = pr_locking s" "uart_only s t \<Longrightarrow> procs t = procs s"
  unfolding uart_only_def using body_eqD(12,32,34,35)[of t] by auto

lemma uartputc_sync_eq:
  assumes "cpu_ok s" and "\<not> panicked s"
  shows "uartputc_sync c s = Ok () (write_thr c (spin_tx_idle (settle s)))"
  using noff_cases[OF assms(1)] assms(2)
  by (auto simp: uartputc_sync_def push_off_def pop_off_def settle_def mycpu_def cpuid_def upd_cpu_def write_thr_def
      spin_tx_idle_def upd_uart_def intr_off_def intr_on_def intr_get_def word_simps lock_simps Let_def)

lemma uartputc_sync_env:
  assumes "env mp L s" and "\<not> panicked s"
  shows "wp (uartputc_sync c s) (\<lambda>_ t. env mp L t \<and> uart_only s t)"
  using env_settle[OF assms(1)] uartputc_sync_eq[OF env_cpu_ok[OF assms(1)] assms(2)]
  by (simp add: write_thr_def spin_tx_idle_def uart_only_def upd_uart_def body_simps lock_simps)

lemma uart_bnd:
  assumes "wp m (\<lambda>_ t. env mp L t \<and> uart_only s t)" and "\<not> panicked s"
    and "\<And>a t. env mp L t \<Longrightarrow> \<not> panicked t \<Longrightarrow> wp (f a t) (\<lambda>_ u. env mp L u \<and> uart_only t u)"
  shows "wp (bnd m f) (\<lambda>_ u. env mp L u \<and> uart_only s u)"
  unfolding wp_bnd
  by (rule wp_mono[OF assms(1)], rule wp_mono[OF assms(3)]) (use assms(2) in \<open>auto simp: uart_onlyD elim: uart_only_trans\<close>)

lemma consputc_env:
  assumes "env mp L s" and "\<not> panicked s"
  shows "wp (consputc c s) (\<lambda>_ t. env mp L t \<and> uart_only s t)"
  using assms by (auto simp: consputc_def intro!: uart_bnd uartputc_sync_env)

lemma puts_env:
  assumes "env mp L s" and "\<not> panicked s"
  shows "wp (for_each cs consputc s) (\<lambda>_ t. env mp L t \<and> uart_only s t)"
  using assms by (induction cs arbitrary: s) (auto intro!: uart_bnd consputc_env)

lemma printf_env:
  assumes "env mp L s" and "\<not> panicked s" and "Lpr \<notin> L"
    and body: "\<And>t L'. env mp L' t \<Longrightarrow> \<not> panicked t \<Longrightarrow> wp (printf_loop fmt ap t) (\<lambda>_ u. env mp L' u \<and> uart_only t u)"
  shows "wp (printf fmt ap s) (\<lambda>_ t. env mp L t \<and> uart_only s t)"
proof (cases "pr_locking s")
  case False
  then show ?thesis using body[OF assms(1,2)] by (auto simp: printf_def Let_def intro!: uart_bnd assms)
next
  case True
  have a: "acquire Lpr s = Ok () (acq Lpr s)" "env mp (insert Lpr L) (acq Lpr s)" using env_acquire[OF assms(1,3)] .
  have "wp (bnd (printf_loop fmt ap (acq Lpr s)) (\<lambda>_ s. release Lpr s)) (\<lambda>_ t. env mp L t \<and> uart_only s t)"
    unfolding wp_bnd
  proof (rule wp_mono[OF body[OF a(2)]])
    fix x t assume t: "env mp (insert Lpr L) t \<and> uart_only (acq Lpr s) t"
    then show "wp (release Lpr t) (\<lambda>_ t. env mp L t \<and> uart_only s t)"
      using env_release[of mp "insert Lpr L" t Lpr] assms(3) by (simp add: uart_only_def lock_simps body_simps)
  qed (use assms(2) in \<open>simp add: lock_simps\<close>)
  then show ?thesis using True by (simp add: printf_def a)
qed

lemma procdump_env:
  assumes "env mp L s" and "\<not> panicked s" and "Lpr \<notin> L"
  shows "wp (procdump s) (\<lambda>_ t. env mp L t \<and> uart_only s t)"
proof -
  have nl: "wp (printf [10] [] t) (\<lambda>_ u. env mp L u \<and> uart_only t u)" if "env mp L t" "\<not> panicked t" for t
    using that assms(3) by (intro printf_env) (auto intro!: consputc_env)
  have row: "wp (printf [37, 100, 32, 37, 115, 32, 37, 115] [VInt a, VStr (Some x), VStr (Some y)] t) (\<lambda>_ u. env mp L u \<and> uart_only t u)"
    if "env mp L t" "\<not> panicked t" for t a x y
    using that assms(3) by (intro printf_env) (auto simp: printint_def intro!: consputc_env puts_env uart_bnd)
  have "wp (for_each ps (\<lambda>p s. if p_state (procs s p) = UNUSED then Ok () s
       else bnd (printf [37, 100, 32, 37, 115, 32, 37, 115]
                [VInt (of_int (p_pid (procs s p))), VStr (Some (state_name (p_state (procs s p)))),
                 VStr (Some (takeWhile (\<lambda>c. c \<noteq> 0) (p_name (procs s p))))] s) (\<lambda>_ s. printf [10] [] s)) t)
      (\<lambda>_ u. env mp L u \<and> uart_only t u)" if "env mp L t" "\<not> panicked t" for ps t
    using that by (induction ps arbitrary: t) (auto intro!: uart_bnd row nl)
  then show ?thesis unfolding procdump_def by (intro uart_bnd nl assms) auto
qed

section \<open>The three counters\<close>

definition cons_done :: "cons \<Rightarrow> bytes" where
  "cons_done x = ring_list 128 (cons_buf x) (cons_r x) (cons_w x)"

definition cons_line :: "cons \<Rightarrow> bytes" where
  "cons_line x = ring_list 128 (cons_buf x) (cons_w x) (cons_e x)"

definition cons_ok :: "cons \<Rightarrow> bool" where
  "cons_ok x \<longleftrightarrow> length (cons_done x) + length (cons_line x) \<le> 128"

definition cons_put :: "u8 \<Rightarrow> cons \<Rightarrow> cons" where
  "cons_put c x = x\<lparr>cons_buf := (cons_buf x)(unat (cons_e x) mod 128 := c), cons_e := cons_e x + 1\<rparr>"

definition cons_get :: "cons \<Rightarrow> u8 \<times> cons" where
  "cons_get x = (cons_buf x (unat (cons_r x) mod 128), x\<lparr>cons_r := cons_r x + 1\<rparr>)"

interpretation cons_ring: ring_buffer 128 cons_buf cons_r cons_e cons_put cons_get
  by unfold_locales (simp_all add: cons_put_def cons_get_def)

lemma cons_lengths: "length (cons_done x) = unat (cons_w x - cons_r x)" "length (cons_line x) = unat (cons_e x - cons_w x)"
  by (simp_all add: cons_done_def cons_line_def)

lemma cons_size: "cons_ok x \<Longrightarrow> unat (cons_e x - cons_r x) = length (cons_done x) + length (cons_line x)"
proof -
  assume ok: "cons_ok x"
  have "cons_e x - cons_r x = (cons_w x - cons_r x) + (cons_e x - cons_w x)" by simp
  then show ?thesis using ok unfolding cons_ok_def cons_lengths by (simp only: unat_word_ariths) simp
qed

lemma cons_whole: "cons_ok x \<Longrightarrow> ring_list 128 (cons_buf x) (cons_r x) (cons_e x) = cons_done x @ cons_line x"
proof -
  assume ok: "cons_ok x"
  let ?n = "unat (cons_w x - cons_r x)" and ?m = "unat (cons_e x - cons_w x)"
  have "cons_r x + of_nat (?n + i) = cons_w x + of_nat i" for i by simp
  then have "map (\<lambda>i. cons_buf x (unat (cons_r x + of_nat i) mod 128)) [?n..<?n + ?m] = cons_line x"
    by (intro nth_equalityI) (simp_all add: cons_line_def ring_list_def del: of_nat_add)
  then show ?thesis
    using cons_size[OF ok] upt_add_eq_append[of 0 ?n ?m] by (simp add: ring_list_def cons_lengths cons_done_def)
qed

lemma cons_put_lists:
  assumes ok: "cons_ok x" and room: "length (cons_done x) + length (cons_line x) < 128"
  shows "cons_done (cons_put c x) = cons_done x" and "cons_line (cons_put c x) = cons_line x @ [c]" and "cons_ok (cons_put c x)"
proof -
  have ld: "length (cons_done (cons_put c x)) = length (cons_done x)" by (simp add: cons_lengths cons_put_def)
  have ll: "length (cons_line (cons_put c x)) = Suc (length (cons_line x))"
  proof -
    have "unat (cons_e x - cons_w x) + 1 < 2 ^ LENGTH(32)" using room by (simp add: cons_lengths)
    note inc = unat_inc[OF this]
    have "cons_e (cons_put c x) - cons_w (cons_put c x) = cons_e x - cons_w x + 1" by (simp add: cons_put_def)
    then show ?thesis unfolding cons_lengths by (simp only: inc)
  qed
  have sz: "unat (cons_e x - cons_r x) < 128" using cons_size[OF ok] room by simp
  show ok': "cons_ok (cons_put c x)" using room by (simp add: cons_ok_def ld ll)
  have "cons_done (cons_put c x) @ cons_line (cons_put c x) = cons_done x @ cons_line x @ [c]"
    using cons_ring.put_list[OF sz, of c] unfolding cons_whole[OF ok] cons_whole[OF ok'] append_assoc .
  then have "cons_done (cons_put c x) = cons_done x \<and> cons_line (cons_put c x) = cons_line x @ [c]"
    using append_eq_append_conv[OF disjI1[OF ld]] by blast
  then show "cons_done (cons_put c x) = cons_done x" "cons_line (cons_put c x) = cons_line x @ [c]" by blast+
qed

lemma cons_unput_lists:
  assumes "cons_e x \<noteq> cons_w x"
  shows "cons_done (x\<lparr>cons_e := cons_e x - 1\<rparr>) = cons_done x" and "cons_line (x\<lparr>cons_e := cons_e x - 1\<rparr>) = butlast (cons_line x)"
    and "cons_line x \<noteq> []" and "cons_buf x (unat (cons_e x - 1) mod 128) = last (cons_line x)"
proof -
  have n: "unat (cons_e x - cons_w x) = Suc (unat (cons_e x - 1 - cons_w x))"
    using unat_dec[of "cons_e x - cons_w x"] assms by (simp add: algebra_simps)
  show "cons_done (x\<lparr>cons_e := cons_e x - 1\<rparr>) = cons_done x" by (simp add: cons_done_def)
  show "cons_line (x\<lparr>cons_e := cons_e x - 1\<rparr>) = butlast (cons_line x)" using n by (simp add: cons_line_def ring_list_def)
  show "cons_line x \<noteq> []" using n by (simp add: cons_line_def ring_list_def)
  show "cons_buf x (unat (cons_e x - 1) mod 128) = last (cons_line x)" using n by (simp add: cons_line_def ring_list_def)
qed

lemma cons_line_empty: "cons_e x = cons_w x \<longleftrightarrow> cons_line x = []"
proof (cases "cons_e x = cons_w x")
  case True
  then show ?thesis by (simp add: cons_line_def ring_list_def)
next
  case False
  then show ?thesis using cons_unput_lists(3)[OF False] by simp
qed

lemma cons_commit_lists:
  "cons_ok x \<Longrightarrow> cons_done (x\<lparr>cons_w := cons_e x\<rparr>) = cons_done x @ cons_line x" "cons_line (x\<lparr>cons_w := cons_e x\<rparr>) = []"
  "cons_ok x \<Longrightarrow> cons_ok (x\<lparr>cons_w := cons_e x\<rparr>)"
proof -
  show l: "cons_line (x\<lparr>cons_w := cons_e x\<rparr>) = []" by (simp add: cons_line_def ring_list_def)
  show d: "cons_done (x\<lparr>cons_w := cons_e x\<rparr>) = cons_done x @ cons_line x" if "cons_ok x"
    using cons_whole[OF that] by (simp add: cons_done_def)
  show "cons_ok (x\<lparr>cons_w := cons_e x\<rparr>)" if "cons_ok x" using that unfolding cons_ok_def d[OF that] l by simp
qed

section \<open>The line editor\<close>

fun line_edit :: "u8 \<Rightarrow> bytes \<times> bytes \<Rightarrow> bytes \<times> bytes" where
  "line_edit c (got, line) =
     (if c = 16 then (got, line)
      else if c = 21 then (got, rev (dropWhile (\<lambda>x. x \<noteq> 10) (rev line)))
      else if c = 8 \<or> c = 127 then (got, butlast line)
      else if c = 0 \<or> length got + length line \<ge> 128 then (got, line)
      else let line' = line @ [if c = 13 then 10 else c] in
        if last line' = 10 \<or> c = 4 \<or> length got + length line' = 128 then (got @ line', []) else (got, line'))"

definition cons_abs :: "cons \<Rightarrow> bytes \<times> bytes" where
  "cons_abs x = (cons_done x, cons_line x)"

lemma env_upd_cons [simp]: "env mp L (upd_cons f s) = env mp L s" "kcons (upd_cons f s) = f (kcons s)"
  "panicked (upd_cons f s) = panicked s"
  by (simp_all add: upd_cons_def body_simps)

lemma kill_line_edits:
  assumes "env mp L s" and "\<not> panicked s" and "cons_ok (kcons s)"
  shows "wp (kill_line s) (\<lambda>_ t. env mp L t \<and> cons_ok (kcons t) \<and>
    cons_abs (kcons t) = (cons_done (kcons s), rev (dropWhile (\<lambda>x. x \<noteq> 10) (rev (cons_line (kcons s))))))"
  using assms
proof (induction s rule: kill_line.induct)
  case (1 s)
  let ?x = "kcons s" and ?s = "upd_cons (\<lambda>x. x\<lparr>cons_e := cons_e x - 1\<rparr>) s"
  show ?case
  proof (cases "cons_e ?x \<noteq> cons_w ?x \<and> cons_buf ?x (unat (cons_e ?x - 1) mod 128) \<noteq> 10")
    case False
    then have "cons_line ?x = [] \<or> last (cons_line ?x) = 10" using cons_line_empty[of ?x] cons_unput_lists(4)[of ?x] by auto
    then have "rev (dropWhile (\<lambda>x. x \<noteq> 10) (rev (cons_line ?x))) = cons_line ?x"
      by (cases "cons_line ?x" rule: rev_cases) auto
    then show ?thesis using "1.prems" False by (subst kill_line.simps) (auto simp: cons_abs_def)
  next
    case True
    then have u: "cons_done (kcons ?s) = cons_done ?x" "cons_line (kcons ?s) = butlast (cons_line ?x)" "cons_line ?x \<noteq> []"
      "last (cons_line ?x) \<noteq> 10" using cons_unput_lists[of ?x] by auto
    have ok: "cons_ok (kcons ?s)" using "1.prems"(3) u by (simp add: cons_ok_def)
    have "wp (bnd (consputc 256 ?s) (\<lambda>_ s. kill_line s)) (\<lambda>_ t. env mp L t \<and> cons_ok (kcons t) \<and>
        cons_abs (kcons t) = (cons_done ?x, rev (dropWhile (\<lambda>x. x \<noteq> 10) (rev (cons_line ?x)))))"
      unfolding wp_bnd
    proof (rule wp_mono[OF wp_Ok[OF consputc_env[of mp L ?s 256]]])
      fix a t assume t: "consputc 256 ?s = Ok a t \<and> env mp L t \<and> uart_only ?s t"
      then have k: "kcons t = kcons ?s" "panicked t = panicked ?s" by (auto dest: uart_onlyD)
      have "dropWhile (\<lambda>x. x \<noteq> 10) (rev (cons_line ?x)) = dropWhile (\<lambda>x. x \<noteq> 10) (rev (butlast (cons_line ?x)))"
        using u(3,4) by (cases "cons_line ?x" rule: rev_cases) auto
      moreover have "wp (kill_line t) (\<lambda>_ v. env mp L v \<and> cons_ok (kcons v) \<and>
          cons_abs (kcons v) = (cons_done (kcons t), rev (dropWhile (\<lambda>x. x \<noteq> 10) (rev (cons_line (kcons t))))))"
        by (rule "1.IH"[OF True refl]) (use t k ok "1.prems"(2) in auto)
      ultimately show "wp (kill_line t) (\<lambda>_ v. env mp L v \<and> cons_ok (kcons v) \<and>
          cons_abs (kcons v) = (cons_done ?x, rev (dropWhile (\<lambda>x. x \<noteq> 10) (rev (cons_line ?x)))))"
        by (simp only: k u)
    qed (use "1.prems" in simp_all)
    then show ?thesis using True by (subst kill_line.simps) (simp add: Let_def)
  qed
qed

text \<open>An ordinary character is echoed and appended; a newline, an end-of-file character or a full
  buffer completes the line.\<close>

lemma cons_char_edits:
  assumes e: "env mp L s" and np: "\<not> panicked s" and ok: "cons_ok (kcons s)" and L: "\<And>q. Lproc q \<notin> L"
    and room: "length (cons_done (kcons s)) + length (cons_line (kcons s)) < 128"
  shows "wp (bnd (consputc (unat c) s) (\<lambda>_ s.
      let s = upd_cons (\<lambda>x. x\<lparr>cons_buf := (cons_buf x)(unat (cons_e x) mod 128 := c)\<rparr>) s;
          s = upd_cons (\<lambda>x. x\<lparr>cons_e := cons_e x + 1\<rparr>) s
      in if c = 10 \<or> c = 4 \<or> cons_e (kcons s) = cons_r (kcons s) + of_nat 128
         then wakeup Ccons_r (upd_cons (\<lambda>x. x\<lparr>cons_w := cons_e x\<rparr>) s) else Ok () s))
    (\<lambda>_ t. env mp L t \<and> cons_ok (kcons t) \<and> cons_abs (kcons t) =
      (let line' = cons_line (kcons s) @ [c] in
       if c = 10 \<or> c = 4 \<or> length (cons_done (kcons s)) + length line' = 128
       then (cons_done (kcons s) @ line', []) else (cons_done (kcons s), line')))"
  unfolding wp_bnd
proof (rule wp_mono[OF consputc_env[OF e np]])
  fix a t assume t: "env mp L t \<and> uart_only s t"
  let ?v = "upd_cons (\<lambda>x. x\<lparr>cons_e := cons_e x + 1\<rparr>) (upd_cons (\<lambda>x. x\<lparr>cons_buf := (cons_buf x)(unat (cons_e x) mod 128 := c)\<rparr>) t)"
  let ?y = "cons_put c (kcons s)"
  have kv: "kcons ?v = ?y" using uart_onlyD(2)[of s t] t by (simp add: cons_put_def)
  note P = cons_put_lists[OF ok room, of c]
  have full: "cons_e ?y = cons_r ?y + of_nat 128 \<longleftrightarrow> length (cons_done (kcons s)) + length (cons_line (kcons s) @ [c]) = 128"
    using cons_ring.full_iff[of ?y] cons_size[OF P(3)] P(3) by (simp add: P(1,2) cons_ok_def)
  have kw: "kcons (upd_cons (\<lambda>x. x\<lparr>cons_w := cons_e x\<rparr>) ?v) = ?y\<lparr>cons_w := cons_e ?y\<rparr>" unfolding env_upd_cons(2)[of _ ?v] kv by (rule refl)
  have w: "wp (wakeup Ccons_r (upd_cons (\<lambda>x. x\<lparr>cons_w := cons_e x\<rparr>) ?v)) (\<lambda>_ t. env mp L t \<and> kcons t = ?y\<lparr>cons_w := cons_e ?y\<rparr>)"
  proof (rule wp_mono[OF wakeup_env])
    show "env mp L (upd_cons (\<lambda>x. x\<lparr>cons_w := cons_e x\<rparr>) ?v)" using t by simp
    fix b u assume "env mp L u \<and> body u = (body (upd_cons (\<lambda>x. x\<lparr>cons_w := cons_e x\<rparr>) ?v))\<lparr>procs :=
      woken ({0..<64} - set_option mp) (Some Ccons_r) (procs (upd_cons (\<lambda>x. x\<lparr>cons_w := cons_e x\<rparr>) ?v))\<rparr>"
    then show "env mp L u \<and> kcons u = ?y\<lparr>cons_w := cons_e ?y\<rparr>" using body_eqD(32)[of u] kw by (auto simp del: env_upd_cons(2))
  qed (rule L)
  show "wp (let s = upd_cons (\<lambda>x. x\<lparr>cons_buf := (cons_buf x)(unat (cons_e x) mod 128 := c)\<rparr>) t;
          s = upd_cons (\<lambda>x. x\<lparr>cons_e := cons_e x + 1\<rparr>) s
      in if c = 10 \<or> c = 4 \<or> cons_e (kcons s) = cons_r (kcons s) + of_nat 128
         then wakeup Ccons_r (upd_cons (\<lambda>x. x\<lparr>cons_w := cons_e x\<rparr>) s) else Ok () s)
    (\<lambda>_ t. env mp L t \<and> cons_ok (kcons t) \<and> cons_abs (kcons t) =
      (let line' = cons_line (kcons s) @ [c] in
       if c = 10 \<or> c = 4 \<or> length (cons_done (kcons s)) + length line' = 128
       then (cons_done (kcons s) @ line', []) else (cons_done (kcons s), line')))"
    unfolding Let_def kv full
  proof (cases "c = 10 \<or> c = 4 \<or> length (cons_done (kcons s)) + length (cons_line (kcons s) @ [c]) = 128", goal_cases)
    case 1
    show ?case unfolding if_P[OF 1] by (rule wp_mono[OF w]) (use cons_commit_lists[of ?y] P in \<open>auto simp: cons_abs_def\<close>)
  next
    case 2
    show ?case unfolding if_not_P[OF 2] wp.simps kv using t P by (simp add: cons_abs_def)
  qed
qed

lemma cons_intr_edits:
  assumes e: "env mp L s" and np: "\<not> panicked s" and ok: "cons_ok (kcons s)" and L: "\<And>q. Lproc q \<notin> L" "Lpr \<notin> L"
  shows "wp (if c = 16 then procdump s
          else if c = 21 then kill_line s
          else if c = 8 \<or> c = 0x7f then
            (if cons_e (kcons s) \<noteq> cons_w (kcons s)
             then consputc 256 (upd_cons (\<lambda>x. x\<lparr>cons_e := cons_e x - 1\<rparr>) s)
             else Ok () s)
          else if c \<noteq> 0 \<and> cons_e (kcons s) - cons_r (kcons s) < of_nat 128 then
            (let c = (if c = 13 then 10 else c) in
             bnd (consputc (unat c) s) (\<lambda>_ s.
             let s = upd_cons (\<lambda>x. x\<lparr>cons_buf := (cons_buf x)(unat (cons_e x) mod 128 := c)\<rparr>) s;
                 s = upd_cons (\<lambda>x. x\<lparr>cons_e := cons_e x + 1\<rparr>) s
             in
             if c = 10 \<or> c = 4 \<or> cons_e (kcons s) = cons_r (kcons s) + of_nat 128
             then wakeup Ccons_r (upd_cons (\<lambda>x. x\<lparr>cons_w := cons_e x\<rparr>) s)
             else Ok () s))
          else Ok () s)
    (\<lambda>_ t. env mp L t \<and> cons_ok (kcons t) \<and> cons_abs (kcons t) = line_edit c (cons_abs (kcons s)))" (is "wp ?m ?Q")
proof -
  let ?x = "kcons s"
  have room: "cons_e ?x - cons_r ?x < of_nat 128 \<longleftrightarrow> length (cons_done ?x) + length (cons_line ?x) < 128"
    using cons_size[OF ok] by (simp add: word_less_nat_alt)
  have u: "wp (consputc d t) (\<lambda>_ u. env mp L u \<and> kcons u = kcons t)" if "env mp L t" "\<not> panicked t" for d t
    by (rule wp_mono[OF consputc_env[OF that]]) (auto dest: uart_onlyD)
  consider "c = 16" | "c = 21" | "c = 8 \<or> c = 127" | "c \<noteq> 16" "c \<noteq> 21" "c \<noteq> 8" "c \<noteq> 127" by blast
  then show ?thesis
  proof cases
    case 1
    have "wp (procdump s) ?Q" by (rule wp_mono[OF procdump_env[OF e np L(2)]]) (use 1 ok in \<open>auto dest: uart_onlyD simp: cons_abs_def\<close>)
    then show ?thesis using 1 by simp
  next
    case 2
    then show ?thesis using kill_line_edits[OF e np ok] by (simp add: cons_abs_def)
  next
    case 3
    show ?thesis
    proof (cases "cons_e ?x = cons_w ?x")
      case True
      then show ?thesis using 3 e ok cons_line_empty[of ?x] by (auto simp: cons_abs_def)
    next
      case False
      note U = cons_unput_lists(1,2)[OF False]
      have "cons_ok (?x\<lparr>cons_e := cons_e ?x - 1\<rparr>)" using ok by (simp add: cons_ok_def U)
      then show ?thesis using 3 False e np U by (auto simp: cons_abs_def intro!: wp_mono[OF u])
    qed
  next
    case 4
    show ?thesis
    proof (cases "c \<noteq> 0 \<and> length (cons_done ?x) + length (cons_line ?x) < 128")
      case True
      let ?d = "if c = 13 then 10 else c" and ?l = "cons_line ?x @ [if c = 13 then 10 else c]"
      have eq: "line_edit c (cons_abs ?x) = (let line' = ?l in
          if ?d = 10 \<or> ?d = 4 \<or> length (cons_done ?x) + length line' = 128 then (cons_done ?x @ line', []) else (cons_done ?x, line'))"
        using 4 True by (auto simp: cons_abs_def Let_def)
      have "length (cons_done ?x) + length (cons_line ?x) < 128" "c \<noteq> 0" using True by simp_all
      with 4 show ?thesis
        using cons_char_edits[OF e np ok L(1), of ?d] unfolding eq room by (simp only: Let_def if_False if_True simp_thms)
    next
      case False
      then show ?thesis using 4 e ok unfolding room by (auto simp: cons_abs_def)
    qed
  qed
qed

text \<open>C30: The console input refines a line editor. While the counters are in order, \<open>consoleintr\<close> of any
  byte returns with the lock free, keeps them in order, and changes the bytes ready for reading and
  the line being edited as the editor says: backspace removes the last character of the line, ^U the
  line, ^P nothing; a character is ignored when it is NUL or the buffer of 128 bytes is full, and is
  else appended, with carriage return read as newline; newline, ^D and a full buffer hand the line
  over to the readers.\<close>
theorem consoleintr_refines_editor:
  assumes "env mp {} s" and "\<not> panicked s" and "cons_ok (kcons s)"
  shows "\<exists>t. consoleintr c s = Ok () t \<and> env mp {} t \<and> cons_ok (kcons t) \<and> cons_abs (kcons t) = line_edit c (cons_abs (kcons s))"
proof -
  have a: "acquire Lcons s = Ok () (acq Lcons s)" "env mp {Lcons} (acq Lcons s)" "\<not> panicked (acq Lcons s)" "kcons (acq Lcons s) = kcons s"
    using env_acquire[OF assms(1), of Lcons] assms(2) by (simp_all add: lock_simps)
  have "cons_ok (kcons (acq Lcons s))" using assms(3) by (simp only: a(4))
  note E = cons_intr_edits[OF a(2,3) this, of c, unfolded a(4)]
  have "wp (consoleintr c s) (\<lambda>_ t. env mp {} t \<and> cons_ok (kcons t) \<and> cons_abs (kcons t) = line_edit c (cons_abs (kcons s)))"
    unfolding consoleintr_def a(1) bnd.simps a(4)
  proof (rule wp_bndI[OF E])
    fix x t assume t: "env mp {Lcons} t \<and> cons_ok (kcons t) \<and> cons_abs (kcons t) = line_edit c (cons_abs (kcons s))"
    then show "wp (release Lcons t) (\<lambda>_ t. env mp {} t \<and> cons_ok (kcons t) \<and> cons_abs (kcons t) = line_edit c (cons_abs (kcons s)))"
      using env_release[of mp "{Lcons}" t Lcons] by (simp add: lock_simps del: line_edit.simps)
  qed simp_all
  then show ?thesis by (auto simp: wp_iff simp del: line_edit.simps)
qed

theorem consoleintr_refines_editor_witness:
  "\<exists>t. consoleintr 13 (zero_kst\<lparr>kcons := \<lparr>cons_buf = (\<lambda>_. 97), cons_r = - 1, cons_w = - 1, cons_e = 0\<rparr>\<rparr>) = Ok () t \<and>
     cons_done (kcons t) = [97, 10] \<and> cons_line (kcons t) = []"
proof -
  let ?x = "\<lparr>cons_buf = (\<lambda>_. 97), cons_r = - 1, cons_w = - 1, cons_e = 0\<rparr> :: cons"
  have b: "cons_done ?x = []" "cons_line ?x = [97]" by (simp_all add: cons_done_def cons_line_def ring_list_def)
  have e: "env None {} (zero_kst\<lparr>kcons := ?x\<rparr>)" "\<not> panicked (zero_kst\<lparr>kcons := ?x\<rparr>)" "cons_ok (kcons (zero_kst\<lparr>kcons := ?x\<rparr>))"
    by (simp_all add: env_def zero_defs cons_ok_def b)
  show ?thesis using consoleintr_refines_editor[OF e, of 13] by (auto simp: cons_abs_def b Let_def)
qed

end
