(* ===== verification/Asm.thy ===== *)
theory Asm
  imports Kernel_Prelude
begin

text \<open>
  The assembly files of the kernel: \<open>swtch.S\<close>, \<open>trampoline.S\<close>, \<open>kernelvec.S\<close> and \<open>entry.S\<close>, as lists of
  instructions with an interpreter for the instructions they use. What the processor and the rest
  of the kernel contribute is a parameter: the translation of addresses by the page table that
  \<open>satp\<close> names, the C functions that are called and the addresses of symbols.
\<close>

section \<open>A hart\<close>

datatype reg = RA | SP | GP | TP | T0 | T1 | T2 | S0 | S1 | A0 | A1 | A2 | A3 | A4 | A5 | A6 | A7
  | S2 | S3 | S4 | S5 | S6 | S7 | S8 | S9 | S10 | S11 | T3 | T4 | T5 | T6

datatype csr = C_satp | C_sscratch | C_sip | C_sie | C_mscratch | C_mhartid | C_mstatus | C_mepc | C_medeleg | C_mideleg
  | C_mie | C_mtvec | C_pmpaddr0 | C_pmpcfg0

datatype instr =
    SD reg nat reg
  | LD reg nat reg
  | ADDI reg reg int
  | ADD reg reg reg
  | MUL reg reg reg
  | LI reg u64
  | LA reg string
  | CSRRW reg csr reg
  | CSRR reg csr
  | CSRW csr reg
  | SFENCE_VMA
  | CALL string
  | JR reg
  | RET
  | SRET
  | MRET

text \<open>How control leaves a piece of code.\<close>

datatype leave = Fall | Jump u64 | Sret | Mret

record hart_state =
  regs :: "reg \<Rightarrow> u64"
  csrs :: "csr \<Rightarrow> u64"
  ram :: memory

record machine =
  translate :: "u64 \<Rightarrow> u64 \<Rightarrow> u64"
  callee :: "string \<Rightarrow> hart_state \<Rightarrow> hart_state"
  address_of :: "string \<Rightarrow> u64"

definition phys :: "machine \<Rightarrow> hart_state \<Rightarrow> reg \<Rightarrow> nat \<Rightarrow> u64" where
  "phys M h b off = translate M (csrs h C_satp) (regs h b + of_nat off)"

definition set_x :: "reg \<Rightarrow> u64 \<Rightarrow> hart_state \<Rightarrow> hart_state" where
  "set_x r v h = h\<lparr>regs := (regs h)(r := v)\<rparr>"

definition set_csr :: "csr \<Rightarrow> u64 \<Rightarrow> hart_state \<Rightarrow> hart_state" where
  "set_csr c v h = h\<lparr>csrs := (csrs h)(c := v)\<rparr>"

fun step :: "machine \<Rightarrow> instr \<Rightarrow> hart_state \<Rightarrow> hart_state" where
  "step M (SD r off b) h = h\<lparr>ram := mwr64 (ram h) (phys M h b off) (regs h r)\<rparr>"
| "step M (LD r off b) h = set_x r (mrd64 (ram h) (phys M h b off)) h"
| "step M (ADDI r a i) h = set_x r (regs h a + of_int i) h"
| "step M (ADD r a b) h = set_x r (regs h a + regs h b) h"
| "step M (MUL r a b) h = set_x r (regs h a * regs h b) h"
| "step M (LI r v) h = set_x r v h"
| "step M (LA r s) h = set_x r (address_of M s) h"
| "step M (CSRRW r c a) h = set_csr c (regs h a) (set_x r (csrs h c) h)"
| "step M (CSRR r c) h = set_x r (csrs h c) h"
| "step M (CSRW c a) h = set_csr c (regs h a) h"
| "step M (CALL f) h = callee M f h"
| "step M i h = h"

fun run :: "machine \<Rightarrow> instr list \<Rightarrow> hart_state \<Rightarrow> hart_state \<times> leave" where
  "run M [] h = (h, Fall)"
| "run M (JR r # is) h = (h, Jump (regs h r))"
| "run M (RET # is) h = (h, Jump (regs h RA))"
| "run M (SRET # is) h = (h, Sret)"
| "run M (MRET # is) h = (h, Mret)"
| "run M (i # is) h = run M is (step M i h)"

section \<open>Code\<close>

definition swtch_code :: "instr list" where
  "swtch_code =
    [SD RA 0 A0, SD SP 8 A0, SD S0 16 A0, SD S1 24 A0, SD S2 32 A0, SD S3 40 A0, SD S4 48 A0,
     SD S5 56 A0, SD S6 64 A0, SD S7 72 A0, SD S8 80 A0, SD S9 88 A0, SD S10 96 A0, SD S11 104 A0,
     LD RA 0 A1, LD SP 8 A1, LD S0 16 A1, LD S1 24 A1, LD S2 32 A1, LD S3 40 A1, LD S4 48 A1,
     LD S5 56 A1, LD S6 64 A1, LD S7 72 A1, LD S8 80 A1, LD S9 88 A1, LD S10 96 A1, LD S11 104 A1, RET]"

definition uservec_code :: "instr list" where
  "uservec_code =
    [CSRRW A0 C_sscratch A0, SD RA 40 A0, SD SP 48 A0, SD GP 56 A0, SD TP 64 A0, SD T0 72 A0,
     SD T1 80 A0, SD T2 88 A0, SD S0 96 A0, SD S1 104 A0, SD A1 120 A0, SD A2 128 A0, SD A3 136 A0,
     SD A4 144 A0, SD A5 152 A0, SD A6 160 A0, SD A7 168 A0, SD S2 176 A0, SD S3 184 A0, SD S4 192 A0,
     SD S5 200 A0, SD S6 208 A0, SD S7 216 A0, SD S8 224 A0, SD S9 232 A0, SD S10 240 A0,
     SD S11 248 A0, SD T3 256 A0, SD T4 264 A0, SD T5 272 A0, SD T6 280 A0, CSRR T0 C_sscratch,
     SD T0 112 A0, LD SP 8 A0, LD TP 32 A0, LD T0 16 A0, LD T1 0 A0, CSRW C_satp T1, SFENCE_VMA, JR T0]"

definition userret_code :: "instr list" where
  "userret_code =
    [CSRW C_satp A1, SFENCE_VMA, LD T0 112 A0, CSRW C_sscratch T0, LD RA 40 A0, LD SP 48 A0,
     LD GP 56 A0, LD TP 64 A0, LD T0 72 A0, LD T1 80 A0, LD T2 88 A0, LD S0 96 A0, LD S1 104 A0,
     LD A1 120 A0, LD A2 128 A0, LD A3 136 A0, LD A4 144 A0, LD A5 152 A0, LD A6 160 A0, LD A7 168 A0,
     LD S2 176 A0, LD S3 184 A0, LD S4 192 A0, LD S5 200 A0, LD S6 208 A0, LD S7 216 A0, LD S8 224 A0,
     LD S9 232 A0, LD S10 240 A0, LD S11 248 A0, LD T3 256 A0, LD T4 264 A0, LD T5 272 A0,
     LD T6 280 A0, CSRRW A0 C_sscratch A0, SRET]"

definition kernelvec_code :: "instr list" where
  "kernelvec_code =
    [ADDI SP SP (- 256), SD RA 0 SP, SD SP 8 SP, SD GP 16 SP, SD TP 24 SP, SD T0 32 SP, SD T1 40 SP,
     SD T2 48 SP, SD S0 56 SP, SD S1 64 SP, SD A0 72 SP, SD A1 80 SP, SD A2 88 SP, SD A3 96 SP,
     SD A4 104 SP, SD A5 112 SP, SD A6 120 SP, SD A7 128 SP, SD S2 136 SP, SD S3 144 SP, SD S4 152 SP,
     SD S5 160 SP, SD S6 168 SP, SD S7 176 SP, SD S8 184 SP, SD S9 192 SP, SD S10 200 SP,
     SD S11 208 SP, SD T3 216 SP, SD T4 224 SP, SD T5 232 SP, SD T6 240 SP, CALL ''kerneltrap'',
     LD RA 0 SP, LD SP 8 SP, LD GP 16 SP, LD T0 32 SP, LD T1 40 SP, LD T2 48 SP, LD S0 56 SP,
     LD S1 64 SP, LD A0 72 SP, LD A1 80 SP, LD A2 88 SP, LD A3 96 SP, LD A4 104 SP, LD A5 112 SP,
     LD A6 120 SP, LD A7 128 SP, LD S2 136 SP, LD S3 144 SP, LD S4 152 SP, LD S5 160 SP, LD S6 168 SP,
     LD S7 176 SP, LD S8 184 SP, LD S9 192 SP, LD S10 200 SP, LD S11 208 SP, LD T3 216 SP,
     LD T4 224 SP, LD T5 232 SP, LD T6 240 SP, ADDI SP SP (256), SRET]"

definition timervec_code :: "instr list" where
  "timervec_code =
    [CSRRW A0 C_mscratch A0, SD A1 0 A0, SD A2 8 A0, SD A3 16 A0, LD A1 24 A0, LD A2 32 A0, LD A3 0 A1,
     ADD A3 A3 A2, SD A3 0 A1, LI A1 (2), CSRW C_sip A1, LD A3 16 A0, LD A2 8 A0, LD A1 0 A0,
     CSRRW A0 C_mscratch A0, MRET]"

definition entry_code :: "instr list" where
  "entry_code =
    [LA SP ''stack0'', LI A0 (1024 * 4), CSRR A1 C_mhartid, ADDI A1 A1 (1), MUL A0 A0 A1, ADD SP SP A0,
     CALL ''start'']"

section \<open>Saving and restoring registers\<close>

definition save :: "reg \<Rightarrow> (reg \<times> nat) list \<Rightarrow> instr list" where
  "save b rs = map (\<lambda>(r, off). SD r off b) rs"

definition restore :: "reg \<Rightarrow> (reg \<times> nat) list \<Rightarrow> instr list" where
  "restore b rs = map (\<lambda>(r, off). LD r off b) rs"

definition callee_saved :: "(reg \<times> nat) list" where
  "callee_saved = zip [RA, SP, S0, S1, S2, S3, S4, S5, S6, S7, S8, S9, S10, S11] (map (\<lambda>i. 8 * i) [0..<14])"

lemma swtch_code_eq: "swtch_code = save A0 callee_saved @ restore A1 callee_saved @ [RET]"
  by (simp add: swtch_code_def save_def restore_def callee_saved_def upt_rec)

definition stores :: "machine \<Rightarrow> hart_state \<Rightarrow> reg \<Rightarrow> (reg \<times> nat) list \<Rightarrow> memory \<Rightarrow> memory" where
  "stores M h b rs m = fold (\<lambda>(r, off) m. mwr64 m (phys M h b off) (regs h r)) rs m"

lemma run_save: "run M (save b rs @ is) h = run M is (h\<lparr>ram := stores M h b rs (ram h)\<rparr>)"
proof (induction rs arbitrary: h)
  case Nil
  then show ?case by (simp add: save_def stores_def)
next
  case (Cons ro rs)
  obtain r off where ro: "ro = (r, off)" by (cases ro)
  have "stores M (h\<lparr>ram := m\<rparr>) b rs m' = stores M h b rs m'" for m m'
    by (simp add: stores_def phys_def)
  then show ?case using Cons by (simp add: ro save_def stores_def phys_def)
qed

text \<open>A run of memory that the current page table maps to contiguous physical memory.\<close>

definition window :: "machine \<Rightarrow> hart_state \<Rightarrow> u64 \<Rightarrow> u64 \<Rightarrow> nat \<Rightarrow> bool" where
  "window M h va f n \<longleftrightarrow> (\<forall>i<n. translate M (csrs h C_satp) (va + of_nat i) = f + of_nat i)"

definition slots :: "nat \<Rightarrow> (reg \<times> nat) list \<Rightarrow> bool" where
  "slots n rs \<longleftrightarrow> distinct (map fst rs) \<and> distinct (map snd rs) \<and> (\<forall>(r, off) \<in> set rs. 8 dvd off \<and> off + 8 \<le> n)"

lemma word_runs_disjoint:
  assumes "a + 8 \<le> b \<or> b + 8 \<le> a" and "a < 2 ^ 32" and "b < 2 ^ 32"
  shows "disjoint_run (f + of_nat a) 8 (f + of_nat b) 8"
  unfolding disjoint_run_def
proof (intro allI impI)
  fix i :: nat assume i: "i < 8"
  have e: "f + of_nat a + of_nat i - (f + of_nat b) = of_nat (a + i) - (of_nat b :: u64)" by simp
  show "\<not> unat (f + of_nat a + of_nat i - (f + of_nat b)) < 8"
  proof (cases "b \<le> a + i")
    case True
    then have "of_nat (a + i) - (of_nat b :: u64) = of_nat (a + i - b)" by (simp only: of_nat_diff)
    moreover have "unat (of_nat (a + i - b) :: u64) = a + i - b" using assms i by (intro unat_of_nat_lt64) simp
    ultimately show ?thesis unfolding e using assms True i by simp
  next
    case False
    let ?d = "b - (a + i)"
    have d: "?d < 2 ^ 64" "0 < ?d" "a + i \<le> b" using assms False by simp_all
    have "of_nat (a + i) - (of_nat b :: u64) = - of_nat ?d" using d(3) by (simp only: of_nat_diff minus_diff_eq)
    also have "\<dots> = of_nat (2 ^ 64 - ?d)" using d(1) by (subst of_nat_diff) simp_all
    finally have w: "of_nat (a + i) - (of_nat b :: u64) = of_nat (2 ^ 64 - ?d)" .
    have "2 ^ 64 - ?d < (2 :: nat) ^ 64" using d(2) by simp
    then have "unat (of_nat (a + i) - (of_nat b :: u64)) = 2 ^ 64 - ?d" unfolding w by (rule unat_of_nat_lt64)
    moreover have "?d < 2 ^ 32" using assms by simp
    ultimately show ?thesis unfolding e using assms by simp
  qed
qed

lemma stores_reads:
  assumes w: "window M h (regs h b) f n" and sl: "slots n rs" and n: "n < 2 ^ 32"
  shows "(r, off) \<in> set rs \<Longrightarrow> mrd64 (stores M h b rs m) (f + of_nat off) = regs h r"
    and "(\<And>r off. (r, off) \<in> set rs \<Longrightarrow> disjoint_run a 8 (f + of_nat off) 8) \<Longrightarrow> mrd64 (stores M h b rs m) a = mrd64 m a"
proof -
  have ph: "phys M h b off = f + of_nat off" if "(r, off) \<in> set rs" for r off
  proof -
    have "off < n" using sl that by (auto simp: slots_def)
    then show ?thesis using w by (simp add: window_def phys_def)
  qed
  have other: "(\<And>r off. (r, off) \<in> set us \<Longrightarrow> disjoint_run a 8 (f + of_nat off) 8) \<Longrightarrow> set us \<subseteq> set rs \<Longrightarrow>
      mrd64 (stores M h b us m) a = mrd64 m a" for us m a
  proof (induction us arbitrary: m)
    case (Cons ro us)
    obtain r off where ro: "ro = (r, off)" by (cases ro)
    have "mrd64 (mwr64 m (f + of_nat off) (regs h r)) a = mrd64 m a"
      by (rule mrd64_mwr64_disjoint) (rule Cons.prems(1)[of r off], simp add: ro)
    moreover have "mrd64 (stores M h b us m') a = mrd64 m' a" for m'
    proof (rule Cons.IH)
      show "disjoint_run a 8 (f + of_nat off) 8" if "(r, off) \<in> set us" for r off by (rule Cons.prems(1)[of r off]) (simp add: that)
    qed (use Cons.prems(2) in simp)
    ultimately show ?case using Cons.prems(2) ph[of r off] by (simp add: ro stores_def)
  qed (simp add: stores_def)
  then show "(\<And>r off. (r, off) \<in> set rs \<Longrightarrow> disjoint_run a 8 (f + of_nat off) 8) \<Longrightarrow> mrd64 (stores M h b rs m) a = mrd64 m a" by simp
  assume "(r, off) \<in> set rs"
  then obtain us vs where rs: "rs = us @ (r, off) # vs" by (meson split_list)
  have "disjoint_run (f + of_nat off) 8 (f + of_nat o') 8" if "(r', o') \<in> set vs" for r' o'
  proof (rule word_runs_disjoint)
    have "off \<noteq> o'" "8 dvd off" "8 dvd o'" "off + 8 \<le> n" "o' + 8 \<le> n"
      using sl that unfolding rs slots_def by (auto simp: rev_image_eqI)
    then show "off + 8 \<le> o' \<or> o' + 8 \<le> off" by (auto elim!: dvdE)
    show "off < 2 ^ 32" "o' < 2 ^ 32" using \<open>off + 8 \<le> n\<close> \<open>o' + 8 \<le> n\<close> n by simp_all
  qed
  then have "mrd64 (stores M h b vs m') (f + of_nat off) = mrd64 m' (f + of_nat off)" for m' by (intro other) (auto simp: rs)
  then show "mrd64 (stores M h b rs m) (f + of_nat off) = regs h r"
    using ph[of r off] by (simp add: rs stores_def byte_simps)
qed

text \<open>Loading registers; a load into the base register must load the value it has.\<close>

definition loads :: "machine \<Rightarrow> hart_state \<Rightarrow> reg \<Rightarrow> (reg \<times> nat) list \<Rightarrow> reg \<Rightarrow> u64" where
  "loads M h b rs r = (case map_of rs r of Some off \<Rightarrow> mrd64 (ram h) (phys M h b off) | None \<Rightarrow> regs h r)"

lemma run_restore:
  assumes "distinct (map fst rs)" and "\<And>off. (b, off) \<in> set rs \<Longrightarrow> mrd64 (ram h) (phys M h b off) = regs h b"
  shows "run M (restore b rs @ is) h = run M is (h\<lparr>regs := loads M h b rs\<rparr>)"
  using assms
proof (induction rs arbitrary: h)
  case Nil
  then show ?case by (simp add: restore_def loads_def[abs_def])
next
  case (Cons ro rs)
  obtain r off where ro: "ro = (r, off)" by (cases ro)
  let ?h = "set_x r (mrd64 (ram h) (phys M h b off)) h"
  have xb: "regs ?h b = regs h b" using Cons.prems(2)[of off] ro by (auto simp: set_x_def)
  then have ph: "phys M ?h b o' = phys M h b o'" for o' by (simp add: phys_def set_x_def)
  have "run M (restore b (ro # rs) @ is) h = run M (restore b rs @ is) ?h" by (simp add: restore_def ro)
  also have "\<dots> = run M is (?h\<lparr>regs := loads M ?h b rs\<rparr>)"
  proof (rule Cons.IH)
    show "distinct (map fst rs)" using Cons.prems by simp
    show "mrd64 (ram ?h) (phys M ?h b o') = regs ?h b" if "(b, o') \<in> set rs" for o'
      using Cons.prems(2)[of o'] that unfolding ph xb by (simp add: set_x_def)
  qed
  also have "?h\<lparr>regs := loads M ?h b rs\<rparr> = h\<lparr>regs := loads M h b (ro # rs)\<rparr>"
  proof -
    have "map_of rs r = None" using Cons.prems(1) by (simp add: ro map_of_eq_None_iff)
    then have "loads M ?h b rs = loads M h b (ro # rs)"
      by (auto simp: fun_eq_iff loads_def ro ph split: option.splits) (simp_all add: set_x_def)
    then show ?thesis by (simp add: set_x_def)
  qed
  finally show ?case .
qed

lemma loads_at:
  assumes "distinct (map fst rs)" and "window M h (regs h b) f n" and "slots n rs"
  shows "(r, off) \<in> set rs \<Longrightarrow> loads M h b rs r = mrd64 (ram h) (f + of_nat off)"
    and "r \<notin> fst ` set rs \<Longrightarrow> loads M h b rs r = regs h r"
proof -
  show "loads M h b rs r = mrd64 (ram h) (f + of_nat off)" if "(r, off) \<in> set rs"
  proof -
    have "map_of rs r = Some off" using assms(1) that by simp
    moreover have "off < n" using assms(3) that by (auto simp: slots_def)
    ultimately show ?thesis using assms(2) by (simp add: loads_def phys_def window_def)
  qed
  show "r \<notin> fst ` set rs \<Longrightarrow> loads M h b rs r = regs h r" by (simp add: loads_def map_of_eq_None_iff[THEN iffD2])
qed

section \<open>Context switches\<close>

lemma callee_saved_slots: "slots 112 callee_saved" "distinct (map fst callee_saved)"
  "fst ` set callee_saved = {RA, SP, S0, S1, S2, S3, S4, S5, S6, S7, S8, S9, S10, S11}"
  by (simp_all add: slots_def callee_saved_def upt_rec)

text \<open>What \<open>swtch\<close> does: it saves the callee-saved registers and loads others.\<close>

definition apart :: "u64 \<Rightarrow> u64 \<Rightarrow> nat \<Rightarrow> bool" where
  "apart f g n \<longleftrightarrow> (\<forall>i j. i + 8 \<le> n \<longrightarrow> j + 8 \<le> n \<longrightarrow> disjoint_run (g + of_nat i) 8 (f + of_nat j) 8)"

lemma swtch_runs:
  assumes w: "window M h (regs h A0) f 112" "window M h (regs h A1) g 112"
    and ap: "apart f g 112"
  shows "\<exists>h'. run M swtch_code h = (h', Jump (mrd64 (ram h) g)) \<and> csrs h' = csrs h \<and>
    (\<forall>(r, off) \<in> set callee_saved. mrd64 (ram h') (f + of_nat off) = regs h r \<and> regs h' r = mrd64 (ram h) (g + of_nat off)) \<and>
    (\<forall>r. r \<notin> fst ` set callee_saved \<longrightarrow> regs h' r = regs h r)"
proof -
  let ?h1 = "h\<lparr>ram := stores M h A0 callee_saved (ram h)\<rparr>"
  let ?h2 = "?h1\<lparr>regs := loads M ?h1 A1 callee_saved\<rparr>"
  have dis: "\<And>i j. i + 8 \<le> 112 \<Longrightarrow> j + 8 \<le> 112 \<Longrightarrow> disjoint_run (g + of_nat i) 8 (f + of_nat j) 8"
    using ap by (simp add: apart_def)
  note cs = callee_saved_slots
  have a1: "A1 \<notin> fst ` set callee_saved" by (simp add: cs(3))
  have r: "run M swtch_code h = (?h2, Jump (regs ?h2 RA))"
    unfolding swtch_code_eq run_save by (subst run_restore[OF cs(2)]) (use a1 in \<open>force+\<close>)
  have w1: "window M ?h1 (regs ?h1 A1) g 112" using w(2) by (simp add: window_def)
  have m: "mrd64 (ram ?h1) (g + of_nat off) = mrd64 (ram h) (g + of_nat off)" if "off + 8 \<le> 112" for off
    using stores_reads(2)[OF w(1) cs(1), of "g + of_nat off" "ram h"] dis[OF that] cs(1) by (fastforce simp: slots_def)
  have l: "regs ?h2 r = mrd64 (ram h) (g + of_nat off)" if "(r, off) \<in> set callee_saved" for r off
    using loads_at(1)[OF cs(2) w1 cs(1) that] m[of off] that cs(1) by (auto simp: slots_def)
  moreover have "(RA, 0) \<in> set callee_saved" by (simp add: callee_saved_def upt_rec)
  ultimately have "run M swtch_code h = (?h2, Jump (mrd64 (ram h) g))" using r by fastforce
  moreover have "mrd64 (ram ?h2) (f + of_nat off) = regs h r" if "(r, off) \<in> set callee_saved" for r off
    using stores_reads(1)[OF w(1) cs(1) _ that] by simp
  moreover have "regs ?h2 r = regs h r" if "r \<notin> fst ` set callee_saved" for r
    using loads_at(2)[OF cs(2) w1 cs(1) that] by simp
  ultimately show ?thesis using l by (intro exI[of _ ?h2]) auto
qed

text \<open>C22: A context switch is undone by the switch back. After \<open>swtch\<close> from a context to another, whatever
  runs in between, a \<open>swtch\<close> back to the first context, if its 112 bytes of memory were left alone,
  returns to the instruction after the first call with every callee-saved register, the stack
  pointer included, as it was then.\<close>
theorem swtch_resumes:
  assumes "window M h (regs h A0) f 112" and "window M h (regs h A1) g 112" and "apart f g 112"
    and "run M swtch_code h = (h1, l)"
    and "window M h2 (regs h2 A0) g' 112" and "window M h2 (regs h2 A1) f 112" and "apart g' f 112"
    and "\<forall>off. off + 8 \<le> 112 \<longrightarrow> mrd64 (ram h2) (f + of_nat off) = mrd64 (ram h1) (f + of_nat off)"
  shows "l = Jump (mrd64 (ram h) g) \<and> (\<exists>h3. run M swtch_code h2 = (h3, Jump (regs h RA)) \<and>
    (\<forall>r \<in> {RA, SP, S0, S1, S2, S3, S4, S5, S6, S7, S8, S9, S10, S11}. regs h3 r = regs h r))"
proof -
  note cs = callee_saved_slots
  obtain k1 where k1: "run M swtch_code h = (k1, Jump (mrd64 (ram h) g))"
    "\<And>r off. (r, off) \<in> set callee_saved \<Longrightarrow> mrd64 (ram k1) (f + of_nat off) = regs h r"
    using swtch_runs[OF assms(1-3)] by blast
  obtain h3 where h3: "run M swtch_code h2 = (h3, Jump (mrd64 (ram h2) f))"
    "\<And>r off. (r, off) \<in> set callee_saved \<Longrightarrow> regs h3 r = mrd64 (ram h2) (f + of_nat off)"
    using swtch_runs[OF assms(5-7)] by blast
  have e: "k1 = h1" "l = Jump (mrd64 (ram h) g)" using k1(1) assms(4) by simp_all
  have m: "mrd64 (ram h2) (f + of_nat off) = regs h r" if i: "(r, off) \<in> set callee_saved" for r off
  proof -
    have "off + 8 \<le> 112" using i cs(1) by (auto simp: slots_def)
    then show ?thesis using k1(2)[OF i] assms(8) e(1) by simp
  qed
  have k: "\<And>r off. (r, off) \<in> set callee_saved \<Longrightarrow> regs h3 r = regs h r" using h3(2) m by simp
  have "mrd64 (ram h2) f = regs h RA" using m[of RA 0] by (simp add: callee_saved_def upt_rec)
  moreover have "regs h3 r = regs h r" if "r \<in> fst ` set callee_saved" for r using k that by auto
  ultimately show ?thesis using e(2) h3(1) unfolding cs(3) by simp
qed

text \<open>A machine without address translation on which the code can be followed, and a hart with given
  argument registers.\<close>

definition flat_machine :: machine where
  "flat_machine = \<lparr>translate = \<lambda>s a. a, callee = \<lambda>f h. h, address_of = \<lambda>s. 0\<rparr>"

definition flat_hart :: "u64 \<Rightarrow> u64 \<Rightarrow> memory \<Rightarrow> hart_state" where
  "flat_hart a b m = \<lparr>regs = (\<lambda>r. 7)(A0 := a, A1 := b), csrs = (\<lambda>c. 0), ram = m\<rparr>"

lemma flat_window: "window flat_machine h a a n"
  by (simp add: window_def flat_machine_def)

lemma apart_of_nat:
  assumes "a + n \<le> b \<or> b + n \<le> a" and "a + n < 2 ^ 32" and "b + n < 2 ^ 32"
  shows "apart (of_nat a) (of_nat b) n"
  unfolding apart_def
proof (intro allI impI)
  fix i j assume "i + 8 \<le> n" and "j + 8 \<le> n"
  then show "disjoint_run (of_nat b + of_nat i) 8 (of_nat a + of_nat j) 8"
    using word_runs_disjoint[of "b + i" "a + j" 0] assms by fastforce
qed

lemma swtch_resumes_witness:
  "let h = flat_hart 4096 8192 (\<lambda>a. 0); h1 = fst (run flat_machine swtch_code h) in
    \<exists>h3. run flat_machine swtch_code (flat_hart 12288 4096 (ram h1)) = (h3, Jump 7) \<and> regs h3 SP = 7 \<and> regs h3 S11 = 7"
proof -
  let ?h = "flat_hart 4096 8192 (\<lambda>a. 0)"
  let ?r = "run flat_machine swtch_code ?h"
  let ?g = "flat_hart 12288 4096 (ram (fst ?r))"
  have x: "regs ?h A0 = 4096" "regs ?h A1 = 8192" "regs ?g A0 = 12288" "regs ?g A1 = 4096" "ram ?g = ram (fst ?r)"
    "regs ?h RA = 7" "regs ?h SP = 7" "regs ?h S11 = 7" by (simp_all add: flat_hart_def)
  have w: "window flat_machine ?h (regs ?h A0) 4096 112" "window flat_machine ?h (regs ?h A1) 8192 112"
    "window flat_machine ?g (regs ?g A0) 12288 112" "window flat_machine ?g (regs ?g A1) 4096 112"
    unfolding x by (rule flat_window)+
  have a: "apart 4096 8192 112" "apart 12288 4096 112"
    using apart_of_nat[of 4096 112 8192] apart_of_nat[of 12288 112 4096] by simp_all
  have "\<forall>off. off + 8 \<le> 112 \<longrightarrow> mrd64 (ram ?g) (4096 + of_nat off) = mrd64 (ram (fst ?r)) (4096 + of_nat off)"
    unfolding x by blast
  from swtch_resumes[OF w(1,2) a(1) prod.collapse[symmetric] w(3,4) a(2) this] show ?thesis
    unfolding x Let_def by (auto simp: x)
qed

section \<open>Traps from user space\<close>

definition user_saved :: "(reg \<times> nat) list" where
  "user_saved = [(RA, 40), (SP, 48), (GP, 56), (TP, 64), (T0, 72), (T1, 80), (T2, 88), (S0, 96), (S1, 104), (A1, 120), (A2, 128),
     (A3, 136), (A4, 144), (A5, 152), (A6, 160), (A7, 168), (S2, 176), (S3, 184), (S4, 192), (S5, 200), (S6, 208), (S7, 216),
     (S8, 224), (S9, 232), (S10, 240), (S11, 248), (T3, 256), (T4, 264), (T5, 272), (T6, 280)]"

lemma user_saved_slots: "slots 288 user_saved" "distinct (map fst user_saved)" "(r, off) \<in> set user_saved \<Longrightarrow> off \<noteq> 112 \<and> 40 \<le> off"
  by (auto simp: slots_def user_saved_def)

lemma user_saved_regs: "r = A0 \<or> (\<exists>off. (r, off) \<in> set user_saved)"
  by (cases r) (auto simp: user_saved_def)

lemma A0_not_saved: "(A0, off) \<notin> set user_saved"
  by (simp add: user_saved_def)

lemma uservec_code_eq: "uservec_code = CSRRW A0 C_sscratch A0 # save A0 user_saved @ [CSRR T0 C_sscratch,
    SD T0 112 A0, LD SP 8 A0, LD TP 32 A0, LD T0 16 A0, LD T1 0 A0, CSRW C_satp T1, SFENCE_VMA, JR T0]"
  by (simp add: uservec_code_def save_def user_saved_def)

lemma userret_code_eq: "userret_code = [CSRW C_satp A1, SFENCE_VMA, LD T0 112 A0, CSRW C_sscratch T0] @
    restore A0 user_saved @ [CSRRW A0 C_sscratch A0, SRET]"
  by (simp add: userret_code_def restore_def user_saved_def)

lemma uservec_enter_kernel:
  assumes "regs h A0 = tf" and w: "window M h tf f 288"
  defines "m \<equiv> mwr64 (ram h) (f + 112) (csrs h C_sscratch)"
  shows "\<exists>h'. run M [CSRR T0 C_sscratch, SD T0 112 A0, LD SP 8 A0, LD TP 32 A0, LD T0 16 A0, LD T1 0 A0,
      CSRW C_satp T1, SFENCE_VMA, JR T0] h = (h', Jump (mrd64 m (f + 16))) \<and> ram h' = m \<and> regs h' SP = mrd64 m (f + 8) \<and>
      regs h' TP = mrd64 m (f + 32) \<and> csrs h' C_satp = mrd64 m f"
proof -
  have t: "translate M (csrs h C_satp) (tf + of_nat i) = f + of_nat i" if "i < 288" for i using w that by (simp add: window_def)
  show ?thesis using t[of 112] t[of 8] t[of 32] t[of 16] t[of 0] assms(1)
    by (simp add: set_csr_def set_x_def phys_def m_def del: mrd64_mwr64)
qed

lemma uservec_runs:
  assumes tf: "csrs h C_sscratch = tf" and w: "window M h tf f 288"
  shows "\<exists>h'. run M uservec_code h = (h', Jump (mrd64 (ram h) (f + 16))) \<and>
    (\<forall>(r, off) \<in> set user_saved. mrd64 (ram h') (f + of_nat off) = regs h r) \<and> mrd64 (ram h') (f + 112) = regs h A0 \<and>
    regs h' SP = mrd64 (ram h) (f + 8) \<and> regs h' TP = mrd64 (ram h) (f + 32) \<and> csrs h' C_satp = mrd64 (ram h) f"
proof -
  let ?h0 = "set_csr C_sscratch (regs h A0) (set_x A0 tf h)"
  let ?m1 = "stores M ?h0 A0 user_saved (ram ?h0)"
  let ?m2 = "mwr64 ?m1 (f + 112) (regs h A0)"
  have x0: "regs ?h0 A0 = tf" "regs ?h0 r = (if r = A0 then tf else regs h r)" "csrs ?h0 C_satp = csrs h C_satp" "ram ?h0 = ram h" for r
    by (simp_all add: set_csr_def set_x_def)
  have w0: "window M ?h0 (regs ?h0 A0) f 288" using w by (simp add: window_def x0)
  have old: "mrd64 ?m2 (f + of_nat k) = mrd64 (ram h) (f + of_nat k)" if "k + 8 \<le> 40" for k
  proof -
    have "disjoint_run (f + of_nat k) 8 (f + of_nat off) 8" if "(r, off) \<in> set user_saved" for r off
      using user_saved_slots(1) user_saved_slots(3)[OF that] that \<open>k + 8 \<le> 40\<close> by (intro word_runs_disjoint) (auto simp: slots_def)
    then have "mrd64 ?m1 (f + of_nat k) = mrd64 (ram h) (f + of_nat k)"
      using stores_reads(2)[OF w0 user_saved_slots(1), of "f + of_nat k" "ram ?h0"] by (simp add: x0)
    then show ?thesis using word_runs_disjoint[of k 112 f] that by (simp add: mrd64_mwr64_disjoint)
  qed
  have sv: "mrd64 ?m2 (f + of_nat off) = regs h r" if "(r, off) \<in> set user_saved" for r off
  proof -
    have "disjoint_run (f + of_nat off) 8 (f + of_nat 112) 8"
      using user_saved_slots(1) user_saved_slots(3)[OF that] that by (intro word_runs_disjoint) (auto simp: slots_def elim!: dvdE)
    moreover have "mrd64 ?m1 (f + of_nat off) = regs h r"
      using stores_reads(1)[OF w0 user_saved_slots(1) _ that, of "ram ?h0"] A0_not_saved that x0(2)[of r] by auto
    ultimately show ?thesis by (simp add: mrd64_mwr64_disjoint)
  qed
  let ?h1 = "?h0\<lparr>ram := ?m1\<rparr>"
  have a: "regs ?h1 A0 = tf" "window M ?h1 tf f 288" "ram ?h1 = ?m1" "csrs ?h1 C_sscratch = regs h A0"
    using w by (simp_all add: x0 window_def) (simp_all add: set_csr_def)
  have u: "run M uservec_code h = run M [CSRR T0 C_sscratch, SD T0 112 A0, LD SP 8 A0, LD TP 32 A0, LD T0 16 A0, LD T1 0 A0,
      CSRW C_satp T1, SFENCE_VMA, JR T0] ?h1"
    unfolding uservec_code_eq by (simp add: tf run_save)
  obtain h' where "run M uservec_code h = (h', Jump (mrd64 ?m2 (f + 16)))" "ram h' = ?m2" "regs h' SP = mrd64 ?m2 (f + 8)"
      "regs h' TP = mrd64 ?m2 (f + 32)" "csrs h' C_satp = mrd64 ?m2 f"
    using uservec_enter_kernel[OF a(1,2)] unfolding u a(3,4) by blast
  then show ?thesis using old[of 16] old[of 8] old[of 32] old[of 0] sv by (auto simp: mrd64_mwr64)
qed

lemma userret_runs:
  assumes tf: "regs h A0 = tf" and w: "window M (set_csr C_satp (regs h A1) h) tf f 288"
  shows "\<exists>h'. run M userret_code h = (h', Sret) \<and> regs h' A0 = mrd64 (ram h) (f + 112) \<and>
    (\<forall>(r, off) \<in> set user_saved. regs h' r = mrd64 (ram h) (f + of_nat off)) \<and>
    csrs h' = (csrs h)(C_satp := regs h A1, C_sscratch := tf) \<and> ram h' = ram h"
proof -
  let ?a = "mrd64 (ram h) (f + 112)"
  let ?g = "h\<lparr>regs := (regs h)(T0 := ?a), csrs := (csrs h)(C_satp := regs h A1, C_sscratch := ?a)\<rparr>"
  let ?l = "?g\<lparr>regs := loads M ?g A0 user_saved\<rparr>"
  have t: "translate M (regs h A1) (tf + of_nat i) = f + of_nat i" if "i < 288" for i
    using w that by (simp add: window_def set_csr_def)
  have a0: "A0 \<notin> fst ` set user_saved" using A0_not_saved by auto
  have "run M userret_code h = run M (restore A0 user_saved @ [CSRRW A0 C_sscratch A0, SRET]) ?g"
    unfolding userret_code_eq using t[of 112] tf by (simp add: set_csr_def set_x_def phys_def)
  also have "\<dots> = run M [CSRRW A0 C_sscratch A0, SRET] ?l"
    by (rule run_restore[OF user_saved_slots(2)]) (use a0 in force)
  finally have r: "run M userret_code h = run M [CSRRW A0 C_sscratch A0, SRET] ?l" .
  have wg: "window M ?g (regs ?g A0) f 288" using t tf by (simp add: window_def)
  have ld: "loads M ?g A0 user_saved r = mrd64 (ram h) (f + of_nat off)" if "(r, off) \<in> set user_saved" for r off
    using loads_at(1)[OF user_saved_slots(2) wg user_saved_slots(1) that] by simp
  have la: "loads M ?g A0 user_saved A0 = tf"
    using loads_at(2)[OF user_saved_slots(2) wg user_saved_slots(1) a0] tf by simp
  have "r \<noteq> A0" if "(r, off) \<in> set user_saved" for r off using A0_not_saved that by auto
  with ld la show ?thesis unfolding r by (auto simp: set_csr_def set_x_def)
qed

text \<open>C23: A trap from user space and the return from it keep the registers of the process. From the state in
  which the hardware enters \<open>uservec\<close>, with the trapframe mapped at the address in \<open>sscratch\<close> under
  the page table of the process, the trampoline jumps to the function the kernel left in the
  trapframe, on its stack, hart id and page table; when \<open>userret\<close> later runs on the same address and
  page table with the saved registers in the trapframe unchanged, it executes \<open>sret\<close> with each of the
  31 general registers as it was, the page table of the process installed and \<open>sscratch\<close> ready for
  the next trap.\<close>
theorem trap_keeps_registers:
  assumes "csrs h C_sscratch = tf" and "window M h tf f 288" and "run M uservec_code h = (h1, l)"
    and "regs h2 A0 = tf" and "regs h2 A1 = csrs h C_satp"
    and "\<forall>off. 40 \<le> off \<and> off + 8 \<le> 288 \<longrightarrow> mrd64 (ram h2) (f + of_nat off) = mrd64 (ram h1) (f + of_nat off)"
  shows "l = Jump (mrd64 (ram h) (f + 16)) \<and> regs h1 SP = mrd64 (ram h) (f + 8) \<and>
    regs h1 TP = mrd64 (ram h) (f + 32) \<and> csrs h1 C_satp = mrd64 (ram h) f \<and>
    (\<exists>h3. run M userret_code h2 = (h3, Sret) \<and> regs h3 = regs h \<and>
      csrs h3 = (csrs h2)(C_satp := csrs h C_satp, C_sscratch := tf))"
proof -
  obtain k1 where k1: "run M uservec_code h = (k1, Jump (mrd64 (ram h) (f + 16)))"
    "\<And>r off. (r, off) \<in> set user_saved \<Longrightarrow> mrd64 (ram k1) (f + of_nat off) = regs h r" "mrd64 (ram k1) (f + 112) = regs h A0"
    "regs k1 SP = mrd64 (ram h) (f + 8)" "regs k1 TP = mrd64 (ram h) (f + 32)" "csrs k1 C_satp = mrd64 (ram h) f"
    using uservec_runs[OF assms(1,2)] by blast
  have e: "k1 = h1" "l = Jump (mrd64 (ram h) (f + 16))" using k1(1) assms(3) by simp_all
  have "window M (set_csr C_satp (regs h2 A1) h2) tf f 288"
    using assms(2) by (simp add: window_def set_csr_def assms(5))
  from userret_runs[OF assms(4) this] obtain h3 where h3: "run M userret_code h2 = (h3, Sret)"
    "regs h3 A0 = mrd64 (ram h2) (f + 112)" "csrs h3 = (csrs h2)(C_satp := regs h2 A1, C_sscratch := tf)"
    "\<And>r off. (r, off) \<in> set user_saved \<Longrightarrow> regs h3 r = mrd64 (ram h2) (f + of_nat off)"
    by blast
  have "regs h3 r = regs h r" for r
  proof (cases "r = A0")
    case True
    then show ?thesis using h3(2) k1(3) e(1) assms(6)[rule_format, of 112] by simp
  next
    case False
    then obtain off where i: "(r, off) \<in> set user_saved" using user_saved_regs by blast
    then have "40 \<le> off" "off + 8 \<le> 288" using user_saved_slots(1,3) by (auto simp: slots_def)
    then show ?thesis using h3(4)[OF i] k1(2)[OF i] e(1) assms(6) by simp
  qed
  then have "regs h3 = regs h" by (rule ext)
  then show ?thesis using e k1(4-6) h3(1,3) assms(5) by auto
qed

lemma trap_keeps_registers_witness:
  "let h = (flat_hart 1 2 (\<lambda>a. 0))\<lparr>csrs := (\<lambda>c. 0)(C_sscratch := 4096)\<rparr>; h1 = fst (run flat_machine uservec_code h) in
    \<exists>h3. run flat_machine userret_code (flat_hart 4096 0 (ram h1)) = (h3, Sret) \<and> regs h3 = regs h"
proof -
  let ?h = "(flat_hart 1 2 (\<lambda>a. 0))\<lparr>csrs := (\<lambda>c. 0)(C_sscratch := 4096)\<rparr>"
  let ?r = "run flat_machine uservec_code ?h"
  let ?g = "flat_hart 4096 0 (ram (fst ?r))"
  have x: "csrs ?h C_sscratch = 4096" "regs ?g A0 = 4096" "regs ?g A1 = csrs ?h C_satp" "ram ?g = ram (fst ?r)"
    by (simp_all add: flat_hart_def)
  have "\<forall>off. 40 \<le> off \<and> off + 8 \<le> 288 \<longrightarrow> mrd64 (ram ?g) (4096 + of_nat off) = mrd64 (ram (fst ?r)) (4096 + of_nat off)"
    unfolding x by blast
  from trap_keeps_registers[OF x(1) flat_window prod.collapse[symmetric] x(2,3) this] show ?thesis
    unfolding Let_def by blast
qed

section \<open>Traps from the kernel\<close>

definition frame_saved :: "(reg \<times> nat) list" where
  "frame_saved = [(RA, 0), (SP, 8), (GP, 16), (TP, 24), (T0, 32), (T1, 40), (T2, 48), (S0, 56), (S1, 64), (A0, 72), (A1, 80),
     (A2, 88), (A3, 96), (A4, 104), (A5, 112), (A6, 120), (A7, 128), (S2, 136), (S3, 144), (S4, 152), (S5, 160), (S6, 168),
     (S7, 176), (S8, 184), (S9, 192), (S10, 200), (S11, 208), (T3, 216), (T4, 224), (T5, 232), (T6, 240)]"

definition frame_restored :: "(reg \<times> nat) list" where
  "frame_restored = filter (\<lambda>(r, off). r \<noteq> TP) frame_saved"

lemma frame_slots: "slots 256 frame_saved" "slots 256 frame_restored" "distinct (map fst frame_restored)"
  "set frame_restored \<subseteq> set frame_saved"
  by (simp_all add: slots_def frame_saved_def frame_restored_def)

lemma frame_restored_regs: "r \<noteq> TP \<Longrightarrow> \<exists>off. (r, off) \<in> set frame_restored"
  by (cases r) (auto simp: frame_saved_def frame_restored_def)

lemma TP_not_restored: "TP \<notin> fst ` set frame_restored"
  by (auto simp: frame_restored_def)

lemma SP_in_frame: "(SP, off) \<in> set frame_restored \<longleftrightarrow> off = 8"
  by (auto simp: frame_saved_def frame_restored_def)

lemma kernelvec_code_eq: "kernelvec_code = ADDI SP SP (- 256) # save SP frame_saved @ CALL ''kerneltrap'' #
    restore SP frame_restored @ [ADDI SP SP 256, SRET]"
  by (simp add: kernelvec_code_def save_def restore_def frame_saved_def frame_restored_def)

text \<open>The state in which \<open>kernelvec\<close> calls \<open>kerneltrap\<close>, and what the calling convention says of a C function:
  it returns with the stack pointer and leaves the frame of its caller alone.\<close>

definition at_kerneltrap :: "hart_state \<Rightarrow> memory \<Rightarrow> hart_state" where
  "at_kerneltrap h m = h\<lparr>regs := (regs h)(SP := regs h SP - 256), ram := m\<rparr>"

definition keeps_frame :: "u64 \<Rightarrow> hart_state \<Rightarrow> hart_state \<Rightarrow> bool" where
  "keeps_frame f h h' \<longleftrightarrow> regs h' SP = regs h SP \<and> csrs h' C_satp = csrs h C_satp \<and>
    (\<forall>off. off + 8 \<le> 256 \<longrightarrow> mrd64 (ram h') (f + of_nat off) = mrd64 (ram h) (f + of_nat off))"

text \<open>C24: An interrupt in the kernel is invisible to the code it interrupts. \<open>kernelvec\<close> pushes the registers,
  calls \<open>kerneltrap\<close> and, when that function keeps the stack pointer and the frame as the calling
  convention requires, executes \<open>sret\<close> with every register as it was except \<open>tp\<close>, which is the one of
  the hart that now runs, since the process may have moved.\<close>
theorem kernelvec_transparent:
  assumes w: "window M h (regs h SP - 256) f 256"
    and kt: "\<forall>m. keeps_frame f (at_kerneltrap h m) (callee M ''kerneltrap'' (at_kerneltrap h m))"
  shows "\<exists>m h'. run M kernelvec_code h = (h', Sret) \<and> csrs h' = csrs (callee M ''kerneltrap'' (at_kerneltrap h m)) \<and>
    regs h' = (regs h)(TP := regs (callee M ''kerneltrap'' (at_kerneltrap h m)) TP)"
proof -
  let ?g = "at_kerneltrap h (ram h)"
  let ?m = "stores M ?g SP frame_saved (ram ?g)"
  let ?k = "at_kerneltrap h ?m"
  let ?c = "callee M ''kerneltrap'' ?k"
  let ?l = "?c\<lparr>regs := loads M ?c SP frame_restored\<rparr>"
  have k: "keeps_frame f ?k ?c" using kt by blast
  have wg: "window M ?g (regs ?g SP) f 256" using w by (simp add: window_def at_kerneltrap_def)
  have sp: "regs ?c SP = regs h SP - 256" using k by (simp add: keeps_frame_def at_kerneltrap_def)
  have wc: "window M ?c (regs ?c SP) f 256" using w k by (simp add: window_def keeps_frame_def at_kerneltrap_def)
  have rd: "mrd64 (ram ?c) (f + of_nat off) = regs ?g r" if i: "(r, off) \<in> set frame_restored" for r off
  proof -
    have i': "(r, off) \<in> set frame_saved" and "off + 8 \<le> 256" using i frame_slots(2,4) by (auto simp: slots_def)
    then have "mrd64 (ram ?c) (f + of_nat off) = mrd64 ?m (f + of_nat off)" using k by (simp add: keeps_frame_def at_kerneltrap_def)
    then show ?thesis using stores_reads(1)[OF wg frame_slots(1) _ i', of "ram ?g"] by simp
  qed
  have bs: "mrd64 (ram ?c) (phys M ?c SP off) = regs ?c SP" if i: "(SP, off) \<in> set frame_restored" for off
  proof -
    have "off < 256" using i by (simp add: SP_in_frame)
    then have "phys M ?c SP off = f + of_nat off" unfolding phys_def using wc by (simp only: window_def)
    then show ?thesis using rd[OF i] sp by (simp add: at_kerneltrap_def)
  qed
  have g: "set_x SP (regs h SP + of_int (- 256)) h = ?g" by (simp add: set_x_def at_kerneltrap_def)
  have gm: "?g\<lparr>ram := ?m\<rparr> = ?k" by (simp add: at_kerneltrap_def)
  have "run M kernelvec_code h = run M (restore SP frame_restored @ [ADDI SP SP 256, SRET]) ?c"
    unfolding kernelvec_code_eq by (simp only: run.simps append_Cons run_save step.simps g gm)
  also have "\<dots> = run M [ADDI SP SP 256, SRET] ?l" by (rule run_restore[OF frame_slots(3) bs])
  finally have r: "run M kernelvec_code h = (set_x SP (regs ?l SP + 256) ?l, Sret)" by simp
  have ld: "regs ?l r = (if r = TP then regs ?c TP else regs ?g r)" for r
  proof (cases "r = TP")
    case True
    then show ?thesis using loads_at(2)[OF frame_slots(3) wc frame_slots(2) TP_not_restored] by simp
  next
    case False
    then obtain off where "(r, off) \<in> set frame_restored" using frame_restored_regs by blast
    then show ?thesis using loads_at(1)[OF frame_slots(3) wc frame_slots(2)] rd False by simp
  qed
  have "regs (set_x SP (regs ?l SP + 256) ?l) = (regs h)(TP := regs ?c TP)"
    using ld by (auto simp: fun_eq_iff set_x_def at_kerneltrap_def simp del: hart_state.simps(1,2,3))
  then show ?thesis using r by (intro exI[of _ ?m] exI[of _ "set_x SP (regs ?l SP + 256) ?l"]) (simp add: set_x_def)
qed

lemma kernelvec_transparent_witness:
  "\<exists>h'. run flat_machine kernelvec_code (flat_hart 1 2 (\<lambda>a. 0)) = (h', Sret) \<and> regs h' = regs (flat_hart 1 2 (\<lambda>a. 0))"
proof -
  let ?h = "flat_hart 1 2 (\<lambda>a. 0)"
  have c: "callee flat_machine ''kerneltrap'' g = g" for g by (simp add: flat_machine_def)
  have "\<forall>m. keeps_frame (regs ?h SP - 256) (at_kerneltrap ?h m) (callee flat_machine ''kerneltrap'' (at_kerneltrap ?h m))"
    unfolding c by (simp add: keeps_frame_def)
  from kernelvec_transparent[OF flat_window this] show ?thesis
    unfolding c by (auto simp: at_kerneltrap_def)
qed

section \<open>Machine mode\<close>

lemma timervec_runs:
  assumes tr: "\<forall>a. translate M (csrs h C_satp) a = a" and sc: "csrs h C_mscratch = A"
    and cmp: "mrd64 (ram h) (A + 24) = C"
    and dis: "\<forall>k < 5. disjoint_run (A + of_nat (8 * k)) 8 C 8 \<and> disjoint_run C 8 (A + of_nat (8 * k)) 8"
  shows "\<exists>h'. run M timervec_code h = (h', Mret) \<and> regs h' = regs h \<and> csrs h' = (csrs h)(C_sip := 2) \<and>
    mrd64 (ram h') C = mrd64 (ram h) C + mrd64 (ram h) (A + 32) \<and>
    mrd64 (ram h') (A + 24) = C \<and> mrd64 (ram h') (A + 32) = mrd64 (ram h) (A + 32)"
proof -
  let ?m3 = "mwr64 (mwr64 (mwr64 (ram h) A (regs h A1)) (A + 8) (regs h A2)) (A + 16) (regs h A3)"
  let ?m = "mwr64 ?m3 C (mrd64 (ram h) C + mrd64 (ram h) (A + 32))"
  have d: "disjoint_run (A + of_nat i) 8 (A + of_nat j) 8" if "i + 8 \<le> j \<or> j + 8 \<le> i" "i < 2 ^ 32" "j < 2 ^ 32" for i j
    using that by (rule word_runs_disjoint)
  note ds = d[of 0 8, simplified] d[of 0 16, simplified] d[of 8 0, simplified] d[of 8 16, simplified] d[of 24 0, simplified]
    d[of 24 8, simplified] d[of 24 16, simplified] d[of 32 0, simplified] d[of 32 8, simplified] d[of 32 16, simplified]
  have dc: "disjoint_run A 8 C 8" "disjoint_run (A + 8) 8 C 8" "disjoint_run (A + 16) 8 C 8" "disjoint_run (A + 24) 8 C 8"
    "disjoint_run (A + 32) 8 C 8" "disjoint_run C 8 A 8" "disjoint_run C 8 (A + 8) 8" "disjoint_run C 8 (A + 16) 8"
    using dis[rule_format, of 0] dis[rule_format, of 1] dis[rule_format, of 2] dis[rule_format, of 3] dis[rule_format, of 4] by simp_all
  have m3: "mrd64 ?m3 (A + 24) = C" "mrd64 ?m3 (A + 32) = mrd64 (ram h) (A + 32)" "mrd64 ?m3 C = mrd64 (ram h) C"
    using cmp by (simp_all add: mrd64_mwr64_disjoint ds dc)
  have m: "mrd64 ?m A = regs h A1" "mrd64 ?m (A + 8) = regs h A2" "mrd64 ?m (A + 16) = regs h A3"
    by (simp_all add: mrd64_mwr64_disjoint ds dc mrd64_mwr64)
  have mr: "mrd64 ?m (A + 24) = C" "mrd64 ?m (A + 32) = mrd64 (ram h) (A + 32)"
      "mrd64 ?m C = mrd64 (ram h) C + mrd64 (ram h) (A + 32)"
    using m3 by (simp_all add: mrd64_mwr64_disjoint dc mrd64_mwr64)
  have "run M timervec_code h = (h\<lparr>csrs := (csrs h)(C_sip := 2), ram := ?m\<rparr>, Mret)"
    unfolding timervec_code_def
    by (simp add: tr sc phys_def set_x_def set_csr_def m3 m fun_upd_twist) (auto simp: fun_eq_iff sc)
  then show ?thesis by (simp add: mr)
qed

lemma entry_sets_stack:
  assumes "callee M ''start'' = id"
  shows "regs (fst (run M entry_code h)) SP = address_of M ''stack0'' + 4096 * (csrs h C_mhartid + 1)"
  by (simp add: entry_code_def set_x_def assms)


end
