(* ===== verification/Start.thy ===== *)
theory Start
  imports Asm
begin

text \<open>
  \<open>start.c\<close>: what a hart does in machine mode between \<open>entry.S\<close> and \<open>main\<close>, over the hart state of theory
  \<open>Asm\<close>, with the accessors of \<open>riscv.h\<close> for the control registers it sets.
\<close>

section \<open>Control registers\<close>

unbundle bit_operations_syntax

abbreviation (input) MSTATUS_MPP_MASK :: u64 where "MSTATUS_MPP_MASK \<equiv> push_bit 11 3"
abbreviation (input) MSTATUS_MPP_S :: u64 where "MSTATUS_MPP_S \<equiv> push_bit 11 1"
abbreviation (input) MSTATUS_MIE :: u64 where "MSTATUS_MIE \<equiv> push_bit 3 1"
abbreviation (input) SIE_SEIE :: u64 where "SIE_SEIE \<equiv> push_bit 9 1"
abbreviation (input) SIE_STIE :: u64 where "SIE_STIE \<equiv> push_bit 5 1"
abbreviation (input) SIE_SSIE :: u64 where "SIE_SSIE \<equiv> push_bit 1 1"
abbreviation (input) MIE_MTIE :: u64 where "MIE_MTIE \<equiv> push_bit 7 1"

definition r_mhartid :: "hart_state \<Rightarrow> u64" where "r_mhartid h = csrs h C_mhartid"
definition r_mstatus :: "hart_state \<Rightarrow> u64" where "r_mstatus h = csrs h C_mstatus"
definition w_mstatus :: "u64 \<Rightarrow> hart_state \<Rightarrow> hart_state" where "w_mstatus = set_csr C_mstatus"
definition w_mepc :: "u64 \<Rightarrow> hart_state \<Rightarrow> hart_state" where "w_mepc = set_csr C_mepc"
definition r_sie :: "hart_state \<Rightarrow> u64" where "r_sie h = csrs h C_sie"
definition w_sie :: "u64 \<Rightarrow> hart_state \<Rightarrow> hart_state" where "w_sie = set_csr C_sie"
definition r_mie :: "hart_state \<Rightarrow> u64" where "r_mie h = csrs h C_mie"
definition w_mie :: "u64 \<Rightarrow> hart_state \<Rightarrow> hart_state" where "w_mie = set_csr C_mie"
definition w_medeleg :: "u64 \<Rightarrow> hart_state \<Rightarrow> hart_state" where "w_medeleg = set_csr C_medeleg"
definition w_mideleg :: "u64 \<Rightarrow> hart_state \<Rightarrow> hart_state" where "w_mideleg = set_csr C_mideleg"
definition w_mtvec :: "u64 \<Rightarrow> hart_state \<Rightarrow> hart_state" where "w_mtvec = set_csr C_mtvec"
definition w_pmpcfg0 :: "u64 \<Rightarrow> hart_state \<Rightarrow> hart_state" where "w_pmpcfg0 = set_csr C_pmpcfg0"
definition w_pmpaddr0 :: "u64 \<Rightarrow> hart_state \<Rightarrow> hart_state" where "w_pmpaddr0 = set_csr C_pmpaddr0"
definition w_satp :: "u64 \<Rightarrow> hart_state \<Rightarrow> hart_state" where "w_satp = set_csr C_satp"
definition w_mscratch :: "u64 \<Rightarrow> hart_state \<Rightarrow> hart_state" where "w_mscratch = set_csr C_mscratch"
definition w_tp :: "u64 \<Rightarrow> hart_state \<Rightarrow> hart_state" where "w_tp = set_x TP"

lemmas csr_defs = r_mhartid_def r_mstatus_def w_mstatus_def w_mepc_def r_sie_def w_sie_def r_mie_def w_mie_def
  w_medeleg_def w_mideleg_def w_mtvec_def w_pmpcfg0_def w_pmpaddr0_def w_satp_def w_mscratch_def w_tp_def set_csr_def set_x_def

section \<open>Machine mode start\<close>

definition CLINT_MTIMECMP :: "u64 \<Rightarrow> u64" where
  "CLINT_MTIMECMP hartid = 0x2000000 + 0x4000 + 8 * hartid"

definition CLINT_MTIME :: u64 where
  "CLINT_MTIME = 0x2000000 + 0xBFF8"

text \<open>Physical addresses are used as they are. An \<open>int\<close> is widened with its sign where it meets a 64-bit
  value.\<close>

definition wr :: "u64 \<Rightarrow> u64 \<Rightarrow> hart_state \<Rightarrow> hart_state" where
  "wr a v h = h\<lparr>ram := mwr64 (ram h) a v\<rparr>"

definition timerinit :: "machine \<Rightarrow> hart_state \<Rightarrow> hart_state" where
  "timerinit M h = (
    let hart = scast (ucast (r_mhartid h) :: 32 word) :: u64;
        interval = 1000000;
        h = wr (CLINT_MTIMECMP hart) (mrd64 (ram h) CLINT_MTIME + interval) h;
        scratch = address_of M ''timer_scratch'' + 40 * hart;
        h = wr (scratch + 24) (CLINT_MTIMECMP hart) h;
        h = wr (scratch + 32) interval h;
        h = w_mscratch scratch h;
        h = w_mtvec (address_of M ''timervec'') h;
        h = w_mstatus (r_mstatus h OR MSTATUS_MIE) h
    in w_mie (r_mie h OR MIE_MTIE) h)"

definition start :: "machine \<Rightarrow> hart_state \<Rightarrow> hart_state \<times> leave" where
  "start M h = (
    let x = r_mstatus h;
        x = x AND NOT MSTATUS_MPP_MASK;
        x = x OR MSTATUS_MPP_S;
        h = w_mstatus x h;
        h = w_mepc (address_of M ''main'') h;
        h = w_satp 0 h;
        h = w_medeleg 0xffff h;
        h = w_mideleg 0xffff h;
        h = w_sie (r_sie h OR SIE_SEIE OR SIE_STIE OR SIE_SSIE) h;
        h = w_pmpaddr0 0x3fffffffffffff h;
        h = w_pmpcfg0 0xf h;
        h = timerinit M h;
        hart = ucast (r_mhartid h) :: 32 word;
        h = w_tp (scast hart) h
    in (h, Mret))"

section \<open>The timer\<close>

text \<open>The timer of a hart is armed: \<open>mscratch\<close> is its scratch area, which names the compare register and the
  interval, and the compare register holds \<open>t\<close>.\<close>

definition timer_armed :: "machine \<Rightarrow> nat \<Rightarrow> u64 \<Rightarrow> hart_state \<Rightarrow> bool" where
  "timer_armed M hart t h \<longleftrightarrow> (let scratch = address_of M ''timer_scratch'' + 40 * of_nat hart in
    csrs h C_mscratch = scratch \<and> mrd64 (ram h) (scratch + 24) = CLINT_MTIMECMP (of_nat hart) \<and>
    mrd64 (ram h) (scratch + 32) = 1000000 \<and> mrd64 (ram h) (CLINT_MTIMECMP (of_nat hart)) = t)"

definition scratch_in_ram :: "machine \<Rightarrow> bool" where
  "scratch_in_ram M \<longleftrightarrow> 0x80000000 \<le> unat (address_of M ''timer_scratch'') \<and> unat (address_of M ''timer_scratch'') < 0x88000000"

lemma scratch_apart:
  assumes "scratch_in_ram M" and hart: "hart < 8" and "k < 5"
  defines "A \<equiv> address_of M ''timer_scratch'' + 40 * of_nat hart" and "C \<equiv> CLINT_MTIMECMP (of_nat hart)"
  shows "disjoint_run (A + of_nat (8 * k)) 8 C 8" and "disjoint_run C 8 (A + of_nat (8 * k)) 8"
proof -
  define a where "a = unat (address_of M ''timer_scratch'')"
  have a: "A + of_nat (8 * k) = 0 + of_nat (a + 40 * hart + 8 * k)" "0x80000000 \<le> a" "a < 0x88000000"
    using assms(1) by (simp_all add: A_def a_def scratch_in_ram_def)
  have c: "C = 0 + of_nat (0x2004000 + 8 * hart)" by (simp add: C_def CLINT_MTIMECMP_def)
  show "disjoint_run (A + of_nat (8 * k)) 8 C 8" "disjoint_run C 8 (A + of_nat (8 * k)) 8"
    unfolding a(1) c using a(2,3) hart assms(3) by (intro word_runs_disjoint; simp)+
qed

lemma hartid_int:
  assumes "hart < 8"
  shows "(scast (ucast (of_nat hart :: u64) :: 32 word) :: u64) = of_nat hart"
proof -
  have "hart \<in> {0, 1, 2, 3, 4, 5, 6, 7}" using assms by auto
  then show ?thesis by (elim insertE) simp_all
qed

lemma timervec_rearms:
  assumes "scratch_in_ram M" and "hart < 8" and "\<forall>a. translate M (csrs h C_satp) a = a" and arm: "timer_armed M hart t h"
  shows "\<exists>h'. run M timervec_code h = (h', Mret) \<and> regs h' = regs h \<and> csrs h' = (csrs h)(C_sip := 2) \<and>
    timer_armed M hart (t + 1000000) h'"
proof -
  let ?A = "address_of M ''timer_scratch'' + 40 * of_nat hart" and ?C = "CLINT_MTIMECMP (of_nat hart)"
  have s: "csrs h C_mscratch = ?A" "mrd64 (ram h) (?A + 24) = ?C" "mrd64 (ram h) (?A + 32) = 1000000" "mrd64 (ram h) ?C = t"
    using arm by (simp_all add: timer_armed_def Let_def)
  have "\<forall>k < 5. disjoint_run (?A + of_nat (8 * k)) 8 ?C 8 \<and> disjoint_run ?C 8 (?A + of_nat (8 * k)) 8"
    using scratch_apart[OF assms(1,2)] by blast
  from timervec_runs[OF assms(3) s(1,2) this] obtain h' where h: "run M timervec_code h = (h', Mret)" "regs h' = regs h"
    "csrs h' = (csrs h)(C_sip := 2)" "mrd64 (ram h') ?C = t + 1000000" "mrd64 (ram h') (?A + 24) = ?C"
    "mrd64 (ram h') (?A + 32) = 1000000" unfolding s(3,4) by blast
  have "timer_armed M hart (t + 1000000) h'" using h(3-6) s(1) by (simp add: timer_armed_def)
  with h(1-3) show ?thesis by blast
qed

lemma timerinit_arms:
  assumes "scratch_in_ram M" and hart: "hart < 8" "csrs h C_mhartid = of_nat hart"
  shows "timer_armed M hart (mrd64 (ram h) CLINT_MTIME + 1000000) (timerinit M h)"
proof -
  let ?A = "address_of M ''timer_scratch'' + 40 * of_nat hart" and ?C = "CLINT_MTIMECMP (of_nat hart)"
  have d: "disjoint_run ?C 8 (?A + 24) 8" "disjoint_run ?C 8 (?A + 32) 8" "disjoint_run (?A + 24) 8 (?A + 32) 8"
    using scratch_apart(2)[OF assms(1,2), of 3] scratch_apart(2)[OF assms(1,2), of 4] word_runs_disjoint[of 24 32 ?A] by simp_all
  have r: "ram (timerinit M h) = mwr64 (mwr64 (mwr64 (ram h) ?C (mrd64 (ram h) CLINT_MTIME + 1000000)) (?A + 24) ?C) (?A + 32) 1000000"
    "csrs (timerinit M h) C_mscratch = ?A"
    by (simp_all add: timerinit_def Let_def wr_def csr_defs hart(2) hartid_int[OF hart(1)])
  show ?thesis using d unfolding timer_armed_def Let_def r by (simp add: mrd64_mwr64 mrd64_mwr64_disjoint)
qed

lemma start_hands_over:
  assumes hart: "hart < 8" "csrs h C_mhartid = of_nat hart"
  shows "\<exists>h'. start M h = (h', Mret) \<and> csrs h' C_mepc = address_of M ''main'' \<and> csrs h' C_satp = 0 \<and>
    csrs h' C_mstatus AND MSTATUS_MPP_MASK = MSTATUS_MPP_S \<and> csrs h' C_mtvec = address_of M ''timervec'' \<and>
    bit (csrs h' C_mie) 7 \<and> regs h' = (regs h)(TP := of_nat hart)"
proof -
  have m: "(((x AND NOT MSTATUS_MPP_MASK) OR MSTATUS_MPP_S) OR MSTATUS_MIE) AND MSTATUS_MPP_MASK = MSTATUS_MPP_S" for x :: u64
  proof -
    have "(((x AND NOT MSTATUS_MPP_MASK) OR MSTATUS_MPP_S) OR MSTATUS_MIE) AND MSTATUS_MPP_MASK =
        ((x AND (NOT MSTATUS_MPP_MASK AND MSTATUS_MPP_MASK)) OR (MSTATUS_MPP_S AND MSTATUS_MPP_MASK)) OR (MSTATUS_MIE AND MSTATUS_MPP_MASK)"
      by (simp only: bit.conj_disj_distrib2 and.assoc)
    then show ?thesis by simp
  qed
  show ?thesis
    using m by (simp add: start_def timerinit_def Let_def wr_def csr_defs hart(2) hartid_int[OF hart(1)] bit_simps)
qed

text \<open>C25: Machine mode hands over to the kernel and keeps the clock running. On each of the eight harts
  \<open>start\<close> executes \<open>mret\<close> into \<open>main\<close> in supervisor mode, with paging off and the hart id in \<open>tp\<close>, and leaves
  the timer armed one interval after the current time. From every state in which the timer is
  armed, the timer interrupt handler \<open>timervec\<close> moves the compare register by one interval, leaves it
  armed, raises the supervisor software interrupt and returns with every register as it was.\<close>
theorem timer_interrupts_recur:
  assumes "scratch_in_ram M" and "hart < 8" and "csrs h C_mhartid = of_nat hart" and "\<forall>s a. translate M s a = a"
  shows "(\<exists>h0. start M h = (h0, Mret) \<and> csrs h0 C_mepc = address_of M ''main'' \<and> csrs h0 C_satp = 0 \<and>
      csrs h0 C_mstatus AND MSTATUS_MPP_MASK = MSTATUS_MPP_S \<and> csrs h0 C_mtvec = address_of M ''timervec'' \<and>
      bit (csrs h0 C_mie) 7 \<and> regs h0 = (regs h)(TP := of_nat hart) \<and>
      timer_armed M hart (mrd64 (ram h) CLINT_MTIME + 1000000) h0) \<and>
    (\<forall>h1 t. timer_armed M hart t h1 \<longrightarrow> (\<exists>h2. run M timervec_code h1 = (h2, Mret) \<and> regs h2 = regs h1 \<and>
      csrs h2 = (csrs h1)(C_sip := 2) \<and> timer_armed M hart (t + 1000000) h2))"
proof -
  have "timer_armed M hart t (fst (start M h)) \<longleftrightarrow> timer_armed M hart t (timerinit M h)" for t
    by (simp add: start_def timerinit_def timer_armed_def Let_def wr_def csr_defs)
  then have "timer_armed M hart (mrd64 (ram h) CLINT_MTIME + 1000000) (fst (start M h))"
    using timerinit_arms[OF assms(1-3)] by simp
  then show ?thesis using start_hands_over[OF assms(2,3), of M] timervec_rearms[OF assms(1,2)] assms(4) by auto
qed

lemma timer_interrupts_recur_witness:
  "let M = flat_machine\<lparr>address_of := \<lambda>s. if s = ''timer_scratch'' then 0x80009000 else 0x80000000\<rparr>;
       h = (flat_hart 0 0 (\<lambda>a. 0))\<lparr>csrs := (\<lambda>c. 0)(C_mhartid := 2)\<rparr>
   in \<exists>h0 h2. start M h = (h0, Mret) \<and> csrs h0 C_mepc = 0x80000000 \<and> run M timervec_code h0 = (h2, Mret) \<and>
     mrd64 (ram h2) (CLINT_MTIMECMP 2) = 2000000 \<and> regs h2 TP = 2"
proof -
  let ?M = "flat_machine\<lparr>address_of := \<lambda>s. if s = ''timer_scratch'' then 0x80009000 else 0x80000000\<rparr>"
  let ?h = "(flat_hart 0 0 (\<lambda>a. 0))\<lparr>csrs := (\<lambda>c. 0)(C_mhartid := 2)\<rparr>"
  have a: "scratch_in_ram ?M" "(2::nat) < 8" "csrs ?h C_mhartid = of_nat 2" "\<forall>s a. translate ?M s a = a" "address_of ?M ''main'' = 0x80000000"
    by (simp_all add: scratch_in_ram_def flat_machine_def)
  have z: "mrd64 (ram ?h) CLINT_MTIME = 0" by (simp add: flat_hart_def CLINT_MTIME_def) code_simp
  note t = timer_interrupts_recur[OF a(1-4), unfolded z a(5)]
  obtain h0 where h0: "start ?M ?h = (h0, Mret)" "csrs h0 C_mepc = 0x80000000" "timer_armed ?M 2 (0 + 1000000) h0"
    "regs h0 = (regs ?h)(TP := of_nat 2)" using t by blast
  obtain h2 where h2: "run ?M timervec_code h0 = (h2, Mret)" "regs h2 = regs h0" "timer_armed ?M 2 (0 + 1000000 + 1000000) h2"
    using t h0(3) by blast
  have "mrd64 (ram h2) (CLINT_MTIMECMP 2) = 2000000" using h2(3) by (simp add: timer_armed_def Let_def)
  moreover have "regs h2 TP = 2" using h2(2) h0(4) by simp
  ultimately show ?thesis unfolding Let_def using h0(1,2) h2(1) by blast
qed

end
