(* ===== verification/User_Lib.thy ===== *)
theory User_Lib
  imports Kernel_String
begin

text \<open>
  \<open>user/ulib.c\<close>, the library of the user programs, over the byte memory of a process. A loop whose end
  depends on a NUL byte in memory is a partial function: \<open>None\<close> is a call that never returns. The
  functions that share their name with one of \<open>kernel/string.c\<close> have the prefix \<open>u_\<close>. The lemmas give the
  result of each function on strings: a string \<open>xs\<close> is at address \<open>p\<close> when its bytes, none of them NUL,
  and then a NUL are there.
\<close>

section \<open>Strings\<close>

text \<open>\<open>while((*s++ = *t++) != 0);\<close>\<close>

partial_function (option) strcpy_loop :: "memory \<Rightarrow> u64 \<Rightarrow> u64 \<Rightarrow> memory option" where
  "strcpy_loop m s t = (let c = m t; m = m(s := c) in if c \<noteq> 0 then strcpy_loop m (s + 1) (t + 1) else Some m)"

definition strcpy :: "memory \<Rightarrow> u64 \<Rightarrow> u64 \<Rightarrow> (u64 \<times> memory) option" where
  "strcpy m s t = (let os = s in map_option (\<lambda>m. (os, m)) (strcpy_loop m s t))"

partial_function (option) strcmp :: "memory \<Rightarrow> u64 \<Rightarrow> u64 \<Rightarrow> int option" where
  "strcmp m p q = (if m p \<noteq> 0 \<and> m p = m q then strcmp m (p + 1) (q + 1) else Some (uint (m p) - uint (m q)))"

text \<open>The counter is an \<open>int\<close>: beyond \<open>2 ^ 31 - 1\<close> the loop has no defined result.\<close>

partial_function (option) u_strlen_at :: "memory \<Rightarrow> u64 \<Rightarrow> nat \<Rightarrow> nat option" where
  "u_strlen_at m s n =
     (if m (s + of_nat n) \<noteq> 0 then if Suc n < 2 ^ 31 then u_strlen_at m s (Suc n) else None else Some n)"

definition u_strlen :: "memory \<Rightarrow> u64 \<Rightarrow> nat option" where
  "u_strlen m s = u_strlen_at m s 0"

text \<open>A null pointer when the character is not found.\<close>

partial_function (option) strchr :: "memory \<Rightarrow> u64 \<Rightarrow> u8 \<Rightarrow> u64 option" where
  "strchr m s c = (if m s \<noteq> 0 then (if m s = c then Some s else strchr m (s + 1) c) else Some 0)"

text \<open>The result is an \<open>int\<close>, which wraps.\<close>

partial_function (option) atoi_loop :: "memory \<Rightarrow> u64 \<Rightarrow> u32 \<Rightarrow> u32 option" where
  "atoi_loop m s n = (if 48 \<le> m s \<and> m s \<le> 57 then atoi_loop m (s + 1) (n * 10 + ucast (m s) - 48) else Some n)"

definition atoi :: "memory \<Rightarrow> u64 \<Rightarrow> int option" where
  "atoi m s = map_option sint (atoi_loop m s 0)"

section \<open>Blocks\<close>

text \<open>The counter of the loop is an \<open>int\<close> here too; \<open>n\<close> is below \<open>2 ^ 31\<close>.\<close>

primrec u_memset :: "memory \<Rightarrow> u64 \<Rightarrow> u8 \<Rightarrow> nat \<Rightarrow> memory" where
  "u_memset m dst c 0 = m"
| "u_memset m dst c (Suc i) = (u_memset m dst c i)(dst + of_nat i := c)"

text \<open>\<open>n\<close> is an \<open>int\<close>: nothing is copied when it is negative.\<close>

definition u_memmove :: "memory \<Rightarrow> u64 \<Rightarrow> u64 \<Rightarrow> int \<Rightarrow> memory" where
  "u_memmove m vdst vsrc n =
     (if vsrc > vdst then copy_up m vdst vsrc (nat n)
      else copy_down m (vdst + of_int n) (vsrc + of_int n) (nat n))"

primrec u_memcmp_at :: "memory \<Rightarrow> u64 \<Rightarrow> u64 \<Rightarrow> nat \<Rightarrow> int" where
  "u_memcmp_at m p1 p2 0 = 0"
| "u_memcmp_at m p1 p2 (Suc n) = (if m p1 \<noteq> m p2 then uint (m p1) - uint (m p2) else u_memcmp_at m (p1 + 1) (p2 + 1) n)"

definition u_memcmp :: "memory \<Rightarrow> u64 \<Rightarrow> u64 \<Rightarrow> u32 \<Rightarrow> int" where
  "u_memcmp m s1 s2 n = u_memcmp_at m s1 s2 (unat n)"

text \<open>The count of \<open>memcpy\<close> is unsigned and becomes the signed one of \<open>memmove\<close>.\<close>

definition u_memcpy :: "memory \<Rightarrow> u64 \<Rightarrow> u64 \<Rightarrow> u32 \<Rightarrow> memory" where
  "u_memcpy m dst src n = u_memmove m dst src (sint n)"

section \<open>System calls used by the library\<close>

text \<open>The system calls of a process are parameters: \<open>read\<close> of one byte from standard input gives the byte
  when the call returns at least one, and \<open>open\<close>, \<open>fstat\<close> and \<open>close\<close> act on the state \<open>w\<close> outside the
  process.\<close>

function gets_loop :: "('w \<Rightarrow> u8 option \<times> 'w) \<Rightarrow> memory \<Rightarrow> u64 \<Rightarrow> int \<Rightarrow> nat \<Rightarrow> 'w \<Rightarrow> nat \<times> memory \<times> 'w" where
  "gets_loop rd m buf mx i w =
     (if int i + 1 < mx
      then (case rd w of
          (None, w) \<Rightarrow> (i, m, w)
        | (Some c, w) \<Rightarrow>
            let m = m(buf + of_nat i := c); i = Suc i
            in if c = 10 \<or> c = 13 then (i, m, w) else gets_loop rd m buf mx i w)
      else (i, m, w))"
  by pat_completeness auto
termination by (relation "measure (\<lambda>(rd, m, buf, mx, i, w). nat (mx - int i))") auto

definition gets :: "('w \<Rightarrow> u8 option \<times> 'w) \<Rightarrow> memory \<Rightarrow> u64 \<Rightarrow> int \<Rightarrow> 'w \<Rightarrow> memory \<times> 'w" where
  "gets rd m buf mx w = (case gets_loop rd m buf mx 0 w of (i, m, w) \<Rightarrow> (m(buf + of_nat i := 0), w))"

definition u_stat :: "(bytes \<Rightarrow> u32 \<Rightarrow> 'w \<Rightarrow> int \<times> 'w) \<Rightarrow> (int \<Rightarrow> 'w \<Rightarrow> (int \<times> 'st) \<times> 'w) \<Rightarrow> (int \<Rightarrow> 'w \<Rightarrow> 'w) \<Rightarrow>
    bytes \<Rightarrow> 'st \<Rightarrow> 'w \<Rightarrow> (int \<times> 'st) \<times> 'w" where
  "u_stat opn fstt cls n st w = (
     let (fd, w) = opn n O_RDONLY w
     in if fd < 0 then ((- 1, st), w)
        else let ((r, st), w) = fstt fd w; w = cls fd w in ((r, st), w))"

section \<open>Strings in memory\<close>

primrec str_at :: "memory \<Rightarrow> u64 \<Rightarrow> bytes \<Rightarrow> bool" where
  "str_at m p [] \<longleftrightarrow> m p = 0"
| "str_at m p (x # xs) \<longleftrightarrow> m p = x \<and> x \<noteq> 0 \<and> str_at m (p + 1) xs"

lemma u_strlen_at_str:
  "str_at m (s + of_nat n) xs \<Longrightarrow> n + length xs < 2 ^ 31 \<Longrightarrow> u_strlen_at m s n = Some (n + length xs)"
proof (induction xs arbitrary: n)
  case Nil
  then show ?case by (subst u_strlen_at.simps) simp
next
  case (Cons x xs)
  then have "str_at m (s + of_nat (Suc n)) xs" "Suc n + length xs < 2 ^ 31" by (simp_all add: ac_simps)
  from Cons.IH[OF this] Cons.prems show ?case by (subst u_strlen_at.simps) simp
qed

lemma u_strlen_str: "str_at m s xs \<Longrightarrow> length xs < 2 ^ 31 \<Longrightarrow> u_strlen m s = Some (length xs)"
  using u_strlen_at_str[of m s 0 xs] by (simp add: u_strlen_def)

lemma strcmp_str:
  assumes "str_at m p xs" and "str_at m q ys"
  shows "\<exists>r. strcmp m p q = Some r \<and> (r = 0 \<longleftrightarrow> xs = ys)"
  using assms
proof (induction xs arbitrary: p q ys)
  case Nil
  then show ?case by (subst strcmp.simps) (cases ys; auto)
next
  case (Cons x xs)
  show ?case
  proof (cases "\<exists>ys'. ys = x # ys'")
    case True
    then obtain ys' where "ys = x # ys'" by blast
    with Cons show ?thesis by (subst strcmp.simps) auto
  next
    case False
    with Cons.prems have "m p \<noteq> m q" "m p = x" by (cases ys; auto)+
    then show ?thesis using False by (subst strcmp.simps) auto
  qed
qed

lemma strchr_str:
  "str_at m s xs \<Longrightarrow> strchr m s c = Some (if c \<in> set xs then s + of_nat (length (takeWhile (\<lambda>x. x \<noteq> c) xs)) else 0)"
proof (induction xs arbitrary: s)
  case Nil
  then show ?case by (subst strchr.simps) simp
next
  case (Cons x xs)
  then show ?case by (subst strchr.simps) (auto simp: ac_simps)
qed

lemma str_at_cong: "(\<And>i. i \<le> length xs \<Longrightarrow> m (p + of_nat i) = m' (p + of_nat i)) \<Longrightarrow> str_at m p xs = str_at m' p xs"
proof (induction xs arbitrary: p)
  case Nil
  from Nil[of 0] show ?case by simp
next
  case (Cons x xs)
  have "m (p + 1 + of_nat i) = m' (p + 1 + of_nat i)" if "i \<le> length xs" for i
    using Cons.prems[of "Suc i"] that by (simp add: ac_simps)
  from Cons.IH[OF this] Cons.prems[of 0] show ?case by simp
qed

lemma strcpy_loop_str:
  assumes "str_at m t xs" and "\<And>i j. i \<le> length xs \<Longrightarrow> j \<le> length xs \<Longrightarrow> s + of_nat i \<noteq> t + of_nat j" and "length xs < 2 ^ 32"
  shows "\<exists>m'. strcpy_loop m s t = Some m' \<and> str_at m' s xs \<and> (\<forall>a. (\<forall>i \<le> length xs. a \<noteq> s + of_nat i) \<longrightarrow> m' a = m a)"
  using assms
proof (induction xs arbitrary: m s t)
  case Nil
  from Nil.prems(1) Nil.prems(2)[of 0 0] show ?case by (subst strcpy_loop.simps) (simp add: Let_def)
next
  case (Cons x xs)
  let ?m = "m(s := x)"
  have x: "m t = x" "x \<noteq> 0" "str_at m (t + 1) xs" using Cons.prems(1) by simp_all
  have d: "s + 1 + of_nat i \<noteq> t + 1 + of_nat j" if "i \<le> length xs" "j \<le> length xs" for i j
    using Cons.prems(2)[of "Suc i" "Suc j"] that by (simp add: ac_simps)
  have "str_at ?m (t + 1) xs"
  proof (subst str_at_cong)
    show "?m (t + 1 + of_nat i) = m (t + 1 + of_nat i)" if "i \<le> length xs" for i
      using Cons.prems(2)[of 0 "Suc i"] that by (auto simp: ac_simps)
  qed (rule x(3))
  moreover have "length xs < 2 ^ 32" using Cons.prems(3) by simp
  ultimately obtain m' where m': "strcpy_loop ?m (s + 1) (t + 1) = Some m'" "str_at m' (s + 1) xs"
    "\<And>a. (\<forall>i \<le> length xs. a \<noteq> s + 1 + of_nat i) \<Longrightarrow> m' a = ?m a" using Cons.IH[of ?m "t + 1" "s + 1"] d by blast
  have "s \<noteq> s + 1 + of_nat i" if "i \<le> length xs" for i
  proof -
    have "unat (of_nat (Suc i) :: u64) = Suc i" using that Cons.prems(3) by (intro unat_of_nat_lt64) simp
    then have "(of_nat (Suc i) :: u64) \<noteq> 0" by (metis nat.distinct(1) unat_0)
    then show ?thesis by (simp add: ac_simps)
  qed
  then have "m' s = x" using m'(3)[of s] by simp
  moreover have "m' a = m a" if "\<forall>i \<le> length (x # xs). a \<noteq> s + of_nat i" for a
  proof -
    have "a \<noteq> s" "\<forall>i \<le> length xs. a \<noteq> s + 1 + of_nat i"
      using that[rule_format, of 0] that[rule_format, of "Suc i" for i] by (auto simp: ac_simps)
    then show ?thesis using m'(3)[of a] by simp
  qed
  ultimately show ?case using m'(1,2) x(1,2) by (subst strcpy_loop.simps) (auto simp: Let_def)
qed

section \<open>Properties\<close>

text \<open>C34: The string functions of the user library return on every NUL-terminated string shorter than
  \<open>2 ^ 31\<close> bytes, which is as far as the \<open>int\<close> that \<open>strlen\<close> counts with goes, with the result their names promise: \<open>strlen\<close> the length, \<open>strcmp\<close> zero exactly for equal strings, \<open>strchr\<close> the address
  of the first occurrence or a null pointer, and \<open>strcpy\<close>, when the copy does not overlap the string,
  a copy of it, every byte outside the copy unchanged.\<close>
theorem user_strings_terminate:
  assumes "str_at m p xs" and "str_at m q ys" and "length xs < 2 ^ 31"
    and "\<forall>i \<le> length xs. \<forall>j \<le> length xs. d + of_nat i \<noteq> p + of_nat j"
  shows "u_strlen m p = Some (length xs) \<and> (\<exists>r. strcmp m p q = Some r \<and> (r = 0 \<longleftrightarrow> xs = ys)) \<and>
    strchr m p c = Some (if c \<in> set xs then p + of_nat (length (takeWhile (\<lambda>x. x \<noteq> c) xs)) else 0) \<and>
    (\<exists>m'. strcpy m d p = Some (d, m') \<and> str_at m' d xs \<and> (\<forall>a. (\<forall>i \<le> length xs. a \<noteq> d + of_nat i) \<longrightarrow> m' a = m a))"
  using u_strlen_str[OF assms(1)] strcmp_str[OF assms(1,2)] strchr_str[OF assms(1), of c] strcpy_loop_str[OF assms(1), of d] assms(3,4)
  by (auto simp: strcpy_def Let_def)

lemma user_strings_terminate_witness:
  "let m = (\<lambda>a. 0)(100 := 104, 101 := 105) in u_strlen m 100 = Some 2 \<and> (\<exists>r. strcmp m 100 101 = Some r \<and> r \<noteq> 0) \<and>
     strchr m 100 105 = Some 101 \<and> (\<exists>m'. strcpy m 200 100 = Some (200, m') \<and> str_at m' 200 [104, 105])"
proof -
  let ?m = "(\<lambda>a. 0)(100 := 104, 101 := 105) :: memory"
  have s: "str_at ?m 100 [104, 105]" "str_at ?m 101 [105]" by simp_all
  have k: "i = 0 \<or> i = 1 \<or> i = 2" if "i \<le> 2" for i :: nat using that by auto
  have "(200 :: u64) + of_nat i \<noteq> 100 + of_nat j" if "i \<le> 2" "j \<le> 2" for i j
    using k[OF that(1)] k[OF that(2)] by (elim disjE) simp_all
  then have "\<forall>i \<le> length [104, 105 :: u8]. \<forall>j \<le> length [104, 105 :: u8]. (200 :: u64) + of_nat i \<noteq> 100 + of_nat j" by simp
  from user_strings_terminate[OF s _ this, of 105] show ?thesis by (auto simp: Let_def)
qed

lemma u_memmove_mblit:
  assumes "0 \<le> n" and "unat dst + nat n < 2 ^ 64" and "unat src + nat n < 2 ^ 64"
  shows "u_memmove m dst src n = mblit m dst (mslice m src (nat n))"
proof (cases "dst < src")
  case True
  then have "\<not> (src < dst \<and> unat dst < unat src + nat n)" by auto
  then show ?thesis using copy_up_mblit[of dst "nat n" src m] assms True by (simp add: u_memmove_def)
next
  case False
  have e: "(of_int n :: u64) = of_nat (nat n)" using assms(1) by simp
  show ?thesis
  proof (cases "src = dst")
    case True
    have "copy_down m (d + of_nat k) (d + of_nat k) k = m" for d k by (induction k) (simp_all add: fun_upd_idem)
    then have "u_memmove m dst src n = m" using True False by (simp add: u_memmove_def e)
    moreover have "mblit m dst (mslice m dst (nat n)) = m" by (auto simp: mblit_def mslice_def fun_eq_iff)
    ultimately show ?thesis using True by simp
  next
    case False
    with \<open>\<not> dst < src\<close> have "src < dst" by simp
    then have "copy_down m (dst + of_nat (nat n)) (src + of_nat (nat n)) (nat n) = mblit m dst (mslice m src (nat n))"
      using copy_down_mblit assms(2,3) by blast
    then show ?thesis using \<open>\<not> dst < src\<close> unfolding u_memmove_def e by (simp only: if_False)
  qed
qed

lemma odd_div_iff:
  fixes x c :: int
  assumes "0 \<le> x" and "x < 2 * c"
  shows "odd (x div c) \<longleftrightarrow> c \<le> x"
proof (cases "c \<le> x")
  case True
  then have "x div c = (x - c) div c + 1" using assms by (intro div_pos_geq) simp_all
  also have "(x - c) div c = 0" using assms True by (intro div_pos_pos_trivial) simp_all
  finally show ?thesis using True by simp
next
  case False
  then have "x div c = 0" using assms by (intro div_pos_pos_trivial) simp_all
  then show ?thesis using False by simp
qed

text \<open>C35: The two implementations of \<open>memmove\<close>, the one of the kernel and the one of the user library, which
  decide differently when to copy backwards, have the same effect on every pair of runs, overlapping or
  not, that do not wrap around the address space. \<open>memcpy\<close> of the library agrees with them for every
  count below \<open>2^31\<close>, and copies nothing for a larger one.\<close>
theorem memmoves_agree:
  assumes "unat dst + unat n < 2 ^ 64" and "unat src + unat n < 2 ^ 64"
  shows "(unat n < 2 ^ 31 \<longrightarrow> u_memmove m dst src (int (unat n)) = memmove m dst src (unat n) \<and>
      u_memcpy m dst src n = memmove m dst src (unat n)) \<and>
    (2 ^ 31 \<le> unat n \<longrightarrow> u_memcpy m dst src n = m)"
proof -
  have b: "bit (uint n) 31 \<longleftrightarrow> 2 ^ 31 \<le> unat n"
  proof -
    have "uint n < 2 * 2 ^ 31" using uint_lt2p[of n] by simp
    then have "odd (uint n div 2 ^ 31) \<longleftrightarrow> 2 ^ 31 \<le> uint n" by (intro odd_div_iff) simp_all
    also have "\<dots> \<longleftrightarrow> 2 ^ 31 \<le> unat n" using of_nat_le_iff[of "2 ^ 31" "unat n", where 'a = int] by simp
    finally show ?thesis unfolding bit_iff_odd .
  qed
  have "take_bit 32 (uint n) = uint n" using uint_lt2p[of n] by (simp add: take_bit_int_eq_self)
  then have s: "sint n = int (unat n) - 2 ^ 32 * of_bool (bit (uint n) 31)"
    by (simp add: sint_uint signed_take_bit_eq_take_bit_minus)
  have "sint n = int (unat n)" if "unat n < 2 ^ 31" using s b that by simp
  moreover have "sint n < 0" if "2 ^ 31 \<le> unat n" using s b that uint_lt2p[of n] by simp
  moreover have "u_memmove m dst src (int (unat n)) = memmove m dst src (unat n)"
    using u_memmove_mblit[of "int (unat n)" dst src m] memmove_mblit[of dst "unat n" src m] assms by simp
  moreover have "u_memmove m dst src k = m" if "k < 0" for k using that by (simp add: u_memmove_def)
  ultimately show ?thesis by (simp add: u_memcpy_def)
qed

lemma memmoves_agree_witness:
  "u_memmove (\<lambda>a. ucast a) 101 100 7 = memmove (\<lambda>a. ucast a) 101 100 7 \<and> u_memcpy (\<lambda>a. ucast a) 101 100 0xffffffff = (\<lambda>a. ucast a)"
  using memmoves_agree[of 101 7 100 "\<lambda>a. ucast a"] memmoves_agree[of 101 "0xffffffff" 100 "\<lambda>a. ucast a"] by simp

end
