(* ===== verification/User_Printf.thy ===== *)
theory User_Printf
  imports User_Lib Console Fs_Inode
begin

text \<open>
  The system calls as a user program sees them, and \<open>user/printf.c\<close>. The stubs that \<open>usys.pl\<close> generates
  are a record of functions on the state \<open>w\<close> outside the process, a parameter of every program. A string
  is the list of its bytes without the final NUL.
\<close>

section \<open>System calls\<close>

text \<open>\<open>read\<close> also gives the bytes it stored in the buffer of the caller.\<close>

record 'w os =
  os_read :: "int \<Rightarrow> nat \<Rightarrow> 'w \<Rightarrow> (int \<times> bytes) \<times> 'w"
  os_write :: "int \<Rightarrow> bytes \<Rightarrow> 'w \<Rightarrow> int \<times> 'w"
  os_open :: "bytes \<Rightarrow> u32 \<Rightarrow> 'w \<Rightarrow> int \<times> 'w"
  os_close :: "int \<Rightarrow> 'w \<Rightarrow> 'w"
  os_fstat :: "int \<Rightarrow> 'w \<Rightarrow> (int \<times> stat) \<times> 'w"
  os_kill :: "int \<Rightarrow> 'w \<Rightarrow> int \<times> 'w"
  os_link :: "bytes \<Rightarrow> bytes \<Rightarrow> 'w \<Rightarrow> int \<times> 'w"
  os_mkdir :: "bytes \<Rightarrow> 'w \<Rightarrow> int \<times> 'w"
  os_unlink :: "bytes \<Rightarrow> 'w \<Rightarrow> int \<times> 'w"

text \<open>A C string literal.\<close>

definition lit :: "string \<Rightarrow> bytes" where
  "lit s = map of_char s"

section \<open>Formatted output\<close>

definition putc :: "'w os \<Rightarrow> int \<Rightarrow> u8 \<Rightarrow> 'w \<Rightarrow> 'w" where
  "putc S fd c w = snd (os_write S fd [c] w)"

definition u_digits :: "nat \<Rightarrow> u8" where
  "u_digits d = (if d < 10 then 48 + of_nat d else 55 + of_nat d)"

text \<open>The digits in the order in which the loop stores them, the last one first.\<close>

function u_print_digits :: "nat \<Rightarrow> nat \<Rightarrow> bytes" where
  "u_print_digits base x =
     u_digits (x mod base) # (if base < 2 \<or> x div base = 0 then [] else u_print_digits base (x div base))"
  by auto
termination
  by (relation "measure snd") (auto simp: div_greater_zero_iff)

declare u_print_digits.simps [simp del]

definition u_printint :: "u32 \<Rightarrow> nat \<Rightarrow> bool \<Rightarrow> bytes" where
  "u_printint xx base sg =
     (let neg = (sg \<and> sint xx < 0);
          x = (if neg then - xx else xx)
      in rev (u_print_digits base (unat x) @ (if neg then [45] else [])))"

definition u_printptr :: "u64 \<Rightarrow> bytes" where
  "u_printptr x = [48, 120] @ map (\<lambda>i. u_digits (unat (drop_bit 60 (push_bit (4 * i) x)))) [0..<16]"

text \<open>What one conversion prints, and the arguments that are left. A conversion without a matching argument
  is undefined in C.\<close>

definition u_convert :: "u8 \<Rightarrow> va_arg list \<Rightarrow> (bytes \<times> va_arg list) option" where
  "u_convert c ap =
     (if c = 100 then (case ap of VInt x # ap \<Rightarrow> Some (u_printint x 10 True, ap) | _ \<Rightarrow> None)
      else if c = 108 then (case ap of VPtr x # ap \<Rightarrow> Some (u_printint (ucast x) 10 False, ap) | _ \<Rightarrow> None)
      else if c = 120 then (case ap of VInt x # ap \<Rightarrow> Some (u_printint x 16 False, ap) | _ \<Rightarrow> None)
      else if c = 112 then (case ap of VPtr x # ap \<Rightarrow> Some (u_printptr x, ap) | _ \<Rightarrow> None)
      else if c = 115 then
        (case ap of VStr s # ap \<Rightarrow> Some (case s of None \<Rightarrow> lit ''(null)'' | Some s \<Rightarrow> s, ap) | _ \<Rightarrow> None)
      else if c = 99 then (case ap of VInt x # ap \<Rightarrow> Some ([ucast x], ap) | _ \<Rightarrow> None)
      else if c = 37 then Some ([c], ap)
      else Some ([37, c], ap))"

text \<open>\<open>state\<close> is true after a percent sign.\<close>

fun vprintf_chars :: "bytes \<Rightarrow> bool \<Rightarrow> va_arg list \<Rightarrow> bytes option" where
  "vprintf_chars [] state ap = Some []"
| "vprintf_chars (c # fmt) state ap =
     (if \<not> state then
        (if c = 37 then vprintf_chars fmt True ap else map_option (Cons c) (vprintf_chars fmt False ap))
      else
        (case u_convert c ap of
           None \<Rightarrow> None
         | Some (cs, ap) \<Rightarrow> map_option (append cs) (vprintf_chars fmt False ap)))"

definition vprintf :: "'w os \<Rightarrow> int \<Rightarrow> bytes \<Rightarrow> va_arg list \<Rightarrow> 'w \<Rightarrow> 'w option" where
  "vprintf S fd fmt ap w = map_option (\<lambda>cs. fold (putc S fd) cs w) (vprintf_chars fmt False ap)"

definition u_fprintf :: "'w os \<Rightarrow> int \<Rightarrow> bytes \<Rightarrow> va_arg list \<Rightarrow> 'w \<Rightarrow> 'w option" where
  "u_fprintf S fd fmt ap w = vprintf S fd fmt ap w"

definition u_printf :: "'w os \<Rightarrow> bytes \<Rightarrow> va_arg list \<Rightarrow> 'w \<Rightarrow> 'w option" where
  "u_printf S fmt ap w = vprintf S 1 fmt ap w"

text \<open>The value of a printed number.\<close>

definition u_digit_val :: "u8 \<Rightarrow> nat" where
  "u_digit_val c = (if c < 58 then unat c - 48 else unat c - 55)"

lemma u_digit_val: "d < 16 \<Longrightarrow> u_digit_val (u_digits d) = d"
proof -
  assume "d < 16"
  then have "d \<in> set [0..<16]" by simp
  then show ?thesis by (auto simp: upt_rec u_digit_val_def u_digits_def)
qed

lemma u_print_digits_value:
  assumes "2 \<le> base" and "base \<le> 16"
  shows "foldr (\<lambda>c n. u_digit_val c + base * n) (u_print_digits base x) 0 = x"
proof (induction x rule: less_induct)
  case (less x)
  have d: "u_digit_val (u_digits (x mod base)) = x mod base"
    using assms by (intro u_digit_val) (meson mod_less_divisor less_le_trans zero_less_numeral)
  show ?case
  proof (cases "x div base = 0")
    case True
    then show ?thesis using assms d by (subst u_print_digits.simps) (auto simp: div_eq_0_iff)
  next
    case False
    then have "x div base < x" using assms False by (cases x) (auto intro: div_less_dividend)
    from less.IH[OF this] show ?thesis using assms False d by (subst u_print_digits.simps) (simp add: add.commute)
  qed
qed

end
