(* ===== verification/User_Text.thy ===== *)
theory User_Text
  imports User_Printf
begin

text \<open>
  The text programs of \<open>user/\<close>: the regular expression matcher and the line buffer of \<open>grep.c\<close>, the counters of
  \<open>wc.c\<close>, \<open>cat.c\<close> and \<open>echo.c\<close>, over the system calls of theory \<open>User_Printf\<close>. A C string is the list of its
  bytes without the final NUL, so that reading the byte at the end of the list reads NUL.
\<close>

section \<open>Results\<close>

text \<open>A function returns or the process exits; \<open>None\<close> is a function that does neither.\<close>

datatype 'w ustep = Ret 'w | Exit int 'w

definition then_u :: "'w ustep option \<Rightarrow> ('w \<Rightarrow> 'w ustep option) \<Rightarrow> 'w ustep option" where
  "then_u r f = (case r of None \<Rightarrow> None | Some (Ret w) \<Rightarrow> f w | Some (Exit e w) \<Rightarrow> Some (Exit e w))"

definition fail_with :: "'w option \<Rightarrow> int \<Rightarrow> 'w ustep option" where
  "fail_with r e = map_option (Exit e) r"

section \<open>Regular expressions\<close>

function matchhere :: "bytes \<Rightarrow> bytes \<Rightarrow> bool" and matchstar :: "u8 \<Rightarrow> bytes \<Rightarrow> bytes \<Rightarrow> bool" where
  "matchhere re text =
     (case re of
        [] \<Rightarrow> True
      | r0 # re1 \<Rightarrow>
          if re1 \<noteq> [] \<and> hd re1 = 42 then matchstar r0 (tl re1) text
          else if r0 = 36 \<and> re1 = [] then text = []
          else if text \<noteq> [] \<and> (r0 = 46 \<or> r0 = hd text) then matchhere re1 (tl text)
          else False)"
| "matchstar c re text =
     (if matchhere re text then True
      else if text \<noteq> [] \<and> (hd text = c \<or> c = 46) then matchstar c re (tl text)
      else False)"
  by pat_completeness auto
termination
  by (relation "measures [\<lambda>x. case x of Inl (re, text) \<Rightarrow> length re | Inr (c, re, text) \<Rightarrow> Suc (length re),
        \<lambda>x. case x of Inl (re, text) \<Rightarrow> length text | Inr (c, re, text) \<Rightarrow> length text]")
    (auto simp: neq_Nil_conv)

declare matchhere.simps [simp del] matchstar.simps [simp del]

fun match_from :: "bytes \<Rightarrow> bytes \<Rightarrow> bool" where
  "match_from re text =
     (if matchhere re text then True else case text of [] \<Rightarrow> False | c # text \<Rightarrow> match_from re text)"

declare match_from.simps [simp del]

definition match :: "bytes \<Rightarrow> bytes \<Rightarrow> bool" where
  "match re text = (if re \<noteq> [] \<and> hd re = 94 then matchhere (tl re) text else match_from re text)"

text \<open>What a pattern means: a sequence of single characters and starred characters, which must reach the end
  of the text when the pattern ends in a dollar sign.\<close>

datatype item = One u8 | Star u8

definition char_ok :: "u8 \<Rightarrow> u8 \<Rightarrow> bool" where
  "char_ok p c \<longleftrightarrow> p = 46 \<or> p = c"

fun parse_re :: "bytes \<Rightarrow> item list \<times> bool" where
  "parse_re [] = ([], False)"
| "parse_re [p] = (if p = 36 then ([], True) else ([One p], False))"
| "parse_re (p # q # re) =
     (if q = 42 then apfst (Cons (Star p)) (parse_re re) else apfst (Cons (One p)) (parse_re (q # re)))"

inductive denotes :: "item list \<Rightarrow> bytes \<Rightarrow> bool" where
  "denotes [] []"
| "char_ok p c \<Longrightarrow> denotes items t \<Longrightarrow> denotes (One p # items) (c # t)"
| "denotes items t \<Longrightarrow> denotes (Star p # items) t"
| "char_ok p c \<Longrightarrow> denotes (Star p # items) t \<Longrightarrow> denotes (Star p # items) (c # t)"

inductive_cases denotes_NilE: "denotes [] t"
inductive_cases denotes_OneE: "denotes (One p # items) t"
inductive_cases denotes_StarE: "denotes (Star p # items) t"
inductive_simps denotes_Star: "denotes (Star p # items) t"
inductive_simps denotes_One: "denotes (One p # items) t"
inductive_simps denotes_Nil: "denotes [] t"

definition matches_prefix :: "item list \<times> bool \<Rightarrow> bytes \<Rightarrow> bool" where
  "matches_prefix P t \<longleftrightarrow> (\<exists>u v. t = u @ v \<and> denotes (fst P) u \<and> (snd P \<longrightarrow> v = []))"

lemma matches_prefix_Nil: "matches_prefix ([], e) t \<longleftrightarrow> (e \<longrightarrow> t = [])"
  by (auto simp: matches_prefix_def denotes_Nil)

lemma matches_prefix_One: "matches_prefix (One p # xs, e) t \<longleftrightarrow> (\<exists>c u. t = c # u \<and> char_ok p c \<and> matches_prefix (xs, e) u)"
  (is "?l \<longleftrightarrow> ?r")
proof
  assume ?l
  then obtain u v where uv: "t = u @ v" "denotes (One p # xs) u" "e \<longrightarrow> v = []" by (auto simp: matches_prefix_def)
  from uv(2) show ?r by (rule denotes_OneE) (use uv(1,3) in \<open>auto simp: matches_prefix_def\<close>)
next
  assume ?r
  then obtain c u v where "t = c # u @ v" "char_ok p c" "denotes xs u" "e \<longrightarrow> v = []" by (auto simp: matches_prefix_def)
  then show ?l unfolding matches_prefix_def by (intro exI[of _ "c # u"] exI[of _ v]) (simp add: denotes_One)
qed

lemma matches_prefix_Star:
  "matches_prefix (Star p # xs, e) t \<longleftrightarrow>
     matches_prefix (xs, e) t \<or> (\<exists>c u. t = c # u \<and> char_ok p c \<and> matches_prefix (Star p # xs, e) u)"
  (is "?l \<longleftrightarrow> ?a \<or> ?b")
proof
  assume ?l
  then obtain u v where uv: "t = u @ v" "denotes (Star p # xs) u" "e \<longrightarrow> v = []" by (auto simp: matches_prefix_def)
  from uv(2) show "?a \<or> ?b" by (rule denotes_StarE) (use uv(1,3) in \<open>auto simp: matches_prefix_def\<close>)
next
  assume "?a \<or> ?b"
  then show ?l
  proof
    assume ?a
    then show ?l by (auto simp: matches_prefix_def intro: denotes.intros)
  next
    assume ?b
    then obtain c u v where "t = c # u @ v" "char_ok p c" "denotes (Star p # xs) u" "e \<longrightarrow> v = []" by (auto simp: matches_prefix_def)
    then show ?l unfolding matches_prefix_def by (intro exI[of _ "c # u"] exI[of _ v]) (auto intro: denotes.intros)
  qed
qed

lemma matchhere_matchstar_denote:
  "matchhere re t = matches_prefix (parse_re re) t"
  "matchstar c re t = matches_prefix (apfst (Cons (Star c)) (parse_re re)) t"
proof (induction re t and c re t rule: matchhere_matchstar.induct)
  case (1 re t)
  show ?case
  proof (cases re)
    case Nil
    then show ?thesis by (simp add: matchhere.simps matches_prefix_Nil)
  next
    case r: (Cons p re1)
    show ?thesis
    proof (cases re1)
      case Nil
      then show ?thesis using 1(2)[OF r] r
        by (subst matchhere.simps) (auto simp: matches_prefix_Nil matches_prefix_One char_ok_def neq_Nil_conv)
    next
      case (Cons q re2)
      then show ?thesis using 1[OF r] r
        by (subst matchhere.simps) (auto simp: matches_prefix_One char_ok_def neq_Nil_conv apfst_def map_prod_def split: prod.splits)
    qed
  qed
next
  case (2 c re t)
  obtain xs e where p: "parse_re re = (xs, e)" by (cases "parse_re re")
  have "matchstar c re t \<longleftrightarrow> matches_prefix (xs, e) t \<or> (t \<noteq> [] \<and> char_ok c (hd t) \<and> matches_prefix (Star c # xs, e) (tl t))"
    using 2 by (subst matchstar.simps) (auto simp: p char_ok_def)
  also have "\<dots> \<longleftrightarrow> matches_prefix (Star c # xs, e) t" by (subst (2) matches_prefix_Star) (cases t; auto)
  finally show ?case by (simp add: p)
qed

lemma match_from_iff: "match_from re t \<longleftrightarrow> (\<exists>s u. t = s @ u \<and> matchhere re u)"
proof (induction t)
  case Nil
  then show ?case by (subst match_from.simps) simp
next
  case (Cons c t)
  have "(\<exists>s u. c # t = s @ u \<and> matchhere re u) \<longleftrightarrow> matchhere re (c # t) \<or> (\<exists>s u. t = s @ u \<and> matchhere re u)"
    by (auto simp: Cons_eq_append_conv)
  with Cons show ?case by (subst match_from.simps) simp
qed

text \<open>C31: The matcher of \<open>grep\<close> finds exactly the texts its patterns mean. With the pattern read as a sequence of
  characters, of which a dot is any character, and starred characters, \<open>match\<close> is true precisely when
  some part of the text is denoted by the sequence: at the beginning of the text if the pattern
  starts with \<open>^\<close>, and reaching its end if the pattern ends in a dollar sign. It returns for every pattern
  and text.\<close>
theorem match_finds_pattern:
  "match re t \<longleftrightarrow> (let anchored = (re \<noteq> [] \<and> hd re = 94); (items, at_end) = parse_re (if anchored then tl re else re) in
     \<exists>s u v. t = s @ u @ v \<and> denotes items u \<and> (anchored \<longrightarrow> s = []) \<and> (at_end \<longrightarrow> v = []))"
proof (cases "re \<noteq> [] \<and> hd re = 94")
  case True
  obtain xs e where "parse_re (tl re) = (xs, e)" by (cases "parse_re (tl re)")
  then show ?thesis using True by (simp add: match_def matchhere_matchstar_denote(1) matches_prefix_def)
next
  case False
  obtain xs e where "parse_re re = (xs, e)" by (cases "parse_re re")
  then show ?thesis using False unfolding match_def Let_def if_not_P[OF False] match_from_iff matchhere_matchstar_denote(1) matches_prefix_def
    by auto
qed

lemma match_finds_pattern_witness:
  "match [98, 42, 99] [97, 98, 98, 99, 100]"
proof -
  have c: "char_ok 98 98" "char_ok 99 99" by (simp_all add: char_ok_def)
  have d: "denotes [Star 98, One 99] [98, 98, 99]"
    by (rule denotes.intros(4), rule c, rule denotes.intros(4), rule c, rule denotes.intros(3), rule denotes.intros(2), rule c, rule denotes.intros(1))
  have p: "parse_re [98, 42, 99] = ([Star 98, One 99], False)" by simp
  have "\<exists>s u v. [97, 98, 98, 99, 100] = s @ u @ v \<and> denotes [Star 98, One 99] u"
    using d by (intro exI[of _ "[97]"] exI[of _ "[98, 98, 99]"] exI[of _ "[100]"]) simp
  then show ?thesis unfolding match_finds_pattern[of "[98, 42, 99]"] Let_def using p by simp
qed

section \<open>Searching a file\<close>

text \<open>\<open>buf\<close> has 1024 bytes. The string at an index ends before the next NUL; \<open>strchr\<close> looks for a newline in
  it.\<close>

definition string_from :: "bytes \<Rightarrow> nat \<Rightarrow> bytes" where
  "string_from buf p = takeWhile (\<lambda>c. c \<noteq> 0) (drop p buf)"

definition newline_from :: "bytes \<Rightarrow> nat \<Rightarrow> nat option" where
  "newline_from buf p =
     (let s = string_from buf p in if 10 \<in> set s then Some (p + length (takeWhile (\<lambda>c. c \<noteq> 10) s)) else None)"

lemma newline_from_bound: "newline_from buf p = Some q \<Longrightarrow> p \<le> q \<and> q < length buf"
proof -
  assume a: "newline_from buf p = Some q"
  let ?s = "string_from buf p"
  have s: "10 \<in> set ?s" "q = p + length (takeWhile (\<lambda>c. c \<noteq> 10) ?s)"
    using a by (auto simp: newline_from_def Let_def split: if_splits)
  have "takeWhile (\<lambda>c. c \<noteq> 10) ?s \<noteq> ?s" using s(1) by (auto simp: takeWhile_eq_all_conv)
  then have "length (takeWhile (\<lambda>c. c \<noteq> 10) ?s) < length ?s"
    by (metis le_neq_implies_less length_takeWhile_le take_all takeWhile_eq_take)
  moreover have "length ?s \<le> length buf - p" by (metis string_from_def length_takeWhile_le length_drop)
  ultimately show ?thesis using s(2) by simp
qed

function grep_lines :: "'w os \<Rightarrow> bytes \<Rightarrow> bytes \<Rightarrow> nat \<Rightarrow> 'w \<Rightarrow> bytes \<times> nat \<times> 'w" where
  "grep_lines S pattern buf p w =
     (case newline_from buf p of
        None \<Rightarrow> (buf, p, w)
      | Some q \<Rightarrow>
          let buf = buf[q := 0] in
          if match pattern (string_from buf p)
          then let buf = buf[q := 10] in grep_lines S pattern buf (q + 1) (snd (os_write S 1 (slice buf p (q + 1 - p)) w))
          else grep_lines S pattern buf (q + 1) w)"
  by pat_completeness auto
termination
  by (relation "measure (\<lambda>(S, pattern, buf, p, w). length buf - p)") (auto dest: newline_from_bound)

declare grep_lines.simps [simp del]

partial_function (option) grep_loop :: "'w os \<Rightarrow> bytes \<Rightarrow> int \<Rightarrow> bytes \<Rightarrow> nat \<Rightarrow> 'w \<Rightarrow> 'w option" where
  "grep_loop S pattern fd buf m w =
     (case os_read S fd (1024 - m - 1) w of ((n, bs), w) \<Rightarrow>
       if n > 0 then
         (let buf = blit buf m bs;
              m = m + nat n;
              buf = buf[m := 0]
          in case grep_lines S pattern buf 0 w of (buf, p, w) \<Rightarrow>
               if m > 0 then grep_loop S pattern fd (blit buf 0 (slice buf p (m - p))) (m - p) w
               else grep_loop S pattern fd buf m w)
       else Some w)"

definition grep :: "'w os \<Rightarrow> bytes \<Rightarrow> int \<Rightarrow> 'w \<Rightarrow> 'w option" where
  "grep S pattern fd w = grep_loop S pattern fd (replicate 1024 0) 0 w"

fun grep_files :: "'w os \<Rightarrow> bytes \<Rightarrow> bytes list \<Rightarrow> 'w \<Rightarrow> 'w ustep option" where
  "grep_files S pattern [] w = Some (Exit 0 w)"
| "grep_files S pattern (a # argv) w =
     (case os_open S a 0 w of (fd, w) \<Rightarrow>
       if fd < 0 then fail_with (u_printf S (lit ''grep: cannot open %s'' @ [10]) [VStr (Some a)] w) 1
       else case grep S pattern fd w of None \<Rightarrow> None | Some w \<Rightarrow> grep_files S pattern argv (os_close S fd w))"

definition grep_main :: "'w os \<Rightarrow> bytes list \<Rightarrow> 'w \<Rightarrow> 'w ustep option" where
  "grep_main S argv w =
     (if length argv \<le> 1 then fail_with (u_fprintf S 2 (lit ''usage: grep pattern [file ...]'' @ [10]) [] w) 1
      else if length argv \<le> 2 then map_option (Exit 0) (grep S (argv ! 1) 0 w)
      else grep_files S (argv ! 1) (drop 2 argv) w)"

section \<open>Counting and copying\<close>

text \<open>The counters are \<open>int\<close> variables, which wrap.\<close>

record counts =
  n_l :: u32
  n_w :: u32
  n_c :: u32
  inword :: bool

definition is_space :: "u8 \<Rightarrow> bool" where
  "is_space b \<longleftrightarrow> b \<in> set [32, 13, 9, 10, 11]"

definition wc_byte :: "u8 \<Rightarrow> counts \<Rightarrow> counts" where
  "wc_byte b k = (
     let k = k\<lparr>n_c := n_c k + 1\<rparr>;
         k = (if b = 10 then k\<lparr>n_l := n_l k + 1\<rparr> else k)
     in if is_space b then k\<lparr>inword := False\<rparr>
        else if \<not> inword k then k\<lparr>n_w := n_w k + 1, inword := True\<rparr>
        else k)"

partial_function (option) wc_loop :: "'w os \<Rightarrow> int \<Rightarrow> counts \<Rightarrow> 'w \<Rightarrow> (int \<times> counts \<times> 'w) option" where
  "wc_loop S fd k w =
     (case os_read S fd 512 w of ((n, bs), w) \<Rightarrow>
       if n > 0 then wc_loop S fd (fold wc_byte (take (nat n) bs) k) w else Some (n, k, w))"

definition wc :: "'w os \<Rightarrow> int \<Rightarrow> bytes \<Rightarrow> 'w \<Rightarrow> 'w ustep option" where
  "wc S fd name w =
     (case wc_loop S fd \<lparr>n_l = 0, n_w = 0, n_c = 0, inword = False\<rparr> w of
        None \<Rightarrow> None
      | Some (n, k, w) \<Rightarrow>
          if n < 0 then fail_with (u_printf S (lit ''wc: read error'' @ [10]) [] w) 1
          else map_option Ret (u_printf S (lit ''%d %d %d %s'' @ [10]) [VInt (n_l k), VInt (n_w k), VInt (n_c k), VStr (Some name)] w))"

fun wc_files :: "'w os \<Rightarrow> bytes list \<Rightarrow> 'w \<Rightarrow> 'w ustep option" where
  "wc_files S [] w = Some (Exit 0 w)"
| "wc_files S (a # argv) w =
     (case os_open S a 0 w of (fd, w) \<Rightarrow>
       if fd < 0 then fail_with (u_printf S (lit ''wc: cannot open %s'' @ [10]) [VStr (Some a)] w) 1
       else then_u (wc S fd a w) (\<lambda>w. wc_files S argv (os_close S fd w)))"

definition wc_main :: "'w os \<Rightarrow> bytes list \<Rightarrow> 'w \<Rightarrow> 'w ustep option" where
  "wc_main S argv w =
     (if length argv \<le> 1 then then_u (wc S 0 [] w) (\<lambda>w. Some (Exit 0 w)) else wc_files S (tl argv) w)"

partial_function (option) cat :: "'w os \<Rightarrow> int \<Rightarrow> 'w \<Rightarrow> 'w ustep option" where
  "cat S fd w =
     (case os_read S fd 512 w of ((n, bs), w) \<Rightarrow>
       if n > 0 then
         (case os_write S 1 (take (nat n) bs) w of (k, w) \<Rightarrow>
            if k \<noteq> n then fail_with (u_fprintf S 2 (lit ''cat: write error'' @ [10]) [] w) 1 else cat S fd w)
       else if n < 0 then fail_with (u_fprintf S 2 (lit ''cat: read error'' @ [10]) [] w) 1
       else Some (Ret w))"

fun cat_files :: "'w os \<Rightarrow> bytes list \<Rightarrow> 'w \<Rightarrow> 'w ustep option" where
  "cat_files S [] w = Some (Exit 0 w)"
| "cat_files S (a # argv) w =
     (case os_open S a 0 w of (fd, w) \<Rightarrow>
       if fd < 0 then fail_with (u_fprintf S 2 (lit ''cat: cannot open %s'' @ [10]) [VStr (Some a)] w) 1
       else then_u (cat S fd w) (\<lambda>w. cat_files S argv (os_close S fd w)))"

definition cat_main :: "'w os \<Rightarrow> bytes list \<Rightarrow> 'w \<Rightarrow> 'w ustep option" where
  "cat_main S argv w =
     (if length argv \<le> 1 then then_u (cat S 0 w) (\<lambda>w. Some (Exit 0 w)) else cat_files S (tl argv) w)"

fun echo_args :: "'w os \<Rightarrow> bytes list \<Rightarrow> 'w \<Rightarrow> 'w" where
  "echo_args S [] w = w"
| "echo_args S (a # argv) w =
     (let w = snd (os_write S 1 a w);
          w = snd (os_write S 1 (if argv \<noteq> [] then [32] else [10]) w)
      in echo_args S argv w)"

definition echo_main :: "'w os \<Rightarrow> bytes list \<Rightarrow> 'w \<Rightarrow> 'w ustep option" where
  "echo_main S argv w = Some (Exit 0 (echo_args S (tl argv) w))"

end
