(* ===== verification/User_Streams.thy ===== *)
theory User_Streams
  imports User_Text
begin

text \<open>
  What \<open>grep\<close>, \<open>wc\<close> and \<open>cat\<close> do with a file, whatever the sizes of the pieces in which the system delivers
  it. The system calls are described by \<open>stream\<close>: a read with room for at least one byte delivers a
  non-empty prefix of what is left of the file, or nothing at its end, and a write to standard output
  appends.
\<close>

section \<open>Streams\<close>

definition stream :: "'w os \<Rightarrow> int \<Rightarrow> ('w \<Rightarrow> bytes) \<Rightarrow> ('w \<Rightarrow> bytes) \<Rightarrow> bool" where
  "stream S fd inp out \<longleftrightarrow>
     (\<forall>k w. 0 < k \<longrightarrow> (\<exists>n w'. os_read S fd k w = ((int n, take n (inp w)), w') \<and> n \<le> k \<and> n \<le> length (inp w) \<and>
        (n = 0 \<longleftrightarrow> inp w = []) \<and> inp w' = drop n (inp w) \<and> out w' = out w)) \<and>
     (\<forall>bs w. fst (os_write S 1 bs w) = int (length bs) \<and> inp (snd (os_write S 1 bs w)) = inp w \<and>
        out (snd (os_write S 1 bs w)) = out w @ bs)"

lemma stream_write: "stream S fd inp out \<Longrightarrow> inp (snd (os_write S 1 bs w)) = inp w \<and> out (snd (os_write S 1 bs w)) = out w @ bs"
  by (simp add: stream_def)

lemma stream_read:
  assumes "stream S fd inp out" and "0 < k"
  obtains (eof) w' where "inp w = []" and "os_read S fd k w = ((0, []), w')" and "inp w' = []" and "out w' = out w"
  | (more) n w' where "0 < n" and "n \<le> k" and "n \<le> length (inp w)" and "os_read S fd k w = ((int n, take n (inp w)), w')"
      and "inp w' = drop n (inp w)" and "out w' = out w"
proof -
  obtain n w' where r: "os_read S fd k w = ((int n, take n (inp w)), w')" "n \<le> k" "n \<le> length (inp w)" "n = 0 \<longleftrightarrow> inp w = []"
      "inp w' = drop n (inp w)" "out w' = out w"
    using assms unfolding stream_def by blast
  show thesis
  proof (cases "n = 0")
    case True
    then show thesis using r by (intro eof[of w']) simp_all
  next
    case False
    then show thesis using r by (intro more[of n w']) simp_all
  qed
qed

section \<open>Lines\<close>

text \<open>The lines of a text that end in a newline, without it, and what follows the last newline.\<close>

fun lines_of :: "bytes \<Rightarrow> bytes list \<times> bytes" where
  "lines_of [] = ([], [])"
| "lines_of (c # cs) =
     (case lines_of cs of (ls, r) \<Rightarrow>
        if c = 10 then ([] # ls, r) else case ls of [] \<Rightarrow> ([], c # r) | l # ls \<Rightarrow> ((c # l) # ls, r))"

definition joined :: "bytes list \<Rightarrow> bytes" where
  "joined ls = concat (map (\<lambda>l. l @ [10]) ls)"

lemma joined_simps [simp]: "joined [] = []" "joined (l # ls) = l @ 10 # joined ls" "joined (ls @ ms) = joined ls @ joined ms"
  by (simp_all add: joined_def)

lemma lines_of_joined:
  "lines_of xs = (ls, r) \<Longrightarrow> xs = joined ls @ r \<and> (\<forall>l \<in> set ls. 10 \<notin> set l) \<and> 10 \<notin> set r"
proof (induction xs arbitrary: ls r)
  case Nil
  then show ?case by simp
next
  case (Cons c cs)
  obtain ms q where m: "lines_of cs = (ms, q)" by (cases "lines_of cs")
  from Cons.IH[OF m] Cons.prems m show ?case by (auto split: if_splits list.splits)
qed

lemma lines_of_line: "10 \<notin> set l \<Longrightarrow> lines_of (l @ 10 # xs) = apfst (Cons l) (lines_of xs)"
  by (induction l) (auto simp: apfst_def map_prod_def split: prod.splits)

lemma lines_of_rest: "10 \<notin> set r \<Longrightarrow> lines_of r = ([], r)"
  by (induction r) auto

lemma lines_of_unique: "\<forall>l \<in> set ls. 10 \<notin> set l \<Longrightarrow> lines_of (joined ls @ xs) = apfst (append ls) (lines_of xs)"
  by (induction ls) (auto simp: lines_of_line apfst_def map_prod_def split: prod.splits)

lemma lines_of_append:
  "lines_of (xs @ ys) = (case lines_of xs of (ls, r) \<Rightarrow> apfst (append ls) (lines_of (r @ ys)))"
proof -
  obtain ls r where l: "lines_of xs = (ls, r)" by (cases "lines_of xs")
  have "xs = joined ls @ r" "\<forall>l \<in> set ls. 10 \<notin> set l" using lines_of_joined[OF l] by simp_all
  then have "lines_of (xs @ ys) = apfst (append ls) (lines_of (r @ ys))" using lines_of_unique[of ls "r @ ys"] by simp
  then show ?thesis by (simp add: l)
qed

lemma lines_of_start:
  assumes "10 \<notin> set r" and "lines_of (r @ ys) = (ls, q)"
  shows "length r \<le> (case ls of [] \<Rightarrow> length q | l # _ \<Rightarrow> length l)"
  using assms by (induction r arbitrary: ls q) (force split: if_splits list.splits prod.splits)+

definition short_lines :: "bytes \<Rightarrow> bool" where
  "short_lines xs \<longleftrightarrow> (case lines_of xs of (ls, r) \<Rightarrow> (\<forall>l \<in> set (r # ls). length l < 1023)) \<and> 0 \<notin> set xs"

lemma short_linesD:
  assumes "short_lines (r @ ys)" and "10 \<notin> set r"
  shows "length r < 1023"
proof -
  obtain ls q where l: "lines_of (r @ ys) = (ls, q)" by (cases "lines_of (r @ ys)")
  show ?thesis using lines_of_start[OF assms(2) l] assms(1) l by (cases ls) (auto simp: short_lines_def)
qed

section \<open>Searching\<close>

lemma takeWhile_line: "0 \<notin> set l \<Longrightarrow> takeWhile (\<lambda>c. c \<noteq> 0) (l @ 0 # xs) = (l :: bytes)"
  by (induction l) auto

lemma newline_from_line:
  assumes "drop p buf = l @ 10 # xs" and "0 \<notin> set l" and "10 \<notin> set l"
  shows "newline_from buf p = Some (p + length l)"
proof -
  have "takeWhile (\<lambda>c. c \<noteq> 0) (l @ 10 # xs) = l @ takeWhile (\<lambda>c. c \<noteq> 0) (10 # xs)"
    using assms(2) by (induction l) auto
  moreover have "takeWhile (\<lambda>c. c \<noteq> 10) (l @ 10 # ys) = l" for ys using assms(3) by (induction l) auto
  ultimately show ?thesis by (simp add: newline_from_def string_from_def assms(1))
qed

lemma newline_from_rest:
  assumes "drop p buf = r @ 0 # xs" and "0 \<notin> set r" and "10 \<notin> set r"
  shows "newline_from buf p = None"
  using assms by (simp add: newline_from_def string_from_def takeWhile_line)

lemma drop_upd: "drop p buf = l @ c # xs \<Longrightarrow> drop p (buf[p + length l := d]) = l @ d # xs \<and> drop (p + length l + 1) (buf[p + length l := d]) = xs"
proof -
  assume a: "drop p buf = l @ c # xs"
  then have n: "p \<le> length buf" by (metis Nil_is_append_conv drop_eq_Nil list.distinct(1) nle_le)
  have "drop p (buf[p + length l := d]) = (drop p buf)[length l := d]" using n by (simp add: drop_update_swap)
  then have "drop p (buf[p + length l := d]) = l @ d # xs" by (simp add: a)
  moreover from this have "drop (Suc (length l)) (drop p (buf[p + length l := d])) = xs" by simp
  then have "drop (p + length l + 1) (buf[p + length l := d]) = xs" by (simp only: drop_drop) (simp add: ac_simps)
  ultimately show ?thesis by blast
qed

lemma grep_lines_spec:
  assumes st: "stream S fd inp out" and "drop p buf = joined ls @ r @ 0 # junk"
    and "\<forall>l \<in> set (r # ls). 0 \<notin> set l \<and> 10 \<notin> set l"
  shows "\<exists>buf' w'. grep_lines S pattern buf p w = (buf', p + length (joined ls), w') \<and> length buf' = length buf \<and>
    drop (p + length (joined ls)) buf' = r @ 0 # junk \<and> inp w' = inp w \<and>
    out w' = out w @ joined (filter (match pattern) ls)"
  using assms(2,3)
proof (induction ls arbitrary: p buf w)
  case Nil
  then have "newline_from buf p = None" by (intro newline_from_rest[of p buf r junk]) simp_all
  then show ?case using Nil by (subst grep_lines.simps) simp
next
  case (Cons l ls)
  let ?q = "p + length l" and ?rest = "joined ls @ r @ 0 # junk"
  have d: "drop p buf = l @ 10 # ?rest" "0 \<notin> set l" "10 \<notin> set l" using Cons.prems by simp_all
  have nl: "newline_from buf p = Some ?q" by (rule newline_from_line[OF d])
  let ?b0 = "buf[?q := 0]" and ?b1 = "buf[?q := 0, ?q := 10]"
  have u0: "drop p ?b0 = l @ 0 # ?rest" "drop (?q + 1) ?b0 = ?rest" using drop_upd[OF d(1), of 0] by simp_all
  have u1: "drop p ?b1 = l @ 10 # ?rest" "drop (?q + 1) ?b1 = ?rest" using drop_upd[OF u0(1), of 10] by simp_all
  have s0: "string_from ?b0 p = l" using d(2) by (simp add: string_from_def u0(1) takeWhile_line)
  have s1: "slice ?b1 p (?q + 1 - p) = l @ [10]" unfolding slice_def u1(1) by simp
  have np: "?q + 1 + length (joined ls) = p + length (joined (l # ls))" by simp
  have ok: "\<forall>l \<in> set (r # ls). 0 \<notin> set l \<and> 10 \<notin> set l" using Cons.prems(2) by simp
  show ?case
  proof (cases "match pattern l")
    case True
    let ?w = "snd (os_write S 1 (l @ [10]) w)"
    have e: "grep_lines S pattern buf p w = grep_lines S pattern ?b1 (?q + 1) ?w"
      using True by (subst grep_lines.simps) (simp only: nl s0 s1 option.case Let_def if_True)
    obtain b' w' where "grep_lines S pattern ?b1 (?q + 1) ?w = (b', ?q + 1 + length (joined ls), w')" "length b' = length ?b1"
        "drop (?q + 1 + length (joined ls)) b' = r @ 0 # junk" "inp w' = inp ?w" "out w' = out ?w @ joined (filter (match pattern) ls)"
      using Cons.IH[OF u1(2) ok, of ?w] by blast
    then show ?thesis unfolding e np using True stream_write[OF st, of "l @ [10]" w] by auto
  next
    case False
    have e: "grep_lines S pattern buf p w = grep_lines S pattern ?b0 (?q + 1) w"
      using False by (subst grep_lines.simps) (simp only: nl s0 option.case Let_def if_False)
    obtain b' w' where "grep_lines S pattern ?b0 (?q + 1) w = (b', ?q + 1 + length (joined ls), w')" "length b' = length ?b0"
        "drop (?q + 1 + length (joined ls)) b' = r @ 0 # junk" "inp w' = inp w" "out w' = out w @ joined (filter (match pattern) ls)"
      using Cons.IH[OF u0(2) ok, of w] by blast
    then show ?thesis unfolding e np using False by auto
  qed
qed

lemma blit_front: "length xs \<le> length buf \<Longrightarrow> take (length xs) (blit buf 0 xs) = xs \<and> length (blit buf 0 xs) = length buf"
  by (simp add: blit_def)

lemma grep_buffer:
  assumes "length buf = 1024" and "take m buf = d" and "m = length d" and "0 < n" and "n = length bs" and "m + n \<le> 1023"
  shows "(blit buf m bs)[m + n := 0] = (d @ bs) @ 0 # drop (m + n + 1) buf"
proof -
  have "blit buf m bs = (d @ bs) @ drop (m + n) buf" using assms by (simp add: blit_def)
  moreover have "drop (m + n) buf = buf ! (m + n) # drop (m + n + 1) buf" using assms by (simp add: Cons_nth_drop_Suc)
  moreover have "length (d @ bs) = m + n" using assms by simp
  ultimately show ?thesis using list_update_length[of "d @ bs" "buf ! (m + n)" "drop (m + n + 1) buf" 0] by simp
qed

lemma grep_loop_spec:
  assumes st: "stream S fd inp out"
  shows "length buf = 1024 \<Longrightarrow> take (length d) buf = d \<Longrightarrow> 10 \<notin> set d \<Longrightarrow> short_lines (d @ inp w) \<Longrightarrow>
    \<exists>w'. grep_loop S pattern fd buf (length d) w = Some w' \<and> inp w' = [] \<and>
      out w' = out w @ joined (filter (match pattern) (fst (lines_of (d @ inp w))))"
proof (induction "length (inp w)" arbitrary: buf d w rule: less_induct)
  case less
  have m: "length d < 1023" using short_linesD[OF less.prems(4,3)] .
  then have room: "0 < 1024 - length d - 1" by simp
  show ?case
  proof (cases rule: stream_read[OF st room, of w, case_names eof more])
    case (eof w')
    have "lines_of (d @ inp w) = ([], d)" using eof(1) less.prems(3) by (simp add: lines_of_rest)
    then show ?thesis using eof by (subst grep_loop.simps) simp
  next
    case (more n w')
    let ?bs = "take n (inp w)" and ?m = "length d + n"
    obtain ls r where l: "lines_of (d @ ?bs) = (ls, r)" by (cases "lines_of (d @ ?bs)")
    have j: "d @ ?bs = joined ls @ r" "\<forall>l \<in> set (r # ls). 10 \<notin> set l" using lines_of_joined[OF l] by simp_all
    have whole: "d @ inp w = (d @ ?bs) @ inp w'" by (simp add: more(5))
    have z: "0 \<notin> set (d @ inp w)" using less.prems(4) by (simp add: short_lines_def)
    then have z0: "\<forall>l \<in> set (r # ls). 0 \<notin> set l" using j(1) by (auto simp: whole joined_def simp del: append_assoc split: if_splits)
    define b1 where "b1 = (blit buf (length d) ?bs)[?m := 0]"
    have b1: "b1 = (d @ ?bs) @ 0 # drop (?m + 1) buf"
      unfolding b1_def using more(1-3) less.prems(1,2) by (intro grep_buffer) auto
    have lb1: "length b1 = 1024" using b1 less.prems(1) more(2,3) m by simp
    have "drop 0 b1 = joined ls @ r @ 0 # drop (?m + 1) buf" using b1 j(1) by simp
    from grep_lines_spec[OF st this, of pattern w'] j(2) z0 obtain b2 w2 where g: "grep_lines S pattern b1 0 w' = (b2, length (joined ls), w2)"
      "length b2 = length b1" "drop (length (joined ls)) b2 = r @ 0 # drop (?m + 1) buf" "inp w2 = inp w'"
      "out w2 = out w' @ joined (filter (match pattern) ls)" by auto
    have lr: "?m - length (joined ls) = length r" "length (joined ls) \<le> ?m"
    proof -
      have "?m = length (joined ls) + length r" using arg_cong[OF j(1), of length] more(3) by simp
      then show "?m - length (joined ls) = length r" "length (joined ls) \<le> ?m" by simp_all
    qed
    let ?b3 = "blit b2 0 (slice b2 (length (joined ls)) (?m - length (joined ls)))"
    have sl: "slice b2 (length (joined ls)) (?m - length (joined ls)) = r" by (simp add: slice_def lr g(3))
    have step: "grep_loop S pattern fd buf (length d) w = grep_loop S pattern fd (blit b2 0 r) (length r) w2"
      using more(1,4) g(1) sl lr by (subst grep_loop.simps) (simp add: Let_def flip: b1_def)
    have b3: "length (blit b2 0 r) = 1024" "take (length r) (blit b2 0 r) = r"
      using blit_front[of r b2] g(2) lb1 lr more(2) m by auto
    have ln: "lines_of (d @ inp w) = apfst (append ls) (lines_of (r @ inp w2))"
      unfolding whole using lines_of_append[of "d @ ?bs" "inp w'"] by (simp only: l prod.case g(4))
    have short: "short_lines (r @ inp w2)"
    proof -
      obtain ls2 r2 where l2: "lines_of (r @ inp w2) = (ls2, r2)" by (cases "lines_of (r @ inp w2)")
      have "\<forall>l \<in> set (r2 # ls @ ls2). length l < 1023" using less.prems(4) ln by (simp add: short_lines_def l2)
      moreover have "0 \<notin> set (r @ inp w2)" using z z0 by (simp add: whole g(4) del: append_assoc)
      ultimately show ?thesis by (simp add: short_lines_def l2)
    qed
    have "length (inp w2) < length (inp w)" using g(4) more(1,3,5) by simp
    from less.hyps[OF this b3 _ short] j(2) obtain w4 where "grep_loop S pattern fd (blit b2 0 r) (length r) w2 = Some w4" "inp w4 = []"
      "out w4 = out w2 @ joined (filter (match pattern) (fst (lines_of (r @ inp w2))))" by auto
    then show ?thesis using step g(5) more(6) ln by auto
  qed
qed

text \<open>A system that delivers a file in pieces of at most \<open>c\<close> bytes: the state is what is left of the file and what
  was written to standard output.\<close>

definition chunk_os :: "nat \<Rightarrow> (bytes \<times> bytes) os" where
  "chunk_os c = \<lparr>
     os_read = \<lambda>fd k (i, ou). let n = min c (min k (length i)) in ((int n, take n i), (drop n i, ou)),
     os_write = \<lambda>fd bs (i, ou). (int (length bs), (i, if fd = 1 then ou @ bs else ou)),
     os_open = \<lambda>path mode w. (3, w), os_close = \<lambda>fd w. w, os_fstat = \<lambda>fd w. ((- 1, stat.make 0 0 0 0 0), w),
     os_kill = \<lambda>pid w. (- 1, w), os_link = \<lambda>a b w. (- 1, w), os_mkdir = \<lambda>a w. (- 1, w), os_unlink = \<lambda>a w. (- 1, w)\<rparr>"

lemma chunk_size: "0 < c \<Longrightarrow> 0 < k \<Longrightarrow> min c (min k n) = (0 :: nat) \<longleftrightarrow> n = 0"
  by (simp add: min_def)

lemma chunk_os_stream: "0 < c \<Longrightarrow> stream (chunk_os c) fd fst snd"
  by (auto simp: stream_def chunk_os_def Let_def chunk_size split: prod.splits intro!: exI[of _ "min c (min k (length i))" for k i])

text \<open>C32: \<open>grep\<close> prints exactly the matching lines of a file, in their order, however the system cuts the file
  into pieces, and it returns: for a file without NUL bytes whose lines fit in the buffer (fewer than
  1023 bytes), what it writes are the lines that end in a newline and match the pattern. A last
  line without newline is never printed.\<close>
theorem grep_prints_matching_lines:
  assumes "stream S fd inp out" and "short_lines (inp w)"
  shows "\<exists>w'. grep S pattern fd w = Some w' \<and> inp w' = [] \<and>
    out w' = out w @ joined (filter (match pattern) (fst (lines_of (inp w))))"
  using grep_loop_spec[OF assms(1), of "replicate 1024 0" "[]" w pattern] assms(2) by (simp add: grep_def)

lemma grep_prints_matching_lines_witness:
  "\<exists>w'. grep (chunk_os 2) [98] 0 ([97, 10, 98, 99, 10, 98], []) = Some w' \<and> snd w' = [98, 99, 10]"
proof -
  let ?w = "([97, 10, 98, 99, 10, 98], []) :: bytes \<times> bytes"
  have "short_lines (fst ?w)" by (simp add: short_lines_def)
  moreover have "\<not> match [98] [97]" "match [98] [98, 99]" by (simp_all add: match_def match_from.simps matchhere.simps)
  ultimately show ?thesis
    using grep_prints_matching_lines[OF chunk_os_stream[of 2 0], of ?w "[98]"] by simp
qed

section \<open>Counting\<close>

text \<open>The fields between white space, of which the non-empty ones are the words of a text.\<close>

fun fields :: "bytes \<Rightarrow> bytes list" where
  "fields [] = [[]]"
| "fields (x # xs) = (if is_space x then [] # fields xs else (x # hd (fields xs)) # tl (fields xs))"

definition words_of :: "bytes \<Rightarrow> bytes list" where
  "words_of xs = filter (\<lambda>l. l \<noteq> []) (fields xs)"

fun words_from :: "bool \<Rightarrow> bytes \<Rightarrow> nat" where
  "words_from b [] = 0"
| "words_from b (x # xs) = (if is_space x then words_from False xs else (if b then 0 else 1) + words_from True xs)"

lemma words_from_fields: "words_from b xs = length (filter (\<lambda>l. l \<noteq> []) (if b then tl (fields xs) else fields xs))"
proof (induction xs arbitrary: b)
  case Nil
  then show ?case by simp
next
  case (Cons x xs)
  have "fields xs \<noteq> []" by (cases xs) auto
  then have "filter (\<lambda>l. l \<noteq> []) ([] # tl (fields xs)) = filter (\<lambda>l. l \<noteq> []) (tl (fields xs))" by simp
  with Cons[of True] Cons[of False] show ?case by simp
qed

lemma wc_bytes:
  "n_l (fold wc_byte xs k) = n_l k + of_nat (count_list xs 10) \<and> n_c (fold wc_byte xs k) = n_c k + of_nat (length xs) \<and>
   n_w (fold wc_byte xs k) = n_w k + of_nat (words_from (inword k) xs)"
proof (induction xs arbitrary: k)
  case Nil
  then show ?case by simp
next
  case (Cons x xs)
  have "is_space 10" by (simp add: is_space_def)
  then show ?case using Cons[of "wc_byte x k"] by (auto simp: wc_byte_def Let_def)
qed

lemma wc_loop_spec:
  assumes st: "stream S fd inp out"
  shows "\<exists>w'. wc_loop S fd k w = Some (0, fold wc_byte (inp w) k, w') \<and> inp w' = [] \<and> out w' = out w"
proof (induction "length (inp w)" arbitrary: k w rule: less_induct)
  case less
  show ?case
  proof (cases rule: stream_read[OF st, of 512 w, case_names pos eof more])
    case pos
    then show ?case by simp
  next
    case (eof w')
    then show ?thesis by (subst wc_loop.simps) simp
  next
    case (more n w')
    have "length (inp w') < length (inp w)" using more(1,3,5) by simp
    from less[OF this, of "fold wc_byte (take n (inp w)) k"] obtain w2 where
      "wc_loop S fd (fold wc_byte (take n (inp w)) k) w' = Some (0, fold wc_byte (inp w') (fold wc_byte (take n (inp w)) k), w2)"
      "inp w2 = []" "out w2 = out w'" by blast
    moreover have "fold wc_byte (inp w') (fold wc_byte (take n (inp w)) k) = fold wc_byte (inp w) k"
      unfolding more(5) by (metis append_take_drop_id comp_apply fold_append)
    ultimately show ?thesis using more(1,3,4,6) by (subst wc_loop.simps) simp
  qed
qed

lemma puts_stream:
  assumes "stream S fd inp out"
  shows "inp (fold (putc S 1) cs w) = inp w \<and> out (fold (putc S 1) cs w) = out w @ cs"
  using stream_write[OF assms] by (induction cs arbitrary: w) (simp_all add: putc_def)

text \<open>C33: \<open>wc\<close> counts what its three columns mean, independently of the pieces in which the system delivers the
  file, and it returns: it prints the number of newlines, the number of maximal runs of bytes that
  are not white space and the number of bytes, each as the decimal numeral of the \<open>int\<close> it is kept
  in, and the name.\<close>
theorem wc_counts_file:
  assumes "stream S fd inp out"
  shows "\<exists>w'. wc S fd name w = Some (Ret w') \<and> inp w' = [] \<and>
    out w' = out w @ u_printint (of_nat (count_list (inp w) 10)) 10 True @ [32] @
      u_printint (of_nat (length (words_of (inp w)))) 10 True @ [32] @ u_printint (of_nat (length (inp w))) 10 True @ [32] @ name @ [10]"
proof -
  let ?k = "\<lparr>n_l = 0, n_w = 0, n_c = 0, inword = False\<rparr>"
  let ?r = "fold wc_byte (inp w) ?k"
  obtain w1 where w1: "wc_loop S fd ?k w = Some (0, ?r, w1)" "inp w1 = []" "out w1 = out w"
    using wc_loop_spec[OF assms] by blast
  have r: "n_l ?r = of_nat (count_list (inp w) 10)" "n_c ?r = of_nat (length (inp w))" "n_w ?r = of_nat (length (words_of (inp w)))"
    using wc_bytes[of "inp w" ?k] by (simp_all add: words_from_fields words_of_def)
  have f: "lit ''%d %d %d %s'' @ [10] = [37, 100, 32, 37, 100, 32, 37, 100, 32, 37, 115, 10]" by (simp add: lit_def)
  define cs where "cs = u_printint (n_l ?r) 10 True @ [32] @ u_printint (n_w ?r) 10 True @ [32] @ u_printint (n_c ?r) 10 True @ [32] @ name @ [10]"
  have "vprintf_chars (lit ''%d %d %d %s'' @ [10]) False [VInt (n_l ?r), VInt (n_w ?r), VInt (n_c ?r), VStr (Some name)] = Some cs"
    unfolding f cs_def by (simp add: u_convert_def)
  then have "wc S fd name w = Some (Ret (fold (putc S 1) cs w1))" by (simp add: wc_def u_printf_def vprintf_def w1(1))
  then show ?thesis using puts_stream[OF assms, of cs w1] w1(2,3) unfolding cs_def r by simp
qed

lemma wc_counts_file_witness:
  "\<exists>w'. wc (chunk_os 3) 0 [120] ([97, 32, 98, 98, 10], []) = Some (Ret w') \<and> snd w' = [49, 32, 50, 32, 53, 32, 120, 10]"
proof -
  have "u_printint 1 10 True = [49]" "u_printint 2 10 True = [50]" "u_printint 5 10 True = [53]"
    by (simp_all add: u_printint_def u_print_digits.simps u_digits_def)
  then show ?thesis
    using wc_counts_file[OF chunk_os_stream[of 3 0], of "[120]" "([97, 32, 98, 98, 10], [])"] by (simp add: words_of_def is_space_def)
qed

end
