(* ===== verification/Spec2Isabelle.thy ===== *)
theory Spec2Isabelle
  imports Spinlock_Smp Trap User_Copy Storage Transaction Pipe_Queue Console_Line Start User_Streams
begin

text \<open>
  \<^bold>\<open>A verification library for the xv6-riscv system.\<close>

  The program is the xv6 teaching operating system for RISC-V: the kernel (\<open>src/kernel\<close>), the user
  library and programs (\<open>src/user\<close>) and the host tool that builds a file system image (\<open>src/mkfs\<close>). User
  programs enter the kernel through a trap; the system calls act on processes, page tables, open files and
  pipes; files live in inodes, whose blocks are reached through a buffer cache that a write-ahead log makes
  atomic, above a disk driver that talks to a virtio device.

  \<^bold>\<open>The model.\<close> Every C function is a definition of the same name (a prefix \<open>u_\<close> marks a function of the user
  library that has a namesake in the kernel; a suffix such as \<open>_loop\<close> or \<open>_from\<close> marks the loop of a
  function). The globals of the kernel, its process table, locks, buffers, log and devices are the record
  \<open>kst\<close>; main memory is a function from 64-bit addresses to bytes, in which page tables and the free list of
  the page allocator live as bytes. A kernel function takes the state and returns an \<open>outcome\<close>: \<open>Ok\<close> with
  a value and the new state, \<open>Panic\<close> with the message of the panic, \<open>Sleep\<close> when the process gives the CPU away and is
  not resumed, \<open>Hang\<close> when it spins for ever. Machine integers are words of their width; a C \<open>int\<close> whose
  overflow plays no role is an \<open>int\<close>. The code runs on one CPU at a time: what other processes and CPUs do
  while a process is off the CPU is the field \<open>future\<close> of the state, a finite list after which only the
  block device acts; \<open>cpu_step\<close> in \<open>Spinlock_Smp\<close> is the interleaving model of several CPUs that
  contend for a lock, one access to the lock at a time.

  \<^bold>\<open>The kernel, theory by theory.\<close>

  \<^item> \<open>Kernel_Prelude\<close>: machine integers, the result type and its weakest-precondition rules, byte codecs, memory.
  \<^item> \<open>Kernel_State\<close>: constants, one record per C struct (\<open>proc.h\<close>, \<open>buf.h\<close>, \<open>file.h\<close>, \<open>fs.h\<close>), the globals.
  \<^item> \<open>Spinlock\<close> (\<open>spinlock.c\<close>): the locks and the nesting of \<open>push_off\<close> and \<open>pop_off\<close>; \<open>Spinlock_Smp\<close>: the
    instructions of \<open>acquire\<close>, \<open>holding\<close> and \<open>release\<close> on several CPUs, mutual exclusion, and that a CPU on its
    own does what the functions of \<open>Spinlock\<close> say.
  \<^item> \<open>Kernel_String\<close> (\<open>string.c\<close>): \<open>memmove\<close> with overlap, the string copies.
  \<^item> \<open>Kalloc\<close> (\<open>kalloc.c\<close>): the free list refines a set of pages, of which \<open>kalloc\<close> and \<open>kfree\<close> move one.
  \<^item> \<open>Vm\<close> (\<open>vm.c\<close>); \<open>Page_Table\<close>, \<open>Page_Map\<close>, \<open>Page_Unmap\<close>, \<open>User_Copy\<close>: a page table is a partial map from pages to
    entries; mapping, unmapping and growing change exactly their range; user memory is read and
    written only through valid user mappings.
  \<^item> \<open>Sched\<close> (the scheduling half of \<open>proc.c\<close> and the disk interrupt), \<open>Sleeplock\<close> (\<open>sleeplock.c\<close>), \<open>Virtio\<close>
    (\<open>virtio_disk.c\<close>); \<open>Kernel_Env\<close>, \<open>Disk_Rw\<close>: one process with only the device beside it, and a request
    to the disk under a conforming device (\<open>blk_conforms\<close>).
  \<^item> \<open>Bio\<close> (\<open>bio.c\<close>); \<open>Cache_List\<close>, \<open>Buffer_Cache\<close>, \<open>Cache_Rules\<close>, \<open>Storage\<close>: the list of buffers, the invariant of the
    cache from \<open>binit\<close> on, a block reads as what was last written to it.
  \<^item> \<open>Log\<close> (\<open>log.c\<close>); \<open>Log_Commit\<close>, \<open>Crash_Safety\<close>, \<open>Transaction\<close>: a transaction is atomic under a crash between any
    two block writes, with recovery by \<open>initlog\<close>; the number of blocks the log can overflow with.
    \<open>Idle_Machine\<close> is the concrete machine of their witnesses.
  \<^item> \<open>Fs_Alloc\<close>, \<open>Fs_Inode\<close>, \<open>Fs_Dir\<close> (\<open>fs.c\<close>): blocks, inodes, directories, path names.
  \<^item> \<open>Ring_Buffer\<close>: the interface of the ring buffers, a locale; \<open>Pipe\<close> and \<open>Pipe_Queue\<close> (\<open>pipe.c\<close>), \<open>Console\<close>,
    \<open>Console_Queue\<close> and \<open>Console_Line\<close> (\<open>uart.c\<close>, \<open>printf.c\<close>, \<open>console.c\<close>) interpret it: pipes and the UART are queues,
    console input is a line editor, printed numbers have the value of the argument.
  \<^item> \<open>File\<close> (\<open>file.c\<close>), \<open>Proc_Life\<close> (the other half of \<open>proc.c\<close>), \<open>Sysarg\<close>, \<open>Exec\<close> (\<open>exec.c\<close>), \<open>Sysfile\<close> (\<open>sysfile.c\<close>),
    \<open>Syscall\<close> (\<open>sysproc.c\<close> and the dispatcher of \<open>syscall.c\<close>), \<open>Trap\<close> (\<open>trap.c\<close>, \<open>plic.c\<close>, \<open>main.c\<close>): definitions of every
    operation, composed as in the code from a trap down to the disk.
  \<^item> \<open>Asm\<close> (\<open>swtch.S\<close>, \<open>trampoline.S\<close>, \<open>kernelvec.S\<close>, \<open>entry.S\<close>) and \<open>Start\<close> (\<open>start.c\<close>): instruction lists run by an
    interpreter; context switches and traps keep the registers, the timer interrupt recurs.

  \<^bold>\<open>User space.\<close> \<open>User_Lib\<close> (\<open>ulib.c\<close>): string functions return on every terminated string whose length fits an \<open>int\<close>, the two versions
  of \<open>memmove\<close> agree. \<open>User_Printf\<close>: the system calls as a record of functions and \<open>printf.c\<close>. \<open>User_Text\<close> (\<open>grep.c\<close>,
  \<open>wc.c\<close>, \<open>cat.c\<close>, \<open>echo.c\<close>): the matcher of \<open>grep\<close> decides the meaning of its patterns. \<open>User_Streams\<close>: \<open>grep\<close>
  prints the matching lines and \<open>wc\<close> counts lines, words and bytes, however \<open>read\<close> cuts the file.

  \<^bold>\<open>Termination, bounds and fuel.\<close> Loops of the source are structural recursion or functions with a termination
  proof. Loops that sleep decrease \<open>turns\<close>, twice the length of \<open>future\<close> plus one for a busy disk:
  a process that waits for the device is woken at most once per batch of requests. The fuel of
  \<open>freewalk\<close> is 64 levels, page tables have three. Loops of user programs that a system call or a missing
  NUL may keep running are partial functions into \<open>option\<close>, and the theorems about them show that they
  return.

  \<^bold>\<open>Parameters.\<close> What the block device does with a request (\<open>blk\<close>, a field of the state, with \<open>blk_conforms\<close> as its
  documented behaviour; how the device reads the notification, the rings and the descriptors with their
  lengths and flags, and how it interrupts, is the protocol of the virtio specification, \<open>dev_one\<close> and
  \<open>dev_run\<close> in \<open>Sched\<close>), the addresses the linker chooses, address translation and called C functions for the assembly code
  (record \<open>machine\<close>), the system calls for user programs (record \<open>os\<close>).

  \<^bold>\<open>Not modelled.\<close> The shell (\<open>sh.c\<close>), the user allocator (\<open>umalloc.c\<close>), the programs that only issue system calls
  (\<open>init.c\<close>, \<open>kill.c\<close>, \<open>ln.c\<close>, \<open>ls.c\<close>, \<open>mkdir.c\<close>, \<open>rm.c\<close>, \<open>zombie.c\<close>) and \<open>mkfs.c\<close>; the test programs (\<open>usertests.c\<close>, \<open>grind.c\<close>,
  \<open>stressfs.c\<close>, \<open>forktest.c\<close>), which hold no part of the system; \<open>ramdisk.c\<close>, which the build does not link. Concurrent execution of kernel code on several CPUs is modelled only for the lock
  protocol; elsewhere other CPUs appear through \<open>future\<close>.
\<close>

end
